(* ===== verification/Prelude.thy ===== *)
theory Prelude
  imports Main "HOL-Library.Word" "HOL-Library.Signed_Division"
begin

section \<open>Machine words, C integers and byte memory\<close>

text \<open>
  What every component shares: the names of the machine integer types, the C conversions between
  the 64-bit \<open>size_t\<close> and the 32-bit \<open>int\<close>, and a byte-addressed memory with its 64-bit
  little-endian loads and stores (the data model of the modules is LP64, x86-64). The lemmas are
  the ones by which the other theories move an address computation from words to natural numbers
  and frame a store away from a load.
\<close>

unbundle bit_operations_syntax

type_synonym u8 = "8 word"
type_synonym u16 = "16 word"
type_synonym u32 = "32 word"
type_synonym u64 = "64 word"

text \<open>Pointers and \<open>size_t\<close> are 64-bit words; \<open>NULL\<close> is 0.\<close>

type_synonym ptr = u64
type_synonym mem = "u64 \<Rightarrow> u8"

abbreviation NULL :: ptr where "NULL \<equiv> 0"

named_theorems word_nat \<open>rules that read a word computation as one on natural numbers\<close>
named_theorems frame \<open>rules that move a load past a store it does not overlap\<close>

subsection \<open>Reading words as natural numbers\<close>

lemma unat_lt64 [simp, intro]: "unat (w :: u64) < 18446744073709551616"
  using unsigned_less [of w] by simp

lemma unat_of_nat64 [word_nat]: "n < 18446744073709551616 \<Longrightarrow> unat (of_nat n :: u64) = n"
  by (simp add: unat_of_nat)

lemma unat_add64 [word_nat]:
  "unat a + unat b < 18446744073709551616 \<Longrightarrow> unat (a + b :: u64) = unat a + unat b"
  using unat_add_lem [of a b] by simp

lemma unat_mult64 [word_nat]:
  "unat a * unat b < 18446744073709551616 \<Longrightarrow> unat (a * b :: u64) = unat a * unat b"
  using unat_mult_lem [of a b] by simp

lemma unat_sub64 [word_nat]: "unat b \<le> unat a \<Longrightarrow> unat (a - b :: u64) = unat a - unat b"
  by (simp add: unat_sub word_le_nat_alt)

lemma unat_add_of_nat [word_nat]:
  assumes "unat a + n < 18446744073709551616"
  shows "unat (a + of_nat n :: u64) = unat a + n"
proof -
  have "unat (of_nat n :: u64) = n" using assms by (intro unat_of_nat64) simp
  then show ?thesis using assms by (simp add: unat_add64)
qed

lemma unat_add_numeral [word_nat]:
  "unat a + numeral n < 18446744073709551616 \<Longrightarrow> unat (a + numeral n :: u64) = unat a + numeral n"
  using unat_add_of_nat [of a "numeral n"] by simp

lemma unat_add_one [word_nat]:
  "unat a + 1 < 18446744073709551616 \<Longrightarrow> unat (a + 1 :: u64) = unat a + 1"
  using unat_add_of_nat [of a 1] by simp

lemma unat_sub_one [word_nat]: "a \<noteq> 0 \<Longrightarrow> unat (a - 1 :: u64) = unat a - 1"
  by (simp add: unat_minus_one)

lemma unat_pos_iff: "0 < (w :: u64) \<longleftrightarrow> 0 < unat w"
  by (simp add: word_less_nat_alt)

lemma u64_eq_iff: "(a :: u64) = b \<longleftrightarrow> unat a = unat b"
  by (simp add: word_unat_eq_iff)

lemmas u64_order = word_less_nat_alt word_le_nat_alt

lemma unat_two_power [word_nat]: "p < 64 \<Longrightarrow> unat (2 ^ p :: u64) = 2 ^ p"
  by (subst push_bit_of_1 [symmetric], subst unsigned_push_bit_eq)
     (simp add: take_bit_push_bit push_bit_eq_mult)

text \<open>\<open>1ull << p\<close>\<close>

definition shl1 :: "u64 \<Rightarrow> u64" where
  "shl1 p = push_bit (unat p) 1"

lemma unat_shl1 [word_nat]: "unat p < 64 \<Longrightarrow> unat (shl1 p) = 2 ^ unat p"
  by (simp add: shl1_def unat_two_power)

lemma unat_drop_bit64 [word_nat]: "unat (drop_bit n (w :: u64)) = unat w div 2 ^ n"
  by (subst unat_drop_bit_eq) (simp add: drop_bit_eq_div)

subsection \<open>The C conversions between \<open>size_t\<close> and \<open>int\<close>\<close>

text \<open>
  An \<open>int\<close> of the C is an HOL integer in the 32-bit range; storing a \<open>size_t\<close> into it keeps
  the low 32 bits as two's complement, passing it as a \<open>size_t\<close> sign-extends it.
\<close>

definition int_of_size :: "u64 \<Rightarrow> int" where
  "int_of_size w = signed_take_bit 31 (uint w)"

definition size_of_int :: "int \<Rightarrow> u64" where
  "size_of_int i = word_of_int i"

lemma int_of_size_small: "unat w < 2147483648 \<Longrightarrow> int_of_size w = int (unat w)"
proof -
  assume "unat w < 2147483648"
  then have "uint w < 2147483648" using uint_nat [of w] by linarith
  then have "signed_take_bit 31 (uint w) = uint w"
    by (intro signed_take_bit_int_eq_self) (simp_all add: order_trans [OF _ uint_ge_0])
  then show ?thesis by (simp add: int_of_size_def)
qed

lemma sint_small64: "unat (w :: u64) < 9223372036854775808 \<Longrightarrow> sint w = int (unat w)"
proof -
  assume "unat w < 9223372036854775808"
  then have "uint w < 9223372036854775808" using uint_nat [of w] by linarith
  then have "signed_take_bit 63 (uint w) = uint w"
    by (intro signed_take_bit_int_eq_self) (simp_all add: order_trans [OF _ uint_ge_0])
  then show ?thesis by (simp add: sint_uint)
qed

lemma size_of_int_small: "size_of_int (int n) = of_nat n"
  by (simp add: size_of_int_def)

lemma int_sdiv_int: "int n sdiv int k = int (n div k)"
  by (simp add: signed_divide_int_def sgn_if zdiv_int)

subsection \<open>Byte memory\<close>

definition rd64 :: "mem \<Rightarrow> ptr \<Rightarrow> u64" where
  "rd64 m a =
     ucast (m a) OR push_bit 8 (ucast (m (a + 1))) OR push_bit 16 (ucast (m (a + 2)))
     OR push_bit 24 (ucast (m (a + 3))) OR push_bit 32 (ucast (m (a + 4)))
     OR push_bit 40 (ucast (m (a + 5))) OR push_bit 48 (ucast (m (a + 6)))
     OR push_bit 56 (ucast (m (a + 7)))"

definition wr64 :: "mem \<Rightarrow> ptr \<Rightarrow> u64 \<Rightarrow> mem" where
  "wr64 m a v = m
     (a := ucast v, a + 1 := ucast (drop_bit 8 v), a + 2 := ucast (drop_bit 16 v),
      a + 3 := ucast (drop_bit 24 v), a + 4 := ucast (drop_bit 32 v),
      a + 5 := ucast (drop_bit 40 v), a + 6 := ucast (drop_bit 48 v),
      a + 7 := ucast (drop_bit 56 v))"

text \<open>\<open>memset (a, c, n)\<close>\<close>

fun memset :: "mem \<Rightarrow> ptr \<Rightarrow> u8 \<Rightarrow> nat \<Rightarrow> mem" where
  "memset m a c 0 = m"
| "memset m a c (Suc n) = memset (m(a := c)) (a + 1) c n"

lemma bit_byte_at:
  "bit (push_bit k (ucast (ucast (drop_bit k v) :: u8)) :: u64) n
     \<longleftrightarrow> k \<le> n \<and> n < k + 8 \<and> n < 64 \<and> bit (v :: u64) n"
  by (auto simp: bit_simps)

lemma bytes_of_word:
  "ucast (ucast v :: u8) OR push_bit 8 (ucast (ucast (drop_bit 8 v) :: u8))
     OR push_bit 16 (ucast (ucast (drop_bit 16 v) :: u8))
     OR push_bit 24 (ucast (ucast (drop_bit 24 v) :: u8))
     OR push_bit 32 (ucast (ucast (drop_bit 32 v) :: u8))
     OR push_bit 40 (ucast (ucast (drop_bit 40 v) :: u8))
     OR push_bit 48 (ucast (ucast (drop_bit 48 v) :: u8))
     OR push_bit 56 (ucast (ucast (drop_bit 56 v) :: u8)) = (v :: u64)"
proof (rule bit_word_eqI)
  fix n assume "n < LENGTH(64)"
  then have n: "n < 64" by simp
  have first: "bit (ucast (ucast v :: u8) :: u64) n \<longleftrightarrow> n < 8 \<and> bit v n"
    by (auto simp: bit_simps)
  have split: "bit v n \<longleftrightarrow>
      n < 8 \<and> bit v n \<or> 8 \<le> n \<and> n < 16 \<and> bit v n \<or> 16 \<le> n \<and> n < 24 \<and> bit v n
      \<or> 24 \<le> n \<and> n < 32 \<and> bit v n \<or> 32 \<le> n \<and> n < 40 \<and> bit v n
      \<or> 40 \<le> n \<and> n < 48 \<and> bit v n \<or> 48 \<le> n \<and> n < 56 \<and> bit v n
      \<or> 56 \<le> n \<and> n < 64 \<and> bit v n"
    using n by linarith
  show "bit (ucast (ucast v :: u8) OR push_bit 8 (ucast (ucast (drop_bit 8 v) :: u8))
     OR push_bit 16 (ucast (ucast (drop_bit 16 v) :: u8))
     OR push_bit 24 (ucast (ucast (drop_bit 24 v) :: u8))
     OR push_bit 32 (ucast (ucast (drop_bit 32 v) :: u8))
     OR push_bit 40 (ucast (ucast (drop_bit 40 v) :: u8))
     OR push_bit 48 (ucast (ucast (drop_bit 48 v) :: u8))
     OR push_bit 56 (ucast (ucast (drop_bit 56 v) :: u8)) :: u64) n \<longleftrightarrow> bit v n"
    unfolding bit_or_iff first bit_byte_at by (subst (9) split) (use n in simp)
qed

lemma rd64_wr64_same [simp]: "rd64 (wr64 m a v) a = v"
proof -
  have "rd64 (wr64 m a v) a =
     ucast (ucast v :: u8) OR push_bit 8 (ucast (ucast (drop_bit 8 v) :: u8))
     OR push_bit 16 (ucast (ucast (drop_bit 16 v) :: u8))
     OR push_bit 24 (ucast (ucast (drop_bit 24 v) :: u8))
     OR push_bit 32 (ucast (ucast (drop_bit 32 v) :: u8))
     OR push_bit 40 (ucast (ucast (drop_bit 40 v) :: u8))
     OR push_bit 48 (ucast (ucast (drop_bit 48 v) :: u8))
     OR push_bit 56 (ucast (ucast (drop_bit 56 v) :: u8))"
    by (simp add: rd64_def wr64_def)
  then show ?thesis by (simp only: bytes_of_word)
qed

lemma rd64_cong:
  assumes "\<And>i. i < 8 \<Longrightarrow> m (a + of_nat i) = m' (a + of_nat i)"
  shows "rd64 m a = rd64 m' a"
  unfolding rd64_def
  using assms [of 0] assms [of 1] assms [of 2] assms [of 3] assms [of 4] assms [of 5]
    assms [of 6] assms [of 7] by simp

lemma wr64_other:
  assumes "\<And>i. i < 8 \<Longrightarrow> x \<noteq> a + of_nat i"
  shows "wr64 m a v x = m x"
  unfolding wr64_def
  using assms [of 0] assms [of 1] assms [of 2] assms [of 3] assms [of 4] assms [of 5]
    assms [of 6] assms [of 7] by simp

text \<open>A region \<open>[a, a + n)\<close> that does not wrap around the address space.\<close>

definition in_region :: "u64 \<Rightarrow> nat \<Rightarrow> u64 \<Rightarrow> bool" where
  "in_region a n x \<longleftrightarrow> unat a \<le> unat x \<and> unat x < unat a + n"

definition same_on :: "u64 \<Rightarrow> nat \<Rightarrow> mem \<Rightarrow> mem \<Rightarrow> bool" where
  "same_on a n m m' \<longleftrightarrow> (\<forall>x. in_region a n x \<longrightarrow> m x = m' x)"

lemma wr64_out [frame]:
  assumes "unat a + 8 \<le> 18446744073709551616" and "\<not> in_region a 8 x"
  shows "wr64 m a v x = m x"
proof (rule wr64_other)
  fix i :: nat assume "i < 8"
  with assms(1) have "unat (a + of_nat i) = unat a + i"
    by (intro unat_add_of_nat) simp
  with assms(2) \<open>i < 8\<close> show "x \<noteq> a + of_nat i"
    by (auto simp: in_region_def)
qed

lemma rd64_same_on:
  assumes "unat a + 8 \<le> 18446744073709551616" and "same_on a 8 m m'"
  shows "rd64 m a = rd64 m' a"
proof (rule rd64_cong)
  fix i :: nat assume "i < 8"
  with assms(1) have "unat (a + of_nat i) = unat a + i"
    by (intro unat_add_of_nat) simp
  with assms(2) \<open>i < 8\<close> show "m (a + of_nat i) = m' (a + of_nat i)"
    by (auto simp: same_on_def in_region_def)
qed

lemma rd64_wr64_apart [frame]:
  assumes "unat a + 8 \<le> 18446744073709551616" and "unat b + 8 \<le> 18446744073709551616"
    and "unat a + 8 \<le> unat b \<or> unat b + 8 \<le> unat a"
  shows "rd64 (wr64 m a v) b = rd64 m b"
proof (rule rd64_same_on [OF assms(2)], unfold same_on_def, intro allI impI)
  fix x assume "in_region b 8 x"
  with assms(3) have "\<not> in_region a 8 x" by (auto simp: in_region_def)
  then show "wr64 m a v x = m x" by (rule wr64_out [OF assms(1)])
qed

lemma rd64_upd_apart [frame]:
  assumes "unat b + 8 \<le> 18446744073709551616" and "\<not> in_region b 8 a"
  shows "rd64 (m(a := c)) b = rd64 m b"
  by (rule rd64_same_on [OF assms(1)]) (use assms(2) in \<open>auto simp: same_on_def\<close>)

lemma memset_out:
  assumes "unat a + n \<le> 18446744073709551616" and "\<not> in_region a n x"
  shows "memset m a c n x = m x"
  using assms
proof (induction n arbitrary: m a)
  case 0
  then show ?case by simp
next
  case (Suc n)
  show ?case
  proof (cases n)
    case 0
    then show ?thesis using Suc.prems by (auto simp: in_region_def)
  next
    case (Suc k)
    have a1: "unat (a + 1) = unat a + 1"
      using Suc.prems(1) Suc by (intro unat_add_one) simp
    have "memset (m(a := c)) (a + 1) c n x = (m(a := c)) x"
      using Suc.prems a1 by (intro Suc.IH) (auto simp: in_region_def)
    moreover have "x \<noteq> a" using Suc.prems(2) by (auto simp: in_region_def)
    ultimately show ?thesis by simp
  qed
qed

lemma memset_in:
  assumes "unat a + n \<le> 18446744073709551616" and "in_region a n x"
  shows "memset m a c n x = c"
  using assms
proof (induction n arbitrary: m a)
  case 0
  then show ?case by (auto simp: in_region_def)
next
  case (Suc n)
  show ?case
  proof (cases "n = 0 \<or> x = a")
    case True
    then show ?thesis
    proof
      assume n0: "n = 0"
      then have "x = a" using Suc.prems by (simp add: in_region_def u64_eq_iff)
      then show ?thesis using n0 by simp
    next
      assume xa: "x = a"
      show ?thesis
      proof (cases "n = 0")
        case False
        have "unat (a + 1) = unat a + 1"
          using Suc.prems(1) False by (intro unat_add_one) simp
        then have "memset (m(a := c)) (a + 1) c n x = (m(a := c)) x"
          using Suc.prems(1) xa by (intro memset_out) (auto simp: in_region_def)
        then show ?thesis using xa by simp
      qed (use xa in simp)
    qed
  next
    case False
    then have a1: "unat (a + 1) = unat a + 1"
      using Suc.prems(1) by (intro unat_add_one) simp
    have "unat x \<noteq> unat a" using False by (simp add: u64_eq_iff)
    then have "memset (m(a := c)) (a + 1) c n x = c"
      using Suc.prems a1 by (intro Suc.IH) (auto simp: in_region_def)
    then show ?thesis by simp
  qed
qed

end
