(* ===== verification/Util.thy ===== *)
theory Util
  imports Prelude
begin

section \<open>Alignment, powers of two and decimal strings (util.c)\<close>

text \<open>
  The functions of \<open>penguin_malloc/src/util.c\<close> on 64-bit words. A result of type \<open>option\<close>
  is \<open>None\<close> where the C is undefined: a shift of \<open>1ull\<close> by 64 or more, which the two
  logarithm loops reach for the largest sizes. The lemmas give each function its specification on
  natural numbers.
\<close>

definition PAGE_SIZE :: u64 where "PAGE_SIZE = 4096"

subsection \<open>Alignment\<close>

definition align_addr_to_page_size_up :: "ptr \<Rightarrow> ptr" where
  "align_addr_to_page_size_up p = p + (PAGE_SIZE - p mod PAGE_SIZE)"

definition align_addr_to_page_size_down :: "ptr \<Rightarrow> ptr" where
  "align_addr_to_page_size_down p = p - p mod PAGE_SIZE"

definition align_size_to_page_size_up :: "u64 \<Rightarrow> u64" where
  "align_size_to_page_size_up s = s + (PAGE_SIZE - s mod PAGE_SIZE)"

definition align_size_to_page_size_down :: "u64 \<Rightarrow> u64" where
  "align_size_to_page_size_down s = s - s mod PAGE_SIZE"

lemma unat_align_down [word_nat]:
  "unat (align_addr_to_page_size_down p) = unat p - unat p mod 4096"
  by (simp add: align_addr_to_page_size_down_def PAGE_SIZE_def unat_sub64 unat_mod)

lemma align_up_words: "align_addr_to_page_size_up p = align_addr_to_page_size_down p + 4096"
  by (simp add: align_addr_to_page_size_up_def align_addr_to_page_size_down_def PAGE_SIZE_def)

lemma unat_align_up [word_nat]:
  assumes "unat p < 18446744073709547520"
  shows "unat (align_addr_to_page_size_up p) = unat p - unat p mod 4096 + 4096"
proof -
  have "unat p - unat p mod 4096 = unat p div 4096 * 4096"
    by (simp add: minus_mod_eq_div_mult)
  moreover have "unat p div 4096 < 4503599627370495" using assms by simp
  ultimately show ?thesis
    unfolding align_up_words
    by (subst unat_add_numeral) (simp_all add: unat_align_down)
qed

subsection \<open>Powers of two and logarithms\<close>

text \<open>\<open>while ((1ull << p) < size) p += 1\<close>\<close>

function upper_loop :: "u64 \<Rightarrow> u64 \<Rightarrow> u64 option" where
  "upper_loop sz p =
     (if 64 \<le> p then None
      else if shl1 p < sz then upper_loop sz (p + 1)
      else Some p)"
  by pat_completeness auto
termination
  by (relation "measure (\<lambda>(sz, p). 64 - unat p)") (auto simp: unat_add_one u64_order)

text \<open>\<open>while ((1ull << (p + 1)) <= size) p += 1\<close>\<close>

function lower_loop :: "u64 \<Rightarrow> u64 \<Rightarrow> u64 option" where
  "lower_loop sz p =
     (if 64 \<le> p + 1 \<or> p + 1 = 0 then None
      else if shl1 (p + 1) \<le> sz then lower_loop sz (p + 1)
      else Some p)"
  by pat_completeness auto
termination
proof (relation "measure (\<lambda>(sz, p). 64 - unat p)")
  fix sz p :: u64
  assume "\<not> (64 \<le> p + 1 \<or> p + 1 = 0)"
  then have "unat (p + 1) < 64" "unat (p + 1) \<noteq> 0"
    by (simp_all add: u64_order unat_eq_0)
  moreover have "unat p + 1 < 18446744073709551616 \<or> unat (p + 1) = 0"
    using unat_add_one [of p] unat_lt64 [of p] unatSuc [of p] by (metis Suc_eq_plus1 add.commute unat_0 unat_lt64)
  ultimately show "((sz, p + 1), (sz, p)) \<in> measure (\<lambda>(sz, p). 64 - unat p)"
    by (auto simp: unat_add_one)
qed simp

declare upper_loop.simps [simp del] lower_loop.simps [simp del]

definition min_upper_power_of_2 :: "u64 \<Rightarrow> u64 option" where
  "min_upper_power_of_2 sz = map_option shl1 (upper_loop sz 0)"

definition max_lower_power_of_2 :: "u64 \<Rightarrow> u64 option" where
  "max_lower_power_of_2 sz = map_option shl1 (lower_loop sz 0)"

definition log2_upper :: "u64 \<Rightarrow> u64 option" where
  "log2_upper sz = upper_loop sz 0"

definition log2_lower :: "u64 \<Rightarrow> u64 option" where
  "log2_lower sz = lower_loop sz 0"

text \<open>The loops from any start below the answer reach it.\<close>

lemma upper_loop_finds:
  assumes "p \<le> k" "k < 64" "unat sz \<le> 2 ^ k" "\<And>j. j < k \<Longrightarrow> 2 ^ j < unat sz"
  shows "upper_loop sz (of_nat p) = Some (of_nat k)"
  using assms(1)
proof (induction rule: inc_induct)
  case base
  have "unat (of_nat k :: u64) = k" using assms(2) by (intro unat_of_nat64) simp
  with assms(2,3) show ?case
    by (simp add: upper_loop.simps u64_order unat_shl1)
next
  case (step n)
  then have n: "unat (of_nat n :: u64) = n" "n < 64" using assms(2) by (simp_all add: unat_of_nat64)
  have "upper_loop sz (of_nat n) = upper_loop sz (of_nat n + 1)"
    using n assms(4) [OF step.hyps(2)] by (subst upper_loop.simps) (simp add: u64_order unat_shl1)
  also have "(of_nat n + 1 :: u64) = of_nat (Suc n)" by simp
  finally show ?case using step.IH by simp
qed

lemma lower_loop_finds:
  assumes "p \<le> k" "k < 63" "unat sz < 2 ^ Suc k" "\<And>j. j \<le> k \<Longrightarrow> j \<noteq> 0 \<Longrightarrow> 2 ^ j \<le> unat sz"
  shows "lower_loop sz (of_nat p) = Some (of_nat k)"
  using assms(1)
proof (induction rule: inc_induct)
  case base
  have "unat (of_nat k + 1 :: u64) = Suc k" using assms(2) unat_of_nat64 [of "Suc k"] by (simp add: add.commute)
  with assms(2,3) show ?case
    by (simp add: lower_loop.simps u64_order unat_shl1 unat_eq_0 [symmetric] del: unat_eq_0)
next
  case (step n)
  then have n: "unat (of_nat n + 1 :: u64) = Suc n" using assms(2) step.hyps(2) unat_of_nat64 [of "Suc n"] by (simp add: add.commute)
  have "lower_loop sz (of_nat n) = lower_loop sz (of_nat n + 1)"
    using n assms(2) assms(4) [of "Suc n"] step.hyps(2)
    by (subst lower_loop.simps) (simp add: u64_order unat_shl1 unat_eq_0 [symmetric] del: unat_eq_0)
  also have "(of_nat n + 1 :: u64) = of_nat (Suc n)" by simp
  finally show ?case using step.IH by simp
qed

lemma upper_loop_none:
  assumes "9223372036854775808 < unat sz" "unat p \<le> 64"
  shows "upper_loop sz p = None"
  using assms
proof (induction sz p rule: upper_loop.induct)
  case (1 sz p)
  show ?case
  proof (cases "64 \<le> p")
    case False
    then have p: "unat p < 64" by (simp add: u64_order)
    then have "(2::nat) ^ unat p \<le> 2 ^ 63" by (intro power_increasing) auto
    then have "shl1 p < sz"
      using p "1.prems"(1) by (simp add: u64_order unat_shl1)
    moreover have "unat (p + 1) = unat p + 1" using p by (intro unat_add_one) simp
    ultimately show ?thesis using False p 1 by (subst upper_loop.simps) simp
  qed (simp add: upper_loop.simps)
qed

lemma lower_loop_none:
  assumes "9223372036854775808 \<le> unat sz" "unat p \<le> 63"
  shows "lower_loop sz p = None"
  using assms
proof (induction sz p rule: lower_loop.induct)
  case (1 sz p)
  have p1: "unat (p + 1) = unat p + 1" using "1.prems" by (intro unat_add_one) simp
  show ?case
  proof (cases "unat p = 63")
    case True
    then show ?thesis using p1 by (subst lower_loop.simps) (simp add: u64_order)
  next
    case False
    then have p: "unat p < 63" using "1.prems" by simp
    then have "(2::nat) ^ (unat p + 1) \<le> 2 ^ 63" by (intro power_increasing) auto
    then have "shl1 (p + 1) \<le> sz"
      using p p1 "1.prems"(1) by (simp add: u64_order unat_shl1)
    moreover have "\<not> (64 \<le> p + 1 \<or> p + 1 = 0)"
      using p p1 by (auto simp: u64_order unat_eq_0 [symmetric] simp del: unat_eq_0)
    ultimately show ?thesis using p p1 1 by (subst lower_loop.simps) simp
  qed
qed

text \<open>The two logarithms by their bracketing powers of two.\<close>

lemma upper_loop_eq:
  assumes "unat sz \<le> 2 ^ k" "k < 64" "k = 0 \<or> 2 ^ (k - 1) < unat sz"
  shows "upper_loop sz 0 = Some (of_nat k)"
proof -
  have "2 ^ j < unat sz" if "j < k" for j
  proof -
    have "(2::nat) ^ j \<le> 2 ^ (k - 1)" using that by (intro power_increasing) auto
    then show ?thesis using assms(3) that by linarith
  qed
  then show ?thesis using upper_loop_finds [of 0 k sz] assms by simp
qed

lemma lower_loop_eq:
  assumes "unat sz < 2 ^ Suc k" "k < 63" "k = 0 \<or> 2 ^ k \<le> unat sz"
  shows "lower_loop sz 0 = Some (of_nat k)"
proof -
  have "2 ^ j \<le> unat sz" if "j \<le> k" "j \<noteq> 0" for j
  proof -
    have "(2::nat) ^ j \<le> 2 ^ k" using that by (intro power_increasing) auto
    then show ?thesis using assms(3) that by linarith
  qed
  then show ?thesis using lower_loop_finds [of 0 k sz] assms by simp
qed

lemma log2_upper_eq:
  "unat sz \<le> 2 ^ k \<Longrightarrow> k < 64 \<Longrightarrow> k = 0 \<or> 2 ^ (k - 1) < unat sz \<Longrightarrow> log2_upper sz = Some (of_nat k)"
  by (simp add: log2_upper_def upper_loop_eq)

lemma max_lower_power_of_2_eq:
  assumes "unat sz < 2 ^ Suc k" "k < 63" "k = 0 \<or> 2 ^ k \<le> unat sz"
  shows "max_lower_power_of_2 sz = Some (2 ^ k)"
proof -
  have "unat (of_nat k :: u64) = k" using assms(2) by (intro unat_of_nat64) simp
  then show ?thesis using lower_loop_eq [OF assms]
    by (simp add: max_lower_power_of_2_def shl1_def)
qed

lemma power_bracket:
  assumes "(n :: nat) \<noteq> 0" obtains k where "2 ^ k \<le> n" "n < 2 ^ Suc k"
  using ex_power_ivl1 [of 2 n] assms by auto

text \<open>
  \<open>log2_upper\<close> returns the least exponent whose power of two reaches the size, for every size
  up to \<open>2 ^ 63\<close>; above it the loop runs into a shift by 64, which is undefined.
\<close>

theorem log2_upper_least:
  "log2_upper sz = (if 2 ^ 63 < unat sz then None else Some (of_nat (LEAST p. unat sz \<le> 2 ^ p)))"
proof (cases "2 ^ 63 < unat sz")
  case True
  then show ?thesis by (simp add: log2_upper_def upper_loop_none)
next
  case False
  let ?k = "LEAST p. unat sz \<le> 2 ^ p"
  from False have ex: "unat sz \<le> 2 ^ 63" by simp
  have 1: "unat sz \<le> 2 ^ ?k" using ex by (rule LeastI)
  have 2: "?k \<le> 63" using ex by (rule Least_le)
  have 3: "?k = 0 \<or> 2 ^ (?k - 1) < unat sz"
    using not_less_Least [of "?k - 1" "\<lambda>p. unat sz \<le> 2 ^ p"] by (cases "?k = 0") auto
  from log2_upper_eq [OF 1 _ 3] 2 False show ?thesis by simp
qed

text \<open>
  \<open>max_lower_power_of_2\<close> returns the greatest power of two not above the size (1 for the size
  0), for every size below \<open>2 ^ 63\<close>; from there on the loop runs into a shift by 64.
\<close>

theorem max_lower_power_of_2_greatest:
  "max_lower_power_of_2 sz =
     (if 2 ^ 63 \<le> unat sz then None
      else if sz = 0 then Some 1
      else Some (2 ^ (GREATEST p. 2 ^ p \<le> unat sz)))"
proof (cases "2 ^ 63 \<le> unat sz")
  case True
  then show ?thesis by (simp add: max_lower_power_of_2_def lower_loop_none)
next
  case small: False
  show ?thesis
  proof (cases "sz = 0")
    case True
    then show ?thesis using max_lower_power_of_2_eq [of sz 0] by simp
  next
    case False
    then have "unat sz \<noteq> 0" by (simp add: unat_eq_0)
    then obtain k where k: "2 ^ k \<le> unat sz" "unat sz < 2 ^ Suc k" by (rule power_bracket)
    have "(GREATEST p. 2 ^ p \<le> unat sz) = k"
    proof (rule Greatest_equality)
      show "2 ^ k \<le> unat sz" by (fact k(1))
    next
      fix p assume "2 ^ p \<le> unat sz"
      then have "(2::nat) ^ p < 2 ^ Suc k" using k(2) by linarith
      then have "p < Suc k" by (rule power_less_imp_less_exp [rotated]) simp
      then show "p \<le> k" by simp
    qed
    moreover have "k < 63"
    proof -
      have "(2::nat) ^ k < 2 ^ 63" using k(1) small by linarith
      then show ?thesis by (rule power_less_imp_less_exp [rotated]) simp
    qed
    ultimately show ?thesis using max_lower_power_of_2_eq [of sz k] k small False by simp
  qed
qed

subsection \<open>Page counts and distances\<close>

text \<open>
  The difference of two \<open>void *\<close> is a signed \<open>ptrdiff_t\<close>; the division by \<open>PAGE_SIZE\<close>
  truncates it and the return type makes it unsigned again.
\<close>

definition pages_count :: "ptr \<Rightarrow> ptr \<Rightarrow> u64" where
  "pages_count b e =
     (let b' = align_addr_to_page_size_up b; e' = align_addr_to_page_size_down e
      in word_of_int (sint (e' - b') sdiv 4096))"

definition dist :: "ptr \<Rightarrow> ptr \<Rightarrow> u64" where
  "dist p1 p2 = (if p2 < p1 then p1 - p2 else p2 - p1)"

lemma unat_dist: "unat (dist p q) = (if unat q < unat p then unat p - unat q else unat q - unat p)"
  by (auto simp: dist_def u64_order unat_sub64)

lemma pages_count_eq:
  assumes "unat b < 18446744073709547520"
    and "unat b - unat b mod 4096 + 4096 \<le> unat e - unat e mod 4096"
    and "unat e - unat b < 9223372036854775808"
  shows "unat (pages_count b e) =
    (unat e - unat e mod 4096 - (unat b - unat b mod 4096 + 4096)) div 4096"
proof -
  let ?b = "align_addr_to_page_size_up b" and ?e = "align_addr_to_page_size_down e"
  let ?d = "unat e - unat e mod 4096 - (unat b - unat b mod 4096 + 4096)"
  have "unat (?e - ?b) = ?d"
    using assms by (subst unat_sub64) (simp_all add: unat_align_up unat_align_down)
  moreover have small: "?d < 9223372036854775808" using assms(2,3) by linarith
  ultimately have "sint (?e - ?b) = int ?d" by (simp add: sint_small64)
  then have "pages_count b e = word_of_int (int ?d sdiv 4096)"
    by (simp only: pages_count_def Let_def)
  also have "int ?d sdiv 4096 = int (?d div 4096)"
    using int_sdiv_int [of ?d 4096] by simp
  finally have "pages_count b e = of_nat (?d div 4096)" by simp
  moreover have "?d div 4096 < 18446744073709551616"
    using small div_le_dividend [of ?d 4096] by linarith
  ultimately show ?thesis by (simp only: unat_of_nat64)
qed

subsection \<open>Strings\<close>

text \<open>
  \<open>while (str[len]) len++\<close>: on a memory without a zero byte the loop does not return, which
  is the value \<open>None\<close>.
\<close>

partial_function (option) strlen_loop :: "mem \<Rightarrow> ptr \<Rightarrow> u64 \<Rightarrow> u64 option" where
  "strlen_loop m str len = (if m (str + len) \<noteq> 0 then strlen_loop m str (len + 1) else Some len)"

definition strlen :: "mem \<Rightarrow> ptr \<Rightarrow> u64 option" where
  "strlen m str = strlen_loop m str 0"

lemma strlen_loop_finds:
  assumes "\<And>i. i < n \<Longrightarrow> m (str + of_nat i) \<noteq> 0" "m (str + of_nat n) = 0" "j \<le> n"
  shows "strlen_loop m str (of_nat j) = Some (of_nat n)"
  using assms(3)
proof (induction rule: inc_induct)
  case base
  show ?case using assms(2) by (subst strlen_loop.simps) simp
next
  case (step k)
  have "strlen_loop m str (of_nat k) = strlen_loop m str (of_nat k + 1)"
    using assms(1) [OF step.hyps(2)] by (subst strlen_loop.simps) simp
  then show ?case using step.IH by (simp add: add.commute)
qed

lemma strlen_eq:
  "(\<And>i. i < n \<Longrightarrow> m (str + of_nat i) \<noteq> 0) \<Longrightarrow> m (str + of_nat n) = 0 \<Longrightarrow>
     strlen m str = Some (of_nat n)"
  using strlen_loop_finds [of n m str 0] by (simp add: strlen_def)

text \<open>\<open>while (num / denum >= 10) denum *= 10\<close>\<close>

function denum_loop :: "u32 \<Rightarrow> u32 \<Rightarrow> u32" where
  "denum_loop num d = (if 10 \<le> num div d then denum_loop num (d * 10) else d)"
  by pat_completeness auto

lemma denum_step:
  assumes "10 \<le> num div (d :: u32)"
  shows "unat (d * 10) = unat d * 10" "0 < unat d" "unat d * 10 \<le> unat num"
proof -
  from assms have q: "10 \<le> unat num div unat d" by (simp add: word_le_nat_alt unat_div)
  then show d: "0 < unat d" by (cases "unat d = 0") auto
  with q show le: "unat d * 10 \<le> unat num"
    by (metis div_greater_zero_iff less_eq_div_iff_mult_less_eq mult.commute)
  have "unat num < 4294967296" using unsigned_less [of num] by simp
  with le show "unat (d * 10) = unat d * 10" using unat_mult_lem [of d 10] by simp
qed

termination denum_loop
proof (relation "measure (\<lambda>(num, d). unat num - unat d)")
  fix num d :: u32
  assume "10 \<le> num div d"
  from denum_step [OF this]
  show "((num, d * 10), (num, d)) \<in> measure (\<lambda>(num, d). unat num - unat d)" by simp
qed simp

text \<open>\<open>while (denum != 0) { str[i] = num / denum % 10 + '0'; denum /= 10; i += 1; }\<close>\<close>

function digit_loop :: "mem \<Rightarrow> ptr \<Rightarrow> u32 \<Rightarrow> u32 \<Rightarrow> u64 \<Rightarrow> mem \<times> u64" where
  "digit_loop m str num d i =
     (if d \<noteq> 0 then digit_loop (m(str + i := ucast (num div d mod 10 + 48))) str num (d div 10) (i + 1)
      else (m, i))"
  by pat_completeness auto
termination
proof (relation "measure (\<lambda>(m, str, num, d, i). unat d)")
  fix m :: mem and str i :: u64 and num d :: u32
  assume "d \<noteq> 0"
  then have "0 < unat d" by (simp add: unat_gt_0)
  then show "((m(str + i := ucast (num div d mod 10 + 48)), str, num, d div 10, i + 1), (m, str, num, d, i))
    \<in> measure (\<lambda>(m, str, num, d, i). unat d)" by (simp add: unat_div)
qed simp

declare denum_loop.simps [simp del] digit_loop.simps [simp del]

definition itos :: "mem \<Rightarrow> u32 \<Rightarrow> ptr \<Rightarrow> mem" where
  "itos m num str =
     (if num = 0 then m(str := 48, str + 1 := 0)
      else let (m', i) = digit_loop m str num (denum_loop num 1) 0 in m'(str + i := 0))"

lemma denum_loop_power:
  assumes "unat d = 10 ^ j" "j = 0 \<or> 10 ^ j \<le> unat num"
  shows "\<exists>k. unat (denum_loop num d) = 10 ^ k \<and> unat num div 10 ^ k < 10
    \<and> (k = 0 \<or> 10 ^ k \<le> unat num)"
  using assms
proof (induction num d arbitrary: j rule: denum_loop.induct)
  case (1 num d)
  show ?case
  proof (cases "10 \<le> num div d")
    case True
    from denum_step [OF True] "1.prems"(1)
    have "unat (d * 10) = 10 ^ Suc j" "10 ^ Suc j \<le> unat num" by (simp_all add: mult.commute)
    with "1.IH" [OF True, of "Suc j"] have "\<exists>k. unat (denum_loop num (d * 10)) = 10 ^ k
      \<and> unat num div 10 ^ k < 10 \<and> (k = 0 \<or> 10 ^ k \<le> unat num)" by blast
    moreover have "denum_loop num d = denum_loop num (d * 10)"
      using True by (subst denum_loop.simps) simp
    ultimately show ?thesis by simp
  next
    case False
    then have "unat num div unat d < 10" by (simp add: word_le_nat_alt unat_div)
    with False "1.prems" show ?thesis by (auto simp: denum_loop.simps [of num d])
  qed
qed

definition dec_digit :: "u32 \<Rightarrow> nat \<Rightarrow> nat \<Rightarrow> nat" where
  "dec_digit num k j = unat num div 10 ^ (k - j) mod 10"

lemma digit_char:
  assumes "unat (d :: u32) = 10 ^ k"
  shows "(ucast (num div d mod 10 + 48) :: u8) = of_nat (unat num div 10 ^ k mod 10 + 48)"
proof -
  have "unat (num div d mod 10) = unat num div 10 ^ k mod 10"
    using assms by (simp add: unat_mod unat_div)
  moreover have "num div d mod 10 + 48 = of_nat (unat (num div d mod 10) + 48)" by simp
  ultimately have eq: "num div d mod 10 + 48 = of_nat (unat num div 10 ^ k mod 10 + 48)" by (simp only:)
  have "(ucast (of_nat n :: u32) :: u8) = of_nat n" if "n < 256" for n
    using that by (simp add: word_unat_eq_iff unsigned_ucast_eq unsigned_of_nat take_bit_nat_eq_self)
  moreover have "unat num div 10 ^ k mod 10 + 48 < 256"
    using mod_less_divisor [of 10 "unat num div 10 ^ k"] by linarith
  ultimately show ?thesis by (simp only: eq)
qed

lemma digit_loop_writes:
  assumes "unat d = 10 ^ k" "k < 10"
  shows "\<exists>m'. digit_loop m str num d i = (m', i + of_nat (Suc k))
    \<and> (\<forall>j\<le>k. m' (str + (i + of_nat j)) = of_nat (dec_digit num k j + 48))
    \<and> (\<forall>x. (\<forall>j\<le>k. x \<noteq> str + (i + of_nat j)) \<longrightarrow> m' x = m x)"
  using assms
proof (induction k arbitrary: d m i)
  case 0
  then have d: "d = 1" by (simp add: word_unat_eq_iff)
  let ?m = "m(str + i := ucast (num div d mod 10 + 48))"
  have "digit_loop m str num d i = digit_loop ?m str num 0 (i + 1)"
    by (subst digit_loop.simps) (simp add: d)
  also have "\<dots> = (?m, i + 1)" by (subst digit_loop.simps) simp
  finally have "digit_loop m str num d i = (?m, i + of_nat (Suc 0))" by simp
  moreover have "?m (str + (i + of_nat j)) = of_nat (dec_digit num 0 j + 48)" if "j \<le> 0" for j
    using digit_char [OF "0.prems"(1), of num] that by (simp add: dec_digit_def)
  moreover have "?m x = m x" if "\<forall>j\<le>0. x \<noteq> str + (i + of_nat j)" for x
    using that by simp
  ultimately show ?case by blast
next
  case (Suc k)
  let ?m = "m(str + i := ucast (num div d mod 10 + 48))"
  have d: "d \<noteq> 0" "unat (d div 10) = 10 ^ k"
    using Suc.prems by (auto simp: unat_div simp flip: unat_eq_0)
  obtain m' where "digit_loop ?m str num (d div 10) (i + 1) = (m', i + 1 + of_nat (Suc k))
    \<and> (\<forall>j\<le>k. m' (str + (i + 1 + of_nat j)) = of_nat (dec_digit num k j + 48))
    \<and> (\<forall>x. (\<forall>j\<le>k. x \<noteq> str + (i + 1 + of_nat j)) \<longrightarrow> m' x = ?m x)"
    using Suc.IH [OF d(2), of ?m "i + 1"] Suc.prems(2) by (meson Suc_lessD)
  then have m': "digit_loop ?m str num (d div 10) (i + 1) = (m', i + 1 + of_nat (Suc k))"
    "\<And>j. j \<le> k \<Longrightarrow> m' (str + (i + 1 + of_nat j)) = of_nat (dec_digit num k j + 48)"
    "\<And>x. (\<And>j. j \<le> k \<Longrightarrow> x \<noteq> str + (i + 1 + of_nat j)) \<Longrightarrow> m' x = ?m x" by blast+
  have eq: "digit_loop m str num d i = (m', i + of_nat (Suc (Suc k)))"
    using d(1) m'(1) by (subst digit_loop.simps) (simp add: add.assoc)
  have shift: "(i + 1 + of_nat j :: u64) = i + of_nat (Suc j)" for j by (simp add: add.assoc)
  have "m' (str + (i + of_nat j)) = of_nat (dec_digit num (Suc k) j + 48)" if "j \<le> Suc k" for j
  proof (cases j)
    case 0
    have "str + i \<noteq> str + (i + of_nat (Suc l))" if "l \<le> k" for l
    proof -
      have "unat (of_nat (Suc l) :: u64) = Suc l" using that Suc.prems(2) by (intro unat_of_nat64) simp
      then have "(of_nat (Suc l) :: u64) \<noteq> 0" by (metis nat.distinct(1) unat_0)
      then show ?thesis by (simp only: add_left_cancel add_cancel_left_right) simp
    qed
    then have "m' (str + i) = ?m (str + i)" by (intro m'(3), unfold shift)
    then show ?thesis using 0 digit_char [OF Suc.prems(1), of num] by (simp add: dec_digit_def)
  next
    case (Suc l)
    with m'(2) [of l] that show ?thesis by (simp only: shift) (simp add: dec_digit_def)
  qed
  moreover have "m' x = m x" if "\<forall>j\<le>Suc k. x \<noteq> str + (i + of_nat j)" for x
  proof -
    have "m' x = ?m x" using that by (intro m'(3)) (auto simp only: shift Suc_le_mono)
    moreover have "x \<noteq> str + i" using that [rule_format, of 0] by simp
    ultimately show ?thesis by simp
  qed
  ultimately show ?case using eq by blast
qed

text \<open>The value of the first \<open>n\<close> decimal digits of a string.\<close>

definition decimal_value :: "mem \<Rightarrow> ptr \<Rightarrow> nat \<Rightarrow> nat" where
  "decimal_value m str n = foldl (\<lambda>v j. 10 * v + (unat (m (str + of_nat j)) - 48)) 0 [0..<n]"

lemma dec_digit_lt: "dec_digit num k j < 10"
  by (simp add: dec_digit_def)

lemma unat_digit_char: "unat (of_nat (dec_digit num k j + 48) :: u8) = dec_digit num k j + 48"
  using dec_digit_lt [of num k j] by (simp add: unat_of_nat del: of_nat_add)

lemma foldl_dec_digit:
  assumes "unat num div 10 ^ k < 10" "n \<le> Suc k"
  shows "foldl (\<lambda>v j. 10 * v + dec_digit num k j) 0 [0..<n] = unat num div 10 ^ (Suc k - n)"
  using assms(2)
proof (induction n)
  case 0
  have "unat num div 10 ^ Suc k = unat num div 10 ^ k div 10"
    by (simp only: power_Suc2 div_mult2_eq)
  then show ?case using assms(1) by simp
next
  case (Suc n)
  then have e: "Suc k - n = Suc (k - n)" by simp
  have "unat num div 10 ^ (k - n) = 10 * (unat num div 10 ^ Suc (k - n)) + unat num div 10 ^ (k - n) mod 10"
    by (simp only: power_Suc2 div_mult2_eq) simp
  then show ?case using Suc by (simp only: e dec_digit_def) simp
qed

lemma itos_bytes:
  obtains k where "k < 10" "unat num div 10 ^ k < 10" "k = 0 \<or> 10 ^ k \<le> unat num"
    "\<And>j. j \<le> k \<Longrightarrow> itos m num str (str + of_nat j) = of_nat (dec_digit num k j + 48)"
    "itos m num str (str + of_nat (Suc k)) = 0"
proof (cases "num = 0")
  case True
  have "itos m num str (str + of_nat j) = of_nat (dec_digit num 0 j + 48)" if "j \<le> 0" for j
    using True that by (simp add: itos_def dec_digit_def)
  moreover have "itos m num str (str + of_nat (Suc 0)) = 0" using True by (simp add: itos_def)
  ultimately show ?thesis using that [of 0] True by simp
next
  case False
  from denum_loop_power [of 1 0 num]
  obtain k where k: "unat (denum_loop num 1) = 10 ^ k" "unat num div 10 ^ k < 10"
    "k = 0 \<or> 10 ^ k \<le> unat num" by auto
  have k10: "k < 10"
  proof (rule ccontr)
    assume "\<not> k < 10"
    then have "(10::nat) ^ 10 \<le> 10 ^ k" by (intro power_increasing) auto
    moreover have "unat num < 4294967296" using unsigned_less [of num] by simp
    ultimately show False using k(3) \<open>\<not> k < 10\<close> by simp
  qed
  from digit_loop_writes [OF k(1) k10, of m str num 0]
  obtain m' where m': "digit_loop m str num (denum_loop num 1) 0 = (m', 0 + of_nat (Suc k))"
    "\<And>j. j \<le> k \<Longrightarrow> m' (str + (0 + of_nat j)) = of_nat (dec_digit num k j + 48)" by blast
  have fin: "itos m num str = m'(str + of_nat (Suc k) := 0)"
    using False m'(1) by (simp add: itos_def)
  have "itos m num str (str + of_nat j) = of_nat (dec_digit num k j + 48)" if "j \<le> k" for j
  proof -
    have "unat (of_nat j :: u64) \<noteq> unat (of_nat (Suc k) :: u64)"
      using that k10 by (subst (1 2) unat_of_nat64) auto
    then have "str + of_nat j \<noteq> str + of_nat (Suc k)" by auto
    then have "itos m num str (str + of_nat j) = m' (str + of_nat j)"
      by (simp only: fin fun_upd_apply if_False)
    then show ?thesis using m'(2) [OF that] by simp
  qed
  moreover have "itos m num str (str + of_nat (Suc k)) = 0" by (simp only: fin fun_upd_same)
  ultimately show ?thesis using that k10 k(2,3) by blast
qed

text \<open>
  \<open>itos\<close> writes the decimal representation of every 32-bit number: \<open>strlen\<close> finds its
  terminating zero after at most ten bytes, every byte before it is an ASCII digit, there is no
  leading zero, and the digits read back as the number.
\<close>

theorem itos_decimal:
  "\<exists>k<10. strlen (itos m num str) str = Some (of_nat (Suc k))
     \<and> (\<forall>j\<le>k. itos m num str (str + of_nat j) \<in> {48..57})
     \<and> (k = 0 \<or> itos m num str str \<noteq> 48)
     \<and> decimal_value (itos m num str) str (Suc k) = unat num"
proof -
  let ?m = "itos m num str"
  obtain k where k: "k < 10" "unat num div 10 ^ k < 10" "k = 0 \<or> 10 ^ k \<le> unat num"
    and d: "\<And>j. j \<le> k \<Longrightarrow> ?m (str + of_nat j) = of_nat (dec_digit num k j + 48)"
    and z: "?m (str + of_nat (Suc k)) = 0"
    by (rule itos_bytes [of num m str]) blast
  have u: "unat (?m (str + of_nat j)) = dec_digit num k j + 48" if "j \<le> k" for j
    by (simp only: d [OF that] unat_digit_char)
  have rng: "?m (str + of_nat j) \<in> {48..57}" if "j \<le> k" for j
    using u [OF that] dec_digit_lt [of num k j] by (simp add: word_le_nat_alt)
  have "strlen ?m str = Some (of_nat (Suc k))"
  proof (rule strlen_eq)
    show "?m (str + of_nat (Suc k)) = 0" by (fact z)
    show "?m (str + of_nat i) \<noteq> 0" if "i < Suc k" for i
    proof
      assume "?m (str + of_nat i) = 0"
      with u [of i] that show False by simp
    qed
  qed
  moreover have "k = 0 \<or> ?m str \<noteq> 48"
  proof (cases "k = 0")
    case False
    then have "0 < unat num div 10 ^ k" using k(3) by (simp add: div_greater_zero_iff)
    then have "dec_digit num k 0 \<noteq> 0" using k(2) by (simp add: dec_digit_def)
    then show ?thesis using u [of 0] by auto
  qed simp
  moreover have "decimal_value ?m str (Suc k) = foldl (\<lambda>v j. 10 * v + dec_digit num k j) 0 [0..<Suc k]"
    unfolding decimal_value_def by (rule foldl_cong) (auto simp: u less_Suc_eq_le simp del: upt_Suc)
  then have "decimal_value ?m str (Suc k) = unat num"
    using foldl_dec_digit [OF k(2), of "Suc k"] by simp
  ultimately show ?thesis using k(1) rng by blast
qed

theorem itos_decimal_witness:
  "\<exists>k<10. strlen (itos (\<lambda>_. 0) 305 64) 64 = Some (of_nat (Suc k))
     \<and> decimal_value (itos (\<lambda>_. 0) 305 64) 64 (Suc k) = 305"
  using itos_decimal [of "\<lambda>_. 0" 305 64] by auto

end
