(* ===== verification/Freelist.thy ===== *)
theory Freelist
  imports Prelude
begin

section \<open>Intrusive free lists (freelist.h, freelist.c)\<close>

text \<open>
  A free list is a singly linked list through the first eight bytes of the free blocks themselves:
  \<open>struct freelist_node { next }\<close> is a 64-bit load at the address of the node, and a
  \<open>freelist_t *\<close> is the address of the cell that holds the head. \<open>chain\<close> abstracts the
  linked cells to the list of their addresses. The contract of the list (a LIFO stack) is the locale
  \<open>lifo\<close>, interpreted here on the model of the code.
\<close>

subsection \<open>The operations\<close>

definition freelist_get_next :: "mem \<Rightarrow> ptr \<Rightarrow> ptr" where
  "freelist_get_next m node = (if node = NULL then NULL else rd64 m node)"

definition freelist_set_next :: "mem \<Rightarrow> ptr \<Rightarrow> ptr \<Rightarrow> mem" where
  "freelist_set_next m node nxt = (if node \<noteq> NULL then wr64 m node nxt else m)"

definition freelist_push :: "mem \<Rightarrow> ptr \<Rightarrow> ptr \<Rightarrow> mem" where
  "freelist_push m list block =
     (if list = NULL then m
      else wr64 (freelist_set_next m block (rd64 m list)) list block)"

definition freelist_pop :: "mem \<Rightarrow> ptr \<Rightarrow> ptr \<times> mem" where
  "freelist_pop m list =
     (if list = NULL then (NULL, m)
      else let res = rd64 m list
           in if res \<noteq> NULL then (res, wr64 m list (freelist_get_next m (rd64 m list)))
              else (res, m))"

definition freelist_get :: "ptr \<Rightarrow> ptr" where
  "freelist_get list = list"

definition freelist_empty :: "ptr \<Rightarrow> bool" where
  "freelist_empty list \<longleftrightarrow> list = NULL"

subsection \<open>Linked cells\<close>

fun chain :: "mem \<Rightarrow> ptr \<Rightarrow> ptr list \<Rightarrow> bool" where
  "chain m p [] \<longleftrightarrow> p = NULL"
| "chain m p (x # xs) \<longleftrightarrow> p = x \<and> x \<noteq> NULL \<and> chain m (rd64 m x) xs"

text \<open>Eight-byte cells that neither overlap nor wrap around.\<close>

definition cell :: "ptr \<Rightarrow> bool" where
  "cell a \<longleftrightarrow> a \<noteq> NULL \<and> unat a + 8 \<le> 18446744073709551616"

definition apart :: "ptr \<Rightarrow> ptr \<Rightarrow> bool" where
  "apart a b \<longleftrightarrow> unat a + 8 \<le> unat b \<or> unat b + 8 \<le> unat a"

lemma apart_sym: "apart a b \<longleftrightarrow> apart b a"
  by (auto simp: apart_def)

lemma rd64_wr64_cells [frame]: "cell a \<Longrightarrow> cell b \<Longrightarrow> apart a b \<Longrightarrow> rd64 (wr64 m a v) b = rd64 m b"
  by (intro rd64_wr64_apart) (auto simp: cell_def apart_def)

lemma chain_cong: "(\<And>x. x \<in> set xs \<Longrightarrow> rd64 m' x = rd64 m x) \<Longrightarrow> chain m' p xs = chain m p xs"
  by (induction xs arbitrary: p) auto

lemma chain_head: "chain m p xs \<Longrightarrow> p = (case xs of [] \<Rightarrow> NULL | x # _ \<Rightarrow> x)"
  by (cases xs) auto

lemma chain_NULL_iff: "chain m p xs \<Longrightarrow> p = NULL \<longleftrightarrow> xs = []"
  by (cases xs) auto

text \<open>The cell \<open>L\<close> heads a well-formed list of the blocks \<open>xs\<close>.\<close>

definition list_at :: "mem \<times> ptr \<Rightarrow> ptr list \<Rightarrow> bool" where
  "list_at s xs \<longleftrightarrow> (case s of (m, L) \<Rightarrow>
     cell L \<and> chain m (rd64 m L) xs \<and> (\<forall>x\<in>set xs. cell x \<and> apart L x) \<and> sorted_wrt apart xs)"

definition fresh_block :: "mem \<times> ptr \<Rightarrow> ptr list \<Rightarrow> ptr \<Rightarrow> bool" where
  "fresh_block s xs b \<longleftrightarrow> cell b \<and> apart (snd s) b \<and> (\<forall>x\<in>set xs. apart b x)"

subsection \<open>The contract of a stack\<close>

locale lifo =
  fixes rel :: "'s \<Rightarrow> 'a list \<Rightarrow> bool"
    and fresh :: "'s \<Rightarrow> 'a list \<Rightarrow> 'a \<Rightarrow> bool"
    and push :: "'s \<Rightarrow> 'a \<Rightarrow> 's"
    and pop :: "'s \<Rightarrow> 'a \<times> 's"
    and null :: "'a"
  assumes rel_push: "rel s xs \<Longrightarrow> fresh s xs x \<Longrightarrow> rel (push s x) (x # xs)"
    and pop_empty: "rel s [] \<Longrightarrow> pop s = (null, s)"
    and pop_result: "rel s (x # xs) \<Longrightarrow> fst (pop s) = x"
    and rel_pop: "rel s (x # xs) \<Longrightarrow> rel (snd (pop s)) xs"
    and fresh_push: "fresh s xs x \<Longrightarrow> fresh s xs y \<Longrightarrow> fresh s [x] y \<Longrightarrow> fresh (push s x) (x # xs) y"
    and fresh_single: "fresh s xs x \<Longrightarrow> fresh (push s y) [x] z = fresh s [x] z"
begin

fun push_all :: "'s \<Rightarrow> 'a list \<Rightarrow> 's" where
  "push_all s [] = s"
| "push_all s (y # ys) = push_all (push s y) ys"

fun pop_all :: "nat \<Rightarrow> 's \<Rightarrow> 'a list \<times> 's" where
  "pop_all 0 s = ([], s)"
| "pop_all (Suc n) s = (let (x, s') = pop s; (xs, s'') = pop_all n s' in (x # xs, s''))"

lemma pop_push: "rel s xs \<Longrightarrow> fresh s xs x \<Longrightarrow> fst (pop (push s x)) = x \<and> rel (snd (pop (push s x))) xs"
  using rel_push pop_result rel_pop by blast

lemma pop_all_rel: "rel s (xs @ ys) \<Longrightarrow> fst (pop_all (length xs) s) = xs \<and> rel (snd (pop_all (length xs) s)) ys"
proof (induction xs arbitrary: s)
  case Nil
  then show ?case by simp
next
  case (Cons x xs)
  then have "fst (pop s) = x" "rel (snd (pop s)) (xs @ ys)"
    using pop_result rel_pop by auto
  with Cons.IH [of "snd (pop s)"] show ?case by (auto simp: split_beta Let_def)
qed

lemma push_all_rel:
  assumes "rel s xs" "\<And>y. y \<in> set ys \<Longrightarrow> fresh s xs y" "sorted_wrt (\<lambda>y z. fresh s [y] z) ys"
  shows "rel (push_all s ys) (rev ys @ xs)"
  using assms
proof (induction ys arbitrary: s xs)
  case Nil
  then show ?case by simp
next
  case (Cons y ys)
  have y: "fresh s xs y" using Cons.prems(2) by simp
  have "rel (push_all (push s y) ys) (rev ys @ y # xs)"
  proof (rule Cons.IH)
    show "rel (push s y) (y # xs)" using Cons.prems(1) y by (rule rel_push)
    show "fresh (push s y) (y # xs) z" if "z \<in> set ys" for z
      using that Cons.prems(2,3) y by (intro fresh_push) auto
    show "sorted_wrt (\<lambda>u z. fresh (push s y) [u] z) ys"
      using Cons.prems(2,3) by (auto simp: fresh_single elim!: sorted_wrt_mono_rel [rotated])
  qed
  then show ?case by simp
qed

text \<open>What is pushed comes back in reverse order and leaves the stack as it was.\<close>

lemma lifo_order:
  assumes "rel s xs" "\<And>y. y \<in> set ys \<Longrightarrow> fresh s xs y" "sorted_wrt (\<lambda>y z. fresh s [y] z) ys"
  shows "fst (pop_all (length ys) (push_all s ys)) = rev ys
    \<and> rel (snd (pop_all (length ys) (push_all s ys))) xs"
  using pop_all_rel [of "push_all s ys" "rev ys" xs] push_all_rel [OF assms] by simp

end

subsection \<open>The free list is a stack\<close>

definition push_at :: "mem \<times> ptr \<Rightarrow> ptr \<Rightarrow> mem \<times> ptr" where
  "push_at s b = (freelist_push (fst s) (snd s) b, snd s)"

definition pop_at :: "mem \<times> ptr \<Rightarrow> ptr \<times> mem \<times> ptr" where
  "pop_at s = (let (res, m) = freelist_pop (fst s) (snd s) in (res, m, snd s))"

lemma freelist_push_eq:
  "cell L \<Longrightarrow> cell b \<Longrightarrow> freelist_push m L b = wr64 (wr64 m b (rd64 m L)) L b"
  by (simp add: freelist_push_def freelist_set_next_def cell_def)

lemma freelist_push_rd64:
  assumes "cell L" "cell b" "apart L b" "cell x"
  shows "rd64 (freelist_push m L b) L = b"
    and "rd64 (freelist_push m L b) b = rd64 m L"
    and "apart L x \<Longrightarrow> apart b x \<Longrightarrow> rd64 (freelist_push m L b) x = rd64 m x"
  using assms by (simp_all add: freelist_push_eq rd64_wr64_cells)

lemma list_at_push:
  assumes "list_at (m, L) xs" "fresh_block (m, L) xs b"
  shows "list_at (freelist_push m L b, L) (b # xs)"
proof -
  have L: "cell L" "cell b" "apart L b" using assms by (auto simp: list_at_def fresh_block_def)
  have "chain (freelist_push m L b) (rd64 m L) xs"
    using assms L by (subst chain_cong [of xs _ m])
      (auto simp: list_at_def fresh_block_def freelist_push_rd64(3))
  with assms L freelist_push_rd64(1,2) [OF L L(2)] show ?thesis
    by (auto simp: list_at_def fresh_block_def cell_def)
qed

lemma freelist_pop_Cons:
  assumes "list_at (m, L) (x # xs)"
  shows "freelist_pop m L = (x, wr64 m L (rd64 m x))"
  using assms by (auto simp: list_at_def freelist_pop_def freelist_get_next_def cell_def)

lemma list_at_pop:
  assumes "list_at (m, L) (x # xs)"
  shows "list_at (wr64 m L (rd64 m x), L) xs"
proof -
  have "chain (wr64 m L (rd64 m x)) (rd64 m x) xs"
    using assms by (subst chain_cong [of xs _ m]) (auto simp: list_at_def rd64_wr64_cells)
  with assms show ?thesis by (auto simp: list_at_def)
qed

interpretation fl: lifo list_at fresh_block push_at pop_at NULL
proof unfold_locales
  fix s :: "mem \<times> ptr" and xs x y z
  show "list_at s xs \<Longrightarrow> fresh_block s xs x \<Longrightarrow> list_at (push_at s x) (x # xs)"
    by (cases s) (simp add: push_at_def list_at_push)
  show "list_at s [] \<Longrightarrow> pop_at s = (NULL, s)"
    by (cases s) (auto simp: pop_at_def list_at_def freelist_pop_def cell_def)
  show "list_at s (x # xs) \<Longrightarrow> fst (pop_at s) = x"
    by (cases s) (simp add: pop_at_def freelist_pop_Cons)
  show "list_at s (x # xs) \<Longrightarrow> list_at (snd (pop_at s)) xs"
    by (cases s) (simp add: pop_at_def freelist_pop_Cons list_at_pop)
  show "fresh_block s xs x \<Longrightarrow> fresh_block s xs y \<Longrightarrow> fresh_block s [x] y \<Longrightarrow>
      fresh_block (push_at s x) (x # xs) y"
    by (auto simp: fresh_block_def push_at_def apart_sym)
  show "fresh_block s xs x \<Longrightarrow> fresh_block (push_at s y) [x] z = fresh_block s [x] z"
    by (auto simp: fresh_block_def push_at_def)
qed

text \<open>Blocks pushed one after the other, and as many pops.\<close>

fun pushes :: "mem \<Rightarrow> ptr \<Rightarrow> ptr list \<Rightarrow> mem" where
  "pushes m list [] = m"
| "pushes m list (b # bs) = pushes (freelist_push m list b) list bs"

fun pops :: "nat \<Rightarrow> mem \<Rightarrow> ptr \<Rightarrow> ptr list \<times> mem" where
  "pops 0 m list = ([], m)"
| "pops (Suc n) m list =
     (case freelist_pop m list of (b, m1) \<Rightarrow> case pops n m1 list of (bs, m2) \<Rightarrow> (b # bs, m2))"

lemma push_all_pushes: "fl.push_all (m, L) bs = (pushes m L bs, L)"
  by (induction bs arbitrary: m) (simp_all add: push_at_def)

lemma pop_all_pops: "fl.pop_all n (m, L) = (fst (pops n m L), snd (pops n m L), L)"
  by (induction n arbitrary: m) (simp_all add: pop_at_def split: prod.splits)

text \<open>
  C25: a free list is a stack: pushing any number of blocks that overlap neither each other, nor the
  blocks of the list, nor its head cell, and popping as many returns them in reverse order and leaves
  a list of exactly the blocks that were there before.
\<close>

theorem freelist_lifo:
  assumes "list_at (m, L) xs" "\<And>b. b \<in> set bs \<Longrightarrow> fresh_block (m, L) xs b"
    and "sorted_wrt (\<lambda>b c. fresh_block (m, L) [b] c) bs"
  shows "fst (pops (length bs) (pushes m L bs) L) = rev bs
    \<and> list_at (snd (pops (length bs) (pushes m L bs) L), L) xs
    \<and> list_at (pushes m L bs, L) (rev bs @ xs)"
  using fl.lifo_order [OF assms] fl.push_all_rel [OF assms] by (simp add: push_all_pushes pop_all_pops)

theorem freelist_lifo_witness:
  "fst (pops 2 (pushes (\<lambda>_. 0) 8 [4096, 8192]) 8) = [8192, 4096]
   \<and> list_at (snd (pops 2 (pushes (\<lambda>_. 0) 8 [4096, 8192]) 8), 8) []"
proof -
  have "rd64 (\<lambda>_. 0) 8 = 0" by (simp add: rd64_def)
  then have l: "list_at (\<lambda>_. 0, 8) []" by (simp add: list_at_def cell_def)
  have f: "fresh_block (\<lambda>_. 0, 8) [] b" if "b \<in> set [4096, 8192]" for b
    using that by (auto simp: fresh_block_def cell_def apart_def)
  have "sorted_wrt (\<lambda>b c. fresh_block (\<lambda>_. 0, 8) [b] c) [4096, 8192]"
    by (simp add: fresh_block_def cell_def apart_def)
  from freelist_lifo [OF l f this] show ?thesis by (simp add: numeral_2_eq_2)
qed

end
