(* ===== verification/Buddy_Util.thy ===== *)
theory Buddy_Util
  imports Util
begin

section \<open>The buddy bitmap and block arithmetic (buddy\_util.h, buddy\_util.c)\<close>

text \<open>
  The bitmap of the buddy allocator and the arithmetic between blocks and addresses. A block is a
  pair of a layer and an index; the bitmap stores the layers one after another, after one padding
  bit. The central fact is that the bit of block \<open>i\<close> of layer \<open>l\<close> is bit \<open>2 ^ l + i\<close>
  of the bitmap: the blocks are numbered like the nodes of a binary heap, the parent of node
  \<open>n\<close> is \<open>n div 2\<close> and its buddy is \<open>n XOR 1\<close>.
\<close>

subsection \<open>The operations\<close>

definition buddy_bitmap_size :: "u64 \<Rightarrow> u64" where
  "buddy_bitmap_size blocks_count = (blocks_count + 7) div 8"

definition mask_index :: "u64 \<Rightarrow> u64 \<Rightarrow> u64" where
  "mask_index layer index =
     (if layer < 3 then 0
      else let buddy_start = shl1 (layer - 3) in buddy_start + index div 8)"

definition bit_index :: "u64 \<Rightarrow> u64 \<Rightarrow> u64" where
  "bit_index layer index =
     (if layer < 3 then index + shl1 layer else index mod 8)"

definition buddy_set :: "mem \<Rightarrow> ptr \<Rightarrow> u64 \<Rightarrow> u64 \<Rightarrow> mem" where
  "buddy_set m bitmap layer index =
     (let a = bitmap + mask_index layer index
      in m(a := ucast (ucast (m a) OR shl1 (bit_index layer index))))"

definition buddy_unset :: "mem \<Rightarrow> ptr \<Rightarrow> u64 \<Rightarrow> u64 \<Rightarrow> mem" where
  "buddy_unset m bitmap layer index =
     (let a = bitmap + mask_index layer index
      in m(a := ucast (ucast (m a) AND NOT (shl1 (bit_index layer index)))))"

definition buddy_get :: "mem \<Rightarrow> ptr \<Rightarrow> u64 \<Rightarrow> u64 \<Rightarrow> bool" where
  "buddy_get m bitmap layer index \<longleftrightarrow>
     ucast (m (bitmap + mask_index layer index)) AND shl1 (bit_index layer index) \<noteq> 0"

function buddy_mark :: "mem \<Rightarrow> ptr \<Rightarrow> u64 \<Rightarrow> u64 \<Rightarrow> mem" where
  "buddy_mark m bitmap layer index =
     (if layer \<noteq> 0 \<and> buddy_get m bitmap layer (index XOR 1)
      then buddy_mark (buddy_unset m bitmap layer (index XOR 1)) bitmap (layer - 1) (index div 2)
      else buddy_set m bitmap layer index)"
  by pat_completeness auto
termination
  by (relation "measure (\<lambda>(m, bitmap, layer, index). unat layer)") (auto intro: measure_unat)

declare buddy_mark.simps [simp del]

definition block_size :: "u64 \<Rightarrow> u64 \<Rightarrow> u64" where
  "block_size layer root_block_size = drop_bit (unat layer) root_block_size"

text \<open>A division by zero, and the undefined shifts of \<open>log2_upper\<close>, give \<open>None\<close>.\<close>

definition best_fit_layer :: "u64 \<Rightarrow> u64 \<Rightarrow> u64 option" where
  "best_fit_layer pages root_block_size =
     (if pages = 0 then None else log2_upper (root_block_size div pages))"

definition to_pointer :: "ptr \<Rightarrow> u64 \<Rightarrow> u64 \<Rightarrow> u64 \<Rightarrow> ptr" where
  "to_pointer begin layer index root_block_size =
     begin + block_size layer root_block_size * index * PAGE_SIZE"

definition to_index :: "ptr \<Rightarrow> u64 \<Rightarrow> ptr \<Rightarrow> u64 \<Rightarrow> u64 option" where
  "to_index begin layer pointer root_block_size =
     (if block_size layer root_block_size = 0 then None
      else Some ((pointer - begin) div block_size layer root_block_size div PAGE_SIZE))"

subsection \<open>The bitmap is a binary heap of bits\<close>

definition bitn :: "mem \<Rightarrow> ptr \<Rightarrow> nat \<Rightarrow> bool" where
  "bitn m bitmap n \<longleftrightarrow> bit (m (bitmap + of_nat (n div 8))) (n mod 8)"

lemma unat_shl1_of_nat: "l < 64 \<Longrightarrow> unat (shl1 (of_nat l)) = 2 ^ l"
  by (simp add: unat_shl1 unat_of_nat64)

lemma block_bound:
  assumes "l < 60" "(i :: nat) < 2 ^ l" shows "i < 1152921504606846976" "(2::nat) ^ l \<le> 576460752303423488"
proof -
  have "(2::nat) ^ l \<le> 2 ^ 59" using assms(1) by (intro power_increasing) auto
  then show "(2::nat) ^ l \<le> 576460752303423488" by simp
  with assms(2) show "i < 1152921504606846976" by simp
qed

lemma of_nat_less3: "l < 60 \<Longrightarrow> (of_nat l :: u64) < 3 \<longleftrightarrow> l < 3"
  by (simp add: word_less_nat_alt unat_of_nat64)

lemma unat_mask_index:
  assumes "l < 60" "i < 2 ^ l"
  shows "unat (mask_index (of_nat l) (of_nat i)) = (2 ^ l + i) div 8"
proof (cases "l < 3")
  case True
  then have "(2::nat) ^ l \<le> 2 ^ 2" by (intro power_increasing) auto
  with True assms show ?thesis by (simp add: mask_index_def of_nat_less3)
next
  case False
  then obtain k where k: "l = k + 3" by (metis add.commute le_add_diff_inverse linorder_not_le)
  have "(of_nat l - 3 :: u64) = of_nat k" by (simp add: k)
  then have sh: "unat (shl1 (of_nat l - 3)) = 2 ^ k" using assms(1) k by (simp add: unat_shl1_of_nat)
  have di: "unat (of_nat i div 8 :: u64) = i div 8"
    using block_bound [OF assms] by (simp add: unat_div unat_of_nat64)
  have "2 ^ k + i div 8 < 18446744073709551616"
    using block_bound [OF assms] k by (simp add: power_add)
  then have "unat (mask_index (of_nat l) (of_nat i)) = 2 ^ k + i div 8"
    using False assms(1) by (simp add: mask_index_def of_nat_less3 unat_add64 sh di)
  then show ?thesis by (simp add: k power_add)
qed

lemma unat_bit_index:
  assumes "l < 60" "i < 2 ^ l"
  shows "unat (bit_index (of_nat l) (of_nat i)) = (2 ^ l + i) mod 8"
proof (cases "l < 3")
  case True
  then have p: "(2::nat) ^ l \<le> 2 ^ 2" by (intro power_increasing) auto
  have "unat (of_nat i + shl1 (of_nat l)) = i + 2 ^ l"
    using p True assms by (subst unat_add64) (simp_all add: unat_shl1_of_nat unat_of_nat64)
  with True assms p show ?thesis by (simp add: bit_index_def of_nat_less3)
next
  case False
  then obtain k where k: "l = k + 3" by (metis add.commute le_add_diff_inverse linorder_not_le)
  have "unat (bit_index (of_nat l) (of_nat i)) = i mod 8"
    using False assms(1) block_bound [OF assms]
    by (simp add: bit_index_def of_nat_less3 unat_mod unat_of_nat64)
  then show ?thesis by (simp add: k power_add mult.commute)
qed

text \<open>
  The bit of block \<open>i\<close> of layer \<open>l\<close> is bit \<open>2 ^ l + i\<close> of the bitmap, so that different
  blocks have different bits and the layers follow one another without gaps after the padding bit.
\<close>

theorem bitmap_heap_order:
  assumes "l < 60" "i < 2 ^ l"
  shows "8 * unat (mask_index (of_nat l) (of_nat i)) + unat (bit_index (of_nat l) (of_nat i)) = 2 ^ l + i"
  using unat_mask_index [OF assms] unat_bit_index [OF assms] by simp

theorem bitmap_heap_order_witness:
  "8 * unat (mask_index 4 9) + unat (bit_index 4 9) = (25 :: nat)"
  using bitmap_heap_order [of 4 9] by simp

lemma mask_index_of_nat: "l < 60 \<Longrightarrow> i < 2 ^ l \<Longrightarrow> mask_index (of_nat l) (of_nat i) = of_nat ((2 ^ l + i) div 8)"
  by (metis of_nat_unat ucast_id unat_mask_index)

lemma bit_index_of_nat: "l < 60 \<Longrightarrow> i < 2 ^ l \<Longrightarrow> bit_index (of_nat l) (of_nat i) = of_nat ((2 ^ l + i) mod 8)"
  by (metis of_nat_unat ucast_id unat_bit_index)

lemma shl1_of_nat: "b < 64 \<Longrightarrow> shl1 (of_nat b) = push_bit b 1"
  by (simp add: shl1_def unat_of_nat64)

lemma byte_or_bit: "b < 8 \<Longrightarrow> j < 8 \<Longrightarrow>
    bit (ucast (ucast (c :: u8) OR shl1 (of_nat b)) :: u8) j \<longleftrightarrow> j = b \<or> bit c j"
  by (auto simp: shl1_of_nat bit_simps)

lemma byte_and_not_bit: "b < 8 \<Longrightarrow> j < 8 \<Longrightarrow>
    bit (ucast (ucast (c :: u8) AND NOT (shl1 (of_nat b))) :: u8) j \<longleftrightarrow> j \<noteq> b \<and> bit c j"
  by (auto simp: shl1_of_nat bit_simps)

lemma byte_and_bit: "b < 8 \<Longrightarrow> ucast (c :: u8) AND shl1 (of_nat b) \<noteq> 0 \<longleftrightarrow> bit c b"
proof
  assume b: "b < 8"
  show "bit c b" if "ucast c AND shl1 (of_nat b) \<noteq> 0"
  proof (rule ccontr)
    assume "\<not> bit c b"
    then have "ucast c AND shl1 (of_nat b) = 0"
      using b by (intro bit_word_eqI) (auto simp: shl1_of_nat bit_simps)
    with that show False by simp
  qed
  show "ucast c AND shl1 (of_nat b) \<noteq> 0" if "bit c b"
  proof
    assume "ucast c AND shl1 (of_nat b) = 0"
    then have "\<not> bit (ucast c AND shl1 (of_nat b)) b" by simp
    with that b show False by (simp add: shl1_of_nat bit_simps)
  qed
qed

lemma buddy_get_bitn:
  "l < 60 \<Longrightarrow> i < 2 ^ l \<Longrightarrow> buddy_get m bm (of_nat l) (of_nat i) \<longleftrightarrow> bitn m bm (2 ^ l + i)"
  by (simp add: buddy_get_def bitn_def mask_index_of_nat bit_index_of_nat byte_and_bit)

lemma heap_address:
  assumes "n < 9223372036854775808" "k < 9223372036854775808"
  shows "(bm :: u64) + of_nat (n div 8) = bm + of_nat (k div 8) \<longleftrightarrow> n div 8 = k div 8"
proof -
  have "unat (of_nat (n div 8) :: u64) = n div 8" "unat (of_nat (k div 8) :: u64) = k div 8"
    using assms by (simp_all add: unat_of_nat64)
  then show ?thesis by (auto simp: u64_eq_iff [of "of_nat _" "of_nat _"] simp del: of_nat_unat)
qed

lemma heap_eq_iff: "(n :: nat) = k \<longleftrightarrow> n div 8 = k div 8 \<and> n mod 8 = k mod 8"
  by (metis div_mult_mod_eq)

lemma buddy_set_bitn:
  assumes "l < 60" "i < 2 ^ l" "n < 9223372036854775808"
  shows "bitn (buddy_set m bm (of_nat l) (of_nat i)) bm n \<longleftrightarrow> n = 2 ^ l + i \<or> bitn m bm n"
proof -
  have "2 ^ l + i < 9223372036854775808" using block_bound [OF assms(1,2)] by simp
  from heap_address [OF assms(3) this, of bm] heap_eq_iff [of n "2 ^ l + i"] assms(1,2)
  show ?thesis
    by (simp add: buddy_set_def Let_def bitn_def mask_index_of_nat bit_index_of_nat byte_or_bit)
qed

lemma buddy_unset_bitn:
  assumes "l < 60" "i < 2 ^ l" "n < 9223372036854775808"
  shows "bitn (buddy_unset m bm (of_nat l) (of_nat i)) bm n \<longleftrightarrow> n \<noteq> 2 ^ l + i \<and> bitn m bm n"
proof -
  have "2 ^ l + i < 9223372036854775808" using block_bound [OF assms(1,2)] by simp
  from heap_address [OF assms(3) this, of bm] heap_eq_iff [of n "2 ^ l + i"] assms(1,2)
  show ?thesis
    by (auto simp: buddy_unset_def Let_def bitn_def mask_index_of_nat bit_index_of_nat
        byte_and_not_bit)
qed

subsection \<open>The contract of the bitmap\<close>

text \<open>
  What the clients of the bitmap rely on: a bit per block that the operations change one at a time.
\<close>

locale block_bits =
  fixes get :: "'s \<Rightarrow> nat \<Rightarrow> nat \<Rightarrow> bool"
    and put :: "'s \<Rightarrow> nat \<Rightarrow> nat \<Rightarrow> 's"
    and clear :: "'s \<Rightarrow> nat \<Rightarrow> nat \<Rightarrow> 's"
  assumes get_put: "\<lbrakk>l < 60; i < 2 ^ l; l' < 60; i' < 2 ^ l'\<rbrakk> \<Longrightarrow>
      get (put s l i) l' i' \<longleftrightarrow> l' = l \<and> i' = i \<or> get s l' i'"
    and get_clear: "\<lbrakk>l < 60; i < 2 ^ l; l' < 60; i' < 2 ^ l'\<rbrakk> \<Longrightarrow>
      get (clear s l i) l' i' \<longleftrightarrow> \<not> (l' = l \<and> i' = i) \<and> get s l' i'"
begin

fun mark :: "'s \<Rightarrow> nat \<Rightarrow> nat \<Rightarrow> 's" where
  "mark s 0 i = put s 0 i"
| "mark s (Suc l) i =
     (if get s (Suc l) (i XOR 1) then mark (clear s (Suc l) (i XOR 1)) l (i div 2)
      else put s (Suc l) i)"

definition covered :: "'s \<Rightarrow> nat \<Rightarrow> nat \<Rightarrow> bool" where
  "covered s d j \<longleftrightarrow> (\<exists>l\<le>d. get s l (j div 2 ^ (d - l)))"

lemma div_block: "l \<le> d \<Longrightarrow> j < 2 ^ d \<Longrightarrow> j div 2 ^ (d - l) < (2 :: nat) ^ l"
  by (simp add: less_mult_imp_div_less flip: power_add)

lemma xor_one_less: "i < 2 ^ Suc l \<Longrightarrow> (i :: nat) XOR 1 < 2 ^ Suc l"
  by (cases "even i") (auto simp: xor_Suc_0_eq elim!: evenE oddE)

lemma xor_valid: "0 < l \<Longrightarrow> i < 2 ^ l \<Longrightarrow> (i :: nat) XOR 1 < 2 ^ l"
  using xor_one_less by (cases l) auto

lemma half_eq_iff: "(x :: nat) div 2 = i div 2 \<longleftrightarrow> x = i \<or> x = i XOR 1"
  by (cases "even i"; cases "even x") (auto simp: xor_Suc_0_eq elim!: evenE oddE)

lemma covered_put:
  assumes "l \<le> d" "d < 60" "i < 2 ^ l" "j < 2 ^ d"
  shows "covered (put s l i) d j \<longleftrightarrow> covered s d j \<or> j div 2 ^ (d - l) = i"
  using assms by (auto simp: covered_def get_put div_block)

lemma covered_clear:
  assumes "l \<le> d" "d < 60" "i < 2 ^ l" "j < 2 ^ d" "get s l i"
  shows "covered s d j \<longleftrightarrow> covered (clear s l i) d j \<or> j div 2 ^ (d - l) = i"
  using assms by (auto simp: covered_def get_clear div_block)

lemma mark_covered:
  assumes "l \<le> d" "d < 60" "i < 2 ^ l" "j < 2 ^ d"
  shows "covered (mark s l i) d j \<longleftrightarrow> covered s d j \<or> j div 2 ^ (d - l) = i"
  using assms
proof (induction l arbitrary: s i)
  case 0
  then show ?case by (simp add: covered_put)
next
  case (Suc l)
  let ?b = "i XOR 1" and ?x = "j div 2 ^ (d - Suc l)"
  have b: "?b < 2 ^ Suc l" using Suc.prems(3) by (rule xor_one_less)
  show ?case
  proof (cases "get s (Suc l) ?b")
    case True
    have "d - l = Suc (d - Suc l)" using Suc.prems(1) by simp
    then have x2: "j div 2 ^ (d - l) = ?x div 2" by (simp only: power_Suc2 div_mult2_eq)
    have "i div 2 < 2 ^ l" using Suc.prems(3) by (simp add: less_mult_imp_div_less mult.commute)
    then have "covered (mark s (Suc l) i) d j
        \<longleftrightarrow> covered (clear s (Suc l) ?b) d j \<or> ?x div 2 = i div 2"
      using Suc.IH [of "i div 2" "clear s (Suc l) ?b"] Suc.prems True x2 by simp
    then show ?thesis
      using covered_clear [OF Suc.prems(1,2) b Suc.prems(4) True] half_eq_iff [of ?x i] by blast
  next
    case False
    then show ?thesis using covered_put [OF Suc.prems] by simp
  qed
qed

text \<open>No two buddies are both marked: marking merges them.\<close>

definition merged :: "'s \<Rightarrow> nat \<Rightarrow> bool" where
  "merged s d \<longleftrightarrow> (\<forall>l i. 0 < l \<longrightarrow> l \<le> d \<longrightarrow> i < 2 ^ l \<longrightarrow> \<not> (get s l i \<and> get s l (i XOR 1)))"

lemma mark_merged:
  assumes "merged s d" "l \<le> d" "d < 60" "i < 2 ^ l"
  shows "merged (mark s l i) d"
  using assms
proof (induction l arbitrary: s i)
  case 0
  show ?case
    unfolding merged_def
  proof (intro allI impI)
    fix l' i' :: nat
    assume l': "0 < l'" "l' \<le> d" "i' < 2 ^ l'"
    with 0 xor_valid [OF l'(1,3)] show "\<not> (get (mark s 0 i) l' i' \<and> get (mark s 0 i) l' (i' XOR 1))"
      by (simp only: mark.simps get_put) (auto simp: merged_def)
  qed
next
  case (Suc l)
  have b: "i XOR 1 < 2 ^ Suc l" using Suc.prems(4) by (rule xor_one_less)
  note valid = xor_valid [unfolded One_nat_def]
  show ?case
  proof (cases "get s (Suc l) (i XOR 1)")
    case True
    have "merged (clear s (Suc l) (i XOR 1)) d"
      using Suc.prems b valid by (auto simp: merged_def get_clear)
    moreover have "i div 2 < 2 ^ l" using Suc.prems(4) by (simp add: less_mult_imp_div_less mult.commute)
    ultimately show ?thesis using Suc.IH Suc.prems True by simp
  next
    case False
    have "\<not> get s (Suc l) i'" if "i' XOR 1 = i" for i'
    proof -
      from that have "i' = i XOR 1" by (auto simp: xor.assoc)
      with False show ?thesis by simp
    qed
    moreover have "i \<noteq> i XOR Suc 0" by (cases "even i") (auto simp: xor_Suc_0_eq elim: oddE)
    ultimately show ?thesis using False Suc.prems valid by (auto simp: merged_def get_put)
  qed
qed

end

lemma block_number_eq:
  assumes "i < 2 ^ l" "i' < 2 ^ l'"
  shows "2 ^ l + i = 2 ^ l' + i' \<longleftrightarrow> l = l' \<and> (i :: nat) = i'"
proof
  assume eq: "2 ^ l + i = 2 ^ l' + i'"
  have "\<not> l < l'" "\<not> l' < l"
  proof -
    show "\<not> l < l'"
    proof
      assume "l < l'"
      then have "(2::nat) ^ Suc l \<le> 2 ^ l'" by (intro power_increasing) auto
      with eq assms(1) show False by simp
    qed
    show "\<not> l' < l"
    proof
      assume "l' < l"
      then have "(2::nat) ^ Suc l' \<le> 2 ^ l" by (intro power_increasing) auto
      with eq assms(2) show False by simp
    qed
  qed
  with eq show "l = l' \<and> i = i'" by simp
qed auto

lemma block_number_bound: "l < 60 \<Longrightarrow> (i :: nat) < 2 ^ l \<Longrightarrow> 2 ^ l + i < 9223372036854775808"
  using block_bound [of l i] by simp

lemma buddy_get_set:
  assumes "l < 60" "i < 2 ^ l" "l' < 60" "i' < 2 ^ l'"
  shows "buddy_get (buddy_set m bm (of_nat l) (of_nat i)) bm (of_nat l') (of_nat i')
    \<longleftrightarrow> l' = l \<and> i' = i \<or> buddy_get m bm (of_nat l') (of_nat i')"
  using block_number_eq [OF assms(4,2)]
  by (simp add: buddy_get_bitn assms buddy_set_bitn block_number_bound)

lemma buddy_get_unset:
  assumes "l < 60" "i < 2 ^ l" "l' < 60" "i' < 2 ^ l'"
  shows "buddy_get (buddy_unset m bm (of_nat l) (of_nat i)) bm (of_nat l') (of_nat i')
    \<longleftrightarrow> \<not> (l' = l \<and> i' = i) \<and> buddy_get m bm (of_nat l') (of_nat i')"
  using block_number_eq [OF assms(4,2)]
  by (simp add: buddy_get_bitn assms buddy_unset_bitn block_number_bound)

definition get_at :: "mem \<times> ptr \<Rightarrow> nat \<Rightarrow> nat \<Rightarrow> bool" where
  "get_at s l i = buddy_get (fst s) (snd s) (of_nat l) (of_nat i)"

definition set_at :: "mem \<times> ptr \<Rightarrow> nat \<Rightarrow> nat \<Rightarrow> mem \<times> ptr" where
  "set_at s l i = (buddy_set (fst s) (snd s) (of_nat l) (of_nat i), snd s)"

definition unset_at :: "mem \<times> ptr \<Rightarrow> nat \<Rightarrow> nat \<Rightarrow> mem \<times> ptr" where
  "unset_at s l i = (buddy_unset (fst s) (snd s) (of_nat l) (of_nat i), snd s)"

lemma bits_at_pair:
  "get_at (m, bm) l i = buddy_get m bm (of_nat l) (of_nat i)"
  "set_at (m, bm) l i = (buddy_set m bm (of_nat l) (of_nat i), bm)"
  "unset_at (m, bm) l i = (buddy_unset m bm (of_nat l) (of_nat i), bm)"
  by (simp_all add: get_at_def set_at_def unset_at_def)

interpretation bb: block_bits get_at set_at unset_at
  by unfold_locales (simp_all add: get_at_def set_at_def unset_at_def buddy_get_set buddy_get_unset)

lemma of_nat_half: "i < 18446744073709551616 \<Longrightarrow> (of_nat i :: u64) div 2 = of_nat (i div 2)"
  by (simp add: word_unat_eq_iff unat_div unat_of_nat64)

lemma of_nat_xor_one: "(of_nat i :: u64) XOR 1 = of_nat (i XOR 1)"
  using of_nat_xor_eq [of i 1, where 'a = u64] by simp

lemma buddy_mark_eq:
  assumes "l < 60" "i < 2 ^ l"
  shows "buddy_mark m bm (of_nat l) (of_nat i) = fst (bb.mark (m, bm) l i)"
  using assms
proof (induction l arbitrary: m i)
  case 0
  then show ?case by (subst buddy_mark.simps) (simp add: bits_at_pair)
next
  case (Suc l)
  have "unat (of_nat (Suc l) :: u64) = Suc l" using Suc.prems(1) by (intro unat_of_nat64) simp
  then have nz: "(of_nat (Suc l) :: u64) \<noteq> 0" by (metis nat.distinct(1) unat_0)
  have "i div 2 < 2 ^ l" using Suc.prems(2) by (simp add: less_mult_imp_div_less mult.commute)
  note IH = Suc.IH [OF _ this]
  have half: "(of_nat i :: u64) div 2 = of_nat (i div 2)"
    using block_bound [OF Suc.prems] by (intro of_nat_half) simp
  show ?case
    using nz IH Suc.prems(1)
    by (subst buddy_mark.simps)
       (simp add: half of_nat_xor_one bits_at_pair)
qed

text \<open>
  Page \<open>j\<close> of layer \<open>d\<close> lies in a marked block of some layer up to \<open>d\<close>.
\<close>

definition page_marked :: "mem \<Rightarrow> ptr \<Rightarrow> nat \<Rightarrow> nat \<Rightarrow> bool" where
  "page_marked m bm d j \<longleftrightarrow> (\<exists>l\<le>d. buddy_get m bm (of_nat l) (of_nat (j div 2 ^ (d - l))))"

lemma page_marked_covered: "page_marked m bm d j = bb.covered (m, bm) d j"
  by (simp add: page_marked_def bb.covered_def bits_at_pair)

text \<open>
  \<open>buddy_mark\<close> marks exactly the pages of its block in addition to those marked before, however
  many merges of buddies it makes on the way up.
\<close>

theorem buddy_mark_marks:
  assumes "l \<le> d" "d < 60" "i < 2 ^ l" "j < 2 ^ d"
  shows "page_marked (buddy_mark m bm (of_nat l) (of_nat i)) bm d j
    \<longleftrightarrow> page_marked m bm d j \<or> j div 2 ^ (d - l) = i"
proof -
  have snd_mark: "snd (bb.mark (m, bm) l i) = bm" for m
    by (induction l arbitrary: m i) (auto simp: bits_at_pair)
  have "buddy_mark m bm (of_nat l) (of_nat i) = fst (bb.mark (m, bm) l i)"
    using assms by (intro buddy_mark_eq) auto
  then have "(buddy_mark m bm (of_nat l) (of_nat i), bm) = bb.mark (m, bm) l i"
    by (simp add: prod_eq_iff snd_mark)
  then show ?thesis using bb.mark_covered [OF assms, of "(m, bm)"] by (simp add: page_marked_covered)
qed

theorem buddy_mark_marks_witness:
  "page_marked (buddy_mark (\<lambda>_. 0) 0 3 5) 0 4 11 \<longleftrightarrow> page_marked (\<lambda>_. 0) 0 4 11 \<or> 11 div 2 ^ 1 = (5 :: nat)"
  using buddy_mark_marks [of 3 4 5 11 "\<lambda>_. 0" 0] by simp

subsection \<open>Block arithmetic\<close>

text \<open>
  A pool of \<open>2 ^ k\<close> pages at \<open>begin\<close> that ends inside the address space. Block \<open>i\<close> of layer
  \<open>l\<close> has \<open>2 ^ (k - l)\<close> pages and starts at \<open>block_addr begin k l i\<close>.
\<close>

definition pool :: "ptr \<Rightarrow> nat \<Rightarrow> u64 \<Rightarrow> bool" where
  "pool begin k root \<longleftrightarrow> k < 52 \<and> unat root = 2 ^ k \<and> unat begin + 2 ^ k * 4096 \<le> 18446744073709551616"

definition block_addr :: "ptr \<Rightarrow> nat \<Rightarrow> nat \<Rightarrow> nat \<Rightarrow> nat" where
  "block_addr begin k l i = unat begin + i * 2 ^ (k - l) * 4096"

lemma unat_block_size:
  assumes "pool begin k root" "l \<le> k"
  shows "unat (block_size (of_nat l) root) = 2 ^ (k - l)"
  using assms by (simp add: pool_def block_size_def unat_of_nat64 unat_drop_bit64 power_diff)

lemma block_inside:
  assumes "l \<le> k" "i < 2 ^ l"
  shows "i * 2 ^ (k - l) + 2 ^ (k - l) \<le> (2 :: nat) ^ k"
proof -
  have "Suc i * 2 ^ (k - l) \<le> (2 :: nat) ^ l * 2 ^ (k - l)" using assms(2) by (intro mult_right_mono) auto
  also have "\<dots> = 2 ^ k" using assms(1) by (simp flip: power_add)
  finally show ?thesis by (simp add: algebra_simps)
qed

lemma pool_pow: "pool begin k root \<Longrightarrow> (2 :: nat) ^ k \<le> 2251799813685248"
  using power_increasing [of k 51 "2 :: nat"] by (simp add: pool_def)

lemma pool_index:
  assumes "pool begin k root" "l \<le> k" "(i :: nat) < 2 ^ l"
  shows "i < 2251799813685248" "unat (of_nat i :: u64) = i"
proof -
  have "(2::nat) ^ l \<le> 2 ^ k" using assms(2) by (intro power_increasing) auto
  then show "i < 2251799813685248" using assms(3) pool_pow [OF assms(1)] by linarith
  then show "unat (of_nat i :: u64) = i" by (intro unat_of_nat64) simp
qed

lemma unat_to_pointer:
  assumes "pool begin k root" "l \<le> k" "i < 2 ^ l"
  shows "unat (to_pointer begin (of_nat l) (of_nat i) root) = block_addr begin k l i"
proof -
  let ?n = "i * 2 ^ (k - l)"
  have in_pool: "?n < 2 ^ k" "?n + 1 \<le> 2 ^ k"
  proof -
    have "(0::nat) < 2 ^ (k - l)" by simp
    then have "i * 2 ^ (k - l) < 2 ^ k" using block_inside [OF assms(2,3)] by linarith
    then show "?n < 2 ^ k" "?n + 1 \<le> 2 ^ k" by (simp_all add: mult.commute Suc_le_eq)
  qed
  have k: "(2::nat) ^ k \<le> 2251799813685248" by (rule pool_pow [OF assms(1)])
  have le: "unat begin + 2 ^ k * 4096 \<le> 18446744073709551616" using assms(1) by (simp add: pool_def)
  have n: "unat (block_size (of_nat l) root * of_nat i) = ?n"
    using in_pool k
    by (subst unat_mult64) (simp_all add: unat_block_size [OF assms(1,2)] pool_index(2) [OF assms] mult.commute)
  have n4: "unat (block_size (of_nat l) root * of_nat i * 4096) = ?n * 4096"
    using in_pool k by (subst unat_mult64) (simp_all only: n unat_numeral, simp_all)
  have "unat begin + ?n * 4096 < 18446744073709551616" using in_pool le by linarith
  then show ?thesis
    by (simp add: to_pointer_def PAGE_SIZE_def unat_add64 n4 block_addr_def)
qed

text \<open>A pointer anywhere into a block has that block's index on that block's layer.\<close>

lemma to_index_inside:
  assumes "pool begin k root" "l \<le> k" "unat p = block_addr begin k l i + off"
    and "off < 2 ^ (k - l) * 4096"
  shows "to_index begin (of_nat l) p root = Some (of_nat i)"
proof -
  have bs: "unat (block_size (of_nat l) root) = 2 ^ (k - l)" using assms(1,2) by (rule unat_block_size)
  then have "block_size (of_nat l) root \<noteq> 0" by (auto simp: unat_eq_0 [symmetric] simp del: unat_eq_0)
  moreover have "unat (p - begin) = i * 2 ^ (k - l) * 4096 + off"
    using assms(3) by (subst unat_sub64) (simp_all add: block_addr_def)
  then have "unat ((p - begin) div block_size (of_nat l) root div 4096)
      = (i * 2 ^ (k - l) * 4096 + off) div 2 ^ (k - l) div 4096"
    by (simp add: unat_div bs)
  moreover have "(i * 2 ^ (k - l) * 4096 + off) div 2 ^ (k - l) div 4096 = i"
  proof -
    have "(i * 2 ^ (k - l) * 4096 + off) div 2 ^ (k - l) div 4096
        = (i * (2 ^ (k - l) * 4096) + off) div (2 ^ (k - l) * 4096)"
      by (simp only: div_mult2_eq mult.assoc)
    also have "\<dots> = i" using assms(4) by (subst div_mult_self3) (auto simp: add.commute)
    finally show ?thesis .
  qed
  ultimately have "to_index begin (of_nat l) p root = Some x \<and> unat x = i"
    if "x = (p - begin) div block_size (of_nat l) root div 4096" for x
    using that by (simp add: to_index_def PAGE_SIZE_def)
  then show ?thesis by (metis of_nat_unat ucast_id)
qed

text \<open>
  \<open>to_index\<close> inverts \<open>to_pointer\<close> on every layer of a pool, and also finds the block of every
  address inside it.
\<close>

theorem to_index_to_pointer:
  assumes "pool begin k root" "l \<le> k" "i < 2 ^ l" "off < 2 ^ (k - l) * 4096"
  shows "to_index begin (of_nat l) (to_pointer begin (of_nat l) (of_nat i) root + of_nat off) root
    = Some (of_nat i)"
proof -
  have "block_addr begin k l i + off < 18446744073709551616"
    using block_inside [OF assms(2,3)] assms(1,4) by (simp add: block_addr_def pool_def algebra_simps)
  then have "unat (to_pointer begin (of_nat l) (of_nat i) root + of_nat off) = block_addr begin k l i + off"
    using unat_to_pointer [OF assms(1-3)] by (subst unat_add_of_nat) auto
  then show ?thesis using assms(1,2,4) by (intro to_index_inside) auto
qed

theorem to_index_to_pointer_witness:
  "to_index 4096 2 (to_pointer 4096 2 3 16 + 100) 16 = Some 3"
  using to_index_to_pointer [of 4096 4 16 2 3 100] by (simp add: pool_def)

subsection \<open>The layer chosen for a request\<close>

lemma best_fit_layer_quotient:
  assumes "pool begin k root" "pages \<noteq> 0"
  obtains L where "best_fit_layer pages root = Some (of_nat L)" "L \<le> k"
    "2 ^ k div unat pages \<le> 2 ^ L" "L = 0 \<or> 2 ^ (L - 1) < 2 ^ k div unat pages"
proof -
  let ?q = "2 ^ k div unat pages"
  have q: "unat (root div pages) = ?q" using assms(1) by (simp add: unat_div pool_def)
  have qk: "?q \<le> 2 ^ k" by simp
  define L where "L = (LEAST p. ?q \<le> 2 ^ p)"
  have 1: "?q \<le> 2 ^ L" unfolding L_def using qk by (rule LeastI)
  have 2: "L \<le> k" unfolding L_def using qk by (rule Least_le)
  have 3: "L = 0 \<or> 2 ^ (L - 1) < ?q"
    using not_less_Least [of "L - 1" "\<lambda>p. ?q \<le> 2 ^ p"] by (cases "L = 0") (auto simp: L_def)
  have "log2_upper (root div pages) = Some (of_nat L)"
    using 1 2 3 assms(1) by (intro log2_upper_eq) (simp_all add: q pool_def)
  then have "best_fit_layer pages root = Some (of_nat L)"
    using assms(2) by (simp add: best_fit_layer_def)
  with 1 2 3 that show ?thesis by blast
qed

lemma fits_iff:
  assumes "L \<le> k" "0 < (p :: nat)"
  shows "p \<le> 2 ^ (k - L) \<longleftrightarrow> 2 ^ L \<le> 2 ^ k div p"
proof -
  have "(2::nat) ^ k = 2 ^ L * 2 ^ (k - L)" using assms(1) by (simp flip: power_add)
  then have "2 ^ L * p \<le> 2 ^ k \<longleftrightarrow> p \<le> 2 ^ (k - L)" by simp
  then show ?thesis using assms(2) by (simp add: less_eq_div_iff_mult_less_eq)
qed

text \<open>
  For a request of at most the pool, \<open>best_fit_layer\<close> returns a layer whose blocks are large
  enough exactly when the quotient of the pool and the request is a power of two (every request
  of a power of two is such a case), and whose blocks are always more than half the request.
\<close>

theorem best_fit_layer_fits:
  assumes "pool begin k root" "pages \<noteq> 0" "unat pages \<le> 2 ^ k"
  shows "\<exists>L\<le>k. best_fit_layer pages root = Some (of_nat L)
    \<and> (unat pages \<le> unat (block_size (of_nat L) root) \<longleftrightarrow> (\<exists>e. 2 ^ k div unat pages = 2 ^ e))
    \<and> unat pages < 2 * unat (block_size (of_nat L) root)"
proof -
  let ?q = "2 ^ k div unat pages"
  obtain L where L: "best_fit_layer pages root = Some (of_nat L)" "L \<le> k"
    "?q \<le> 2 ^ L" "L = 0 \<or> 2 ^ (L - 1) < ?q"
    using best_fit_layer_quotient [OF assms(1,2)] by blast
  have p: "0 < unat pages" using assms(2) by (simp add: unat_gt_0)
  then have q1: "1 \<le> ?q" using assms(3) by (simp add: less_eq_div_iff_mult_less_eq)
  have fit: "unat pages \<le> 2 ^ (k - L) \<longleftrightarrow> ?q = 2 ^ L"
    using fits_iff [OF L(2) p] L(3) by linarith
  have "?q = 2 ^ L" if "?q = 2 ^ e" for e
  proof (cases "L = 0")
    case True
    then show ?thesis using L(3) q1 by simp
  next
    case False
    then have "(2::nat) ^ (L - 1) < 2 ^ e" using L(4) that by simp
    then have "L - 1 < e" by (rule power_less_imp_less_exp [rotated]) simp
    then have "(2::nat) ^ L \<le> 2 ^ e" using False by (intro power_increasing) auto
    then show ?thesis using L(3) that by simp
  qed
  then have pow: "?q = 2 ^ L \<longleftrightarrow> (\<exists>e. ?q = 2 ^ e)" by blast
  have "unat pages < 2 * 2 ^ (k - L)"
  proof (cases "L = 0")
    case True
    then show ?thesis using assms(3) p by simp
  next
    case False
    have "unat pages * 2 ^ (L - 1) < unat pages * ?q" using False L(4) p by simp
    also have "\<dots> \<le> 2 ^ k" by simp
    also have "(2::nat) ^ k = 2 * 2 ^ (k - L) * 2 ^ (L - 1)"
      using False L(2) by (simp flip: power_add power_Suc)
    finally show ?thesis by simp
  qed
  then show ?thesis using L(1) fit pow
    by (intro exI [of _ L]) (simp only: unat_block_size [OF assms(1) L(2)] L(2) simp_thms)
qed

theorem best_fit_layer_fits_witness:
  "\<exists>L\<le>4. best_fit_layer 5 16 = Some (of_nat L)
    \<and> (unat (5 :: u64) \<le> unat (block_size (of_nat L) 16) \<longleftrightarrow> (\<exists>e. 2 ^ 4 div unat (5 :: u64) = 2 ^ e))
    \<and> unat (5 :: u64) < 2 * unat (block_size (of_nat L) 16)"
  by (rule best_fit_layer_fits [of 0]) (simp_all add: pool_def)

lemma best_fit_power_of_two:
  assumes "pool begin k root" "unat pages = 2 ^ j" "j \<le> k"
  shows "best_fit_layer pages root = Some (of_nat (k - j))"
proof -
  have "pages \<noteq> 0" using assms(2) by (auto simp: unat_eq_0 [symmetric] simp del: unat_eq_0)
  moreover have "unat (root div pages) = 2 ^ (k - j)"
    using assms by (simp add: unat_div pool_def power_diff)
  then have "log2_upper (root div pages) = Some (of_nat (k - j))"
    using assms(1) by (intro log2_upper_eq) (auto simp: pool_def)
  ultimately show ?thesis by (simp add: best_fit_layer_def)
qed

text \<open>
  The quotient is rounded the wrong way for other requests: in every pool of at least 16 pages
  a request of three pages is served from the layer of two-page blocks, and a request larger than
  the pool is served with the whole pool instead of being refused.
\<close>

theorem best_fit_layer_too_small:
  assumes "pool begin k root" "4 \<le> k"
  shows "best_fit_layer 3 root = Some (of_nat (k - 1))
    \<and> unat (block_size (of_nat (k - 1)) root) = 2
    \<and> (\<forall>pages. root < pages \<longrightarrow>
         best_fit_layer pages root = Some 0 \<and> block_size 0 root < pages)"
proof (intro conjI allI impI)
  obtain n where k: "k = n + 4" using assms(2) by (metis add.commute le_add_diff_inverse)
  have n: "(0::nat) < 2 ^ n" by simp
  have q: "unat (root div 3) = 2 ^ k div 3" using assms(1) by (simp add: unat_div pool_def)
  have "best_fit_layer 3 root = log2_upper (root div 3)" by (simp add: best_fit_layer_def)
  also have "\<dots> = Some (of_nat (k - 1))"
  proof (rule log2_upper_eq)
    show "unat (root div 3) \<le> 2 ^ (k - 1)" unfolding q by (simp add: k power_add)
    show "k - 1 < 64" using assms(1) unfolding pool_def by linarith
    have "4 * 2 ^ n < 16 * 2 ^ n div (3 :: nat)" using n by linarith
    then show "k - 1 = 0 \<or> 2 ^ (k - 1 - 1) < unat (root div 3)" unfolding q by (simp add: k power_add)
  qed
  finally show "best_fit_layer 3 root = Some (of_nat (k - 1))" .
  show "unat (block_size (of_nat (k - 1)) root) = 2"
    using unat_block_size [OF assms(1), of "k - 1"] assms(2) by simp
  fix pages assume p: "root < pages"
  then have "unat (root div pages) = 0" by (simp add: unat_div word_less_nat_alt)
  then have "log2_upper (root div pages) = Some (of_nat 0)" by (intro log2_upper_eq) auto
  moreover have "pages \<noteq> 0" using p by auto
  ultimately show "best_fit_layer pages root = Some 0" by (simp add: best_fit_layer_def)
  show "block_size 0 root < pages" using p by (simp add: block_size_def)
qed

theorem best_fit_layer_too_small_witness:
  "best_fit_layer 3 16 = Some 3 \<and> unat (block_size 3 16) = 2
    \<and> best_fit_layer 17 16 = Some 0 \<and> block_size 0 16 < 17"
  using best_fit_layer_too_small [of 0 4 16] by (simp add: pool_def)

end
