(* ===== verification/Buddy.thy ===== *)
theory Buddy
  imports Buddy_Util Freelist
begin

section \<open>The buddy allocator (buddy.h, buddy.c, pfalloc.c)\<close>

text \<open>
  The allocator of blocks of \<open>2 ^ j\<close> pages. Its state lives in the memory it manages: the struct
  \<open>buddy_alloc_t\<close> at the start, then the array of the free-list heads, one 64-bit cell per layer,
  then the bitmap, then, from the next page on, the pool. Every access of the C code through a
  pointer is a load or store of \<open>mem\<close> here, so that an index beyond one of the arrays reads and
  writes what really lies behind it. A result \<open>None\<close> is undefined behaviour (a division by zero
  or a shift by 64).
\<close>

subsection \<open>The state\<close>

record buddy_alloc_t =
  bitmap :: ptr
  freelist :: ptr
  buddy_layers :: u64
  blocks_count :: u64
  root_block_size :: u64
  pool_begin :: ptr

text \<open>The struct has six 8-byte fields, in this order.\<close>

definition sizeof_buddy_alloc_t :: u64 where "sizeof_buddy_alloc_t = 48"
definition sizeof_freelist_t :: u64 where "sizeof_freelist_t = 8"

definition load_buddy :: "mem \<Rightarrow> ptr \<Rightarrow> buddy_alloc_t" where
  "load_buddy m alloc =
     \<lparr> bitmap = rd64 m alloc, freelist = rd64 m (alloc + 8), buddy_layers = rd64 m (alloc + 16),
       blocks_count = rd64 m (alloc + 24), root_block_size = rd64 m (alloc + 32),
       pool_begin = rd64 m (alloc + 40) \<rparr>"

text \<open>\<open>&alloc->freelist[layer]\<close>\<close>

definition head_cell :: "mem \<Rightarrow> ptr \<Rightarrow> u64 \<Rightarrow> ptr" where
  "head_cell m alloc layer = freelist (load_buddy m alloc) + sizeof_freelist_t * layer"

subsection \<open>Initialisation\<close>

definition buddy_update_params :: "mem \<Rightarrow> ptr \<Rightarrow> ptr \<Rightarrow> ptr \<Rightarrow> mem option" where
  "buddy_update_params m alloc b e =
     (let m1 = wr64 m (alloc + 24) (pages_count b e) in
      case max_lower_power_of_2 (blocks_count (load_buddy m1 alloc)) of
        None \<Rightarrow> None
      | Some r \<Rightarrow>
          (let m2 = wr64 m1 (alloc + 32) r in
           case log2_upper (blocks_count (load_buddy m2 alloc)) of
             None \<Rightarrow> None
           | Some n \<Rightarrow> Some (wr64 m2 (alloc + 16) n)))"

definition buddy_init :: "mem \<Rightarrow> ptr \<Rightarrow> ptr \<Rightarrow> (ptr \<times> mem) option" where
  "buddy_init m b e =
     (if pages_count b e < 16 then Some (NULL, m)
      else
        let alloc = b;
            b1 = b + sizeof_buddy_alloc_t
        in case buddy_update_params m alloc b1 e of
             None \<Rightarrow> None
           | Some m1 \<Rightarrow>
               let m2 = wr64 m1 (alloc + 8) b1;
                   b2 = b1 + buddy_layers (load_buddy m2 alloc) * sizeof_freelist_t;
                   m3 = wr64 m2 alloc b2;
                   b3 = b2 + buddy_bitmap_size (blocks_count (load_buddy m3 alloc));
                   b4 = align_addr_to_page_size_up b3;
                   e' = align_addr_to_page_size_down e
               in case buddy_update_params m3 alloc b4 e' of
                    None \<Rightarrow> None
                  | Some m4 \<Rightarrow>
                      let m5 = memset m4 (freelist (load_buddy m4 alloc)) 0
                                 (unat (buddy_layers (load_buddy m4 alloc) * sizeof_freelist_t));
                          m6 = memset m5 (bitmap (load_buddy m5 alloc)) 0xFF
                                 (unat (buddy_bitmap_size (blocks_count (load_buddy m5 alloc))));
                          m7 = freelist_push m6 (head_cell m6 alloc 0) b4;
                          m8 = buddy_unset m7 (bitmap (load_buddy m7 alloc)) 0 0
                      in Some (alloc, wr64 m8 (alloc + 40) b4))"

subsection \<open>Allocation\<close>

text \<open>\<open>while (layer > 0 && freelist_get(alloc->freelist[layer]) == NULL) layer -= 1\<close>\<close>

function find_layer :: "mem \<Rightarrow> ptr \<Rightarrow> u64 \<Rightarrow> u64" where
  "find_layer m alloc layer =
     (if 0 < layer \<and> freelist_get (rd64 m (head_cell m alloc layer)) = NULL
      then find_layer m alloc (layer - 1)
      else layer)"
  by pat_completeness auto
termination
  by (relation "measure (\<lambda>(m, alloc, layer). unat layer)") (auto intro: measure_unat)

text \<open>The loop that splits the block down to the layer of the request.\<close>

function split_loop :: "mem \<Rightarrow> ptr \<Rightarrow> u64 \<Rightarrow> u64 \<Rightarrow> u64 \<Rightarrow> mem" where
  "split_loop m alloc layer bf_layer index =
     (if layer < bf_layer then
        let m1 = buddy_set m (bitmap (load_buddy m alloc)) layer index;
            layer' = layer + 1;
            index' = index * 2;
            m2 = buddy_unset m1 (bitmap (load_buddy m1 alloc)) layer' index';
            m3 = buddy_set m2 (bitmap (load_buddy m2 alloc)) layer' (index' + 1);
            freed = to_pointer (pool_begin (load_buddy m3 alloc)) layer' (index' + 1)
                      (root_block_size (load_buddy m3 alloc));
            m4 = freelist_push m3 (head_cell m3 alloc layer') freed
        in split_loop m4 alloc layer' bf_layer index'
      else m)"
  by pat_completeness auto
termination
proof (relation "measure (\<lambda>(m, alloc, layer, bf_layer, index). unat bf_layer - unat layer)", goal_cases)
  case 1
  show ?case by simp
next
  case (2 m alloc layer bf_layer index)
  then have "unat layer < unat bf_layer" by (simp add: word_less_nat_alt)
  moreover from this have "unat (layer + 1) = unat layer + 1"
    using unat_lt64 [of bf_layer] by (intro unat_add_one) linarith
  ultimately show ?case using 2 by simp
qed

declare find_layer.simps [simp del] split_loop.simps [simp del]

definition buddy_alloc :: "mem \<Rightarrow> ptr \<Rightarrow> u64 \<Rightarrow> (ptr \<times> mem) option" where
  "buddy_alloc m alloc pages =
     (case best_fit_layer pages (root_block_size (load_buddy m alloc)) of
        None \<Rightarrow> None
      | Some bf_layer \<Rightarrow>
          let layer = find_layer m alloc bf_layer;
              (p, m1) = freelist_pop m (head_cell m alloc layer)
          in if p = NULL then Some (NULL, m1)
             else case to_index (pool_begin (load_buddy m1 alloc)) layer p
                         (root_block_size (load_buddy m1 alloc)) of
                    None \<Rightarrow> None
                  | Some index \<Rightarrow> Some (p, split_loop m1 alloc layer bf_layer index))"

subsection \<open>Release\<close>

text \<open>
  \<open>layer\<close> and \<open>index\<close> are of type \<open>int\<close> here, and are converted back to \<open>size_t\<close> at
  every call.
\<close>

function climb_loop :: "mem \<Rightarrow> ptr \<Rightarrow> int \<Rightarrow> int \<Rightarrow> int \<times> int" where
  "climb_loop m alloc layer index =
     (if 0 < layer \<and> buddy_get m (bitmap (load_buddy m alloc)) (size_of_int layer) (size_of_int index)
      then climb_loop m alloc (layer - 1) (index sdiv 2)
      else (layer, index))"
  by pat_completeness auto
termination
  by (relation "measure (\<lambda>(m, alloc, layer, index). nat layer)") auto

function merge_loop :: "mem \<Rightarrow> ptr \<Rightarrow> int \<Rightarrow> int \<Rightarrow> mem \<times> int \<times> int" where
  "merge_loop m alloc layer index =
     (if 0 < layer
         \<and> \<not> buddy_get m (bitmap (load_buddy m alloc)) (size_of_int layer) (size_of_int (index XOR 1))
      then
        let m1 = buddy_set m (bitmap (load_buddy m alloc)) (size_of_int layer) (size_of_int index);
            m2 = buddy_set m1 (bitmap (load_buddy m1 alloc)) (size_of_int layer) (size_of_int (index XOR 1));
            layer' = layer - 1;
            index' = index sdiv 2;
            m3 = buddy_unset m2 (bitmap (load_buddy m2 alloc)) (size_of_int layer') (size_of_int index')
        in merge_loop m3 alloc layer' index'
      else (m, layer, index))"
  by pat_completeness auto
termination
  by (relation "measure (\<lambda>(m, alloc, layer, index). nat layer)") auto

declare climb_loop.simps [simp del] merge_loop.simps [simp del]

definition buddy_free :: "mem \<Rightarrow> ptr \<Rightarrow> ptr \<Rightarrow> mem option" where
  "buddy_free m alloc p =
     (let layer = int_of_size (buddy_layers (load_buddy m alloc) - 1) in
      case to_index (pool_begin (load_buddy m alloc)) (size_of_int layer) p
             (root_block_size (load_buddy m alloc)) of
        None \<Rightarrow> None
      | Some ix \<Rightarrow>
          let index = int_of_size ix;
              (layer, index) = climb_loop m alloc layer index;
              m1 = buddy_unset m (bitmap (load_buddy m alloc)) (size_of_int layer) (size_of_int index);
              (m2, layer, index) = merge_loop m1 alloc layer index;
              p' = to_pointer (pool_begin (load_buddy m2 alloc)) (size_of_int layer) (size_of_int index)
                     (root_block_size (load_buddy m2 alloc))
          in Some (freelist_push m2 (head_cell m2 alloc (size_of_int layer)) p'))"

subsection \<open>The global instance (pfalloc.c)\<close>

text \<open>\<open>global_buddy\<close> is the first component of the state.\<close>

type_synonym pf_state = "ptr \<times> mem"

definition pfalloc_init :: "mem \<Rightarrow> ptr \<Rightarrow> u64 \<Rightarrow> pf_state option" where
  "pfalloc_init m b pool_size = buddy_init m b (b + pool_size)"

definition get_pfalloc_buddy :: "pf_state \<Rightarrow> ptr" where
  "get_pfalloc_buddy s = fst s"

definition pfalloc :: "pf_state \<Rightarrow> u64 \<Rightarrow> (ptr \<times> pf_state) option" where
  "pfalloc s pages =
     (if fst s = NULL then Some (NULL, s)
      else map_option (\<lambda>(p, m). (p, (fst s, m))) (buddy_alloc (snd s) (fst s) pages))"

definition pffree :: "pf_state \<Rightarrow> ptr \<Rightarrow> pf_state option" where
  "pffree s p =
     (if fst s \<noteq> NULL \<and> p \<noteq> NULL
      then map_option (\<lambda>m. (fst s, m)) (buddy_free (snd s) (fst s) p)
      else Some s)"

end
