(* ===== verification/Buddy_Inv.thy ===== *)
theory Buddy_Inv
  imports Buddy
begin

section \<open>The invariant of the buddy allocator\<close>

text \<open>
  The abstract state of the allocator is a list of free block indices for every layer. The invariant
  says that the struct, the free-list heads, the bitmap and the pool follow one another without
  overlap, that every head cell starts a chain of exactly the free blocks of its layer, and that the
  free blocks are pairwise disjoint. The lemmas say how the elementary writes (a bit, a push, a pop)
  change it.
\<close>

subsection \<open>Blocks as sets of pages\<close>

definition pages_of :: "nat \<Rightarrow> nat \<Rightarrow> nat \<Rightarrow> nat set" where
  "pages_of k l i = {i * 2 ^ (k - l) ..< Suc i * 2 ^ (k - l)}"

type_synonym free_lists = "nat \<Rightarrow> nat list"

definition free_pages :: "nat \<Rightarrow> free_lists \<Rightarrow> nat set" where
  "free_pages k F = (\<Union>l\<le>k. \<Union>i\<in>set (F l). pages_of k l i)"

definition disjoint_from :: "nat \<Rightarrow> free_lists \<Rightarrow> nat \<Rightarrow> nat \<Rightarrow> bool" where
  "disjoint_from k F l i \<longleftrightarrow> pages_of k l i \<inter> free_pages k F = {}"

definition free_ok :: "nat \<Rightarrow> free_lists \<Rightarrow> bool" where
  "free_ok k F \<longleftrightarrow>
     (\<forall>l\<le>k. distinct (F l) \<and> (\<forall>i\<in>set (F l). i < 2 ^ l)) \<and>
     (\<forall>l\<le>k. \<forall>l'\<le>k. \<forall>i\<in>set (F l). \<forall>i'\<in>set (F l').
        (l, i) \<noteq> (l', i') \<longrightarrow> pages_of k l i \<inter> pages_of k l' i' = {})"

lemma pages_of_start [simp]: "i * 2 ^ (k - l) \<in> pages_of k l i"
  by (simp add: pages_of_def)

lemma pages_of_nonempty [simp]: "pages_of k l i \<noteq> {}"
  using pages_of_start by blast

lemma pages_of_children:
  assumes "l < k"
  shows "pages_of k l i = pages_of k (Suc l) (2 * i) \<union> pages_of k (Suc l) (2 * i + 1)"
    and "pages_of k (Suc l) (2 * i) \<inter> pages_of k (Suc l) (2 * i + 1) = {}"
proof -
  have e: "(2::nat) ^ (k - l) = 2 * 2 ^ (k - Suc l)"
    using assms by (metis Suc_diff_Suc power_Suc)
  show "pages_of k l i = pages_of k (Suc l) (2 * i) \<union> pages_of k (Suc l) (2 * i + 1)"
    unfolding pages_of_def e by auto
  show "pages_of k (Suc l) (2 * i) \<inter> pages_of k (Suc l) (2 * i + 1) = {}"
    unfolding pages_of_def by auto
qed

lemma pages_of_bound: "l \<le> k \<Longrightarrow> i < 2 ^ l \<Longrightarrow> pages_of k l i \<subseteq> {..<2 ^ k}"
  using block_inside [of l k i] by (auto simp: pages_of_def)

lemma disjoint_fromD: "disjoint_from k F l i \<Longrightarrow> l' \<le> k \<Longrightarrow> i' \<in> set (F l') \<Longrightarrow>
    pages_of k l i \<inter> pages_of k l' i' = {}"
  by (auto simp: disjoint_from_def free_pages_def)

lemma free_pages_iff: "x \<in> free_pages k F \<longleftrightarrow> (\<exists>l\<le>k. \<exists>i\<in>set (F l). x \<in> pages_of k l i)"
  by (auto simp: free_pages_def)

lemma free_pages_fun_upd:
  assumes "l \<le> k"
  shows "x \<in> free_pages k (F(l := xs)) \<longleftrightarrow>
    (\<exists>i\<in>set xs. x \<in> pages_of k l i) \<or> (\<exists>l'\<le>k. l' \<noteq> l \<and> (\<exists>i\<in>set (F l'). x \<in> pages_of k l' i))"
    (is "?lhs \<longleftrightarrow> ?rhs")
proof
  assume ?lhs
  then obtain l' i where b: "l' \<le> k" "i \<in> set ((F(l := xs)) l')" "x \<in> pages_of k l' i"
    unfolding free_pages_iff by blast
  then show ?rhs by (cases "l' = l") auto
next
  assume ?rhs
  then show ?lhs
  proof
    assume "\<exists>i\<in>set xs. x \<in> pages_of k l i"
    then show ?thesis unfolding free_pages_iff using assms by (intro exI [of _ l]) simp
  next
    assume "\<exists>l'\<le>k. l' \<noteq> l \<and> (\<exists>i\<in>set (F l'). x \<in> pages_of k l' i)"
    then obtain l' where "l' \<le> k" "l' \<noteq> l" "\<exists>i\<in>set (F l'). x \<in> pages_of k l' i" by blast
    then show ?thesis unfolding free_pages_iff by (intro exI [of _ l']) simp
  qed
qed

lemma free_pages_split:
  "l \<le> k \<Longrightarrow> x \<in> free_pages k F \<longleftrightarrow>
    (\<exists>i\<in>set (F l). x \<in> pages_of k l i) \<or> (\<exists>l'\<le>k. l' \<noteq> l \<and> (\<exists>i\<in>set (F l'). x \<in> pages_of k l' i))"
  using free_pages_fun_upd [of l k x F "F l"] by simp

lemma free_pages_upd:
  "l \<le> k \<Longrightarrow> free_pages k (F(l := i # F l)) = pages_of k l i \<union> free_pages k F"
  by (rule set_eqI) (auto simp: free_pages_fun_upd free_pages_split [of l k _ F])

lemma free_ok_disjoint:
  "free_ok k F \<Longrightarrow> l \<le> k \<Longrightarrow> l' \<le> k \<Longrightarrow> i \<in> set (F l) \<Longrightarrow> i' \<in> set (F l') \<Longrightarrow> (l, i) \<noteq> (l', i') \<Longrightarrow>
     pages_of k l i \<inter> pages_of k l' i' = {}"
  unfolding free_ok_def by blast

lemma free_ok_valid: "free_ok k F \<Longrightarrow> l \<le> k \<Longrightarrow> distinct (F l) \<and> (\<forall>i\<in>set (F l). i < 2 ^ l)"
  unfolding free_ok_def by blast

lemma free_pages_pop:
  assumes "l \<le> k" "F l = i # js" "free_ok k F"
  shows "free_pages k F = pages_of k l i \<union> free_pages k (F(l := js))"
    and "disjoint_from k (F(l := js)) l i"
proof -
  show "free_pages k F = pages_of k l i \<union> free_pages k (F(l := js))"
    using assms(1,2) by (intro set_eqI) (auto simp: free_pages_fun_upd free_pages_split [of l k _ F])
  show "disjoint_from k (F(l := js)) l i"
    unfolding disjoint_from_def free_pages_def
  proof (intro equals0I)
    fix x assume x: "x \<in> pages_of k l i \<inter> (\<Union>l'\<le>k. \<Union>i'\<in>set ((F(l := js)) l'). pages_of k l' i')"
    then obtain l' i' where b: "l' \<le> k" "i' \<in> set ((F(l := js)) l')" "x \<in> pages_of k l' i'" by auto
    have "(l, i) \<noteq> (l', i')" "i' \<in> set (F l')"
      using b(2) assms by (auto simp: free_ok_def split: if_splits dest!: spec [of _ l])
    with free_ok_disjoint [OF assms(3,1) b(1), of i i'] assms(2) b(3) x show False by auto
  qed
qed

lemma free_ok_push:
  assumes "free_ok k F" "l \<le> k" "i < 2 ^ l" "disjoint_from k F l i"
  shows "free_ok k (F(l := i # F l))"
proof -
  have "i \<notin> set (F l)"
    using disjoint_fromD [OF assms(4,2), of i] by auto
  moreover have "pages_of k l1 i1 \<inter> pages_of k l2 i2 = {}"
    if "l1 \<le> k" "l2 \<le> k" "i1 \<in> set ((F(l := i # F l)) l1)" "i2 \<in> set ((F(l := i # F l)) l2)"
      "(l1, i1) \<noteq> (l2, i2)" for l1 l2 i1 i2
  proof -
    have "l1 = l \<and> i1 = i \<or> i1 \<in> set (F l1)" "l2 = l \<and> i2 = i \<or> i2 \<in> set (F l2)"
      using that(3,4) by (auto split: if_splits)
    then show ?thesis
      using that assms(1) disjoint_fromD [OF assms(4)] unfolding free_ok_def
      by (metis Int_commute)
  qed
  ultimately show ?thesis using assms(1-3) unfolding free_ok_def by auto
qed

lemma free_ok_pop:
  assumes "free_ok k F" "l \<le> k" "F l = i # js"
  shows "free_ok k (F(l := js))"
proof -
  have sub: "set ((F(l := js)) l') \<subseteq> set (F l')" for l' using assms(3) by auto
  have "distinct ((F(l := js)) l')" if "l' \<le> k" for l'
    using assms that by (auto simp: free_ok_def dest: spec [of _ l])
  with assms(1) sub show ?thesis unfolding free_ok_def by blast
qed

subsection \<open>The layout\<close>

definition bptr :: "mem \<Rightarrow> ptr \<Rightarrow> nat \<Rightarrow> nat \<Rightarrow> ptr" where
  "bptr m alloc l i =
     to_pointer (pool_begin (load_buddy m alloc)) (of_nat l) (of_nat i) (root_block_size (load_buddy m alloc))"

definition buddy_layout :: "mem \<Rightarrow> ptr \<Rightarrow> nat \<Rightarrow> bool" where
  "buddy_layout m alloc k \<longleftrightarrow>
     (let a = load_buddy m alloc in
      2 \<le> k \<and> alloc \<noteq> NULL
      \<and> unat alloc + 48 \<le> unat (freelist a)
      \<and> unat (freelist a) + 8 * Suc k \<le> unat (bitmap a)
      \<and> unat (bitmap a) + 2 ^ (k - 2) \<le> unat (pool_begin a)
      \<and> pool (pool_begin a) k (root_block_size a))"

definition buddy_inv :: "mem \<Rightarrow> ptr \<Rightarrow> nat \<Rightarrow> free_lists \<Rightarrow> bool" where
  "buddy_inv m alloc k F \<longleftrightarrow>
     buddy_layout m alloc k \<and> free_ok k F
     \<and> (\<forall>l\<le>k. chain m (rd64 m (head_cell m alloc (of_nat l))) (map (bptr m alloc l) (F l)))"

lemma layoutD:
  assumes "buddy_layout m alloc k"
  shows "2 \<le> k" "alloc \<noteq> NULL" "unat alloc + 48 \<le> unat (freelist (load_buddy m alloc))"
    "unat (freelist (load_buddy m alloc)) + 8 * Suc k \<le> unat (bitmap (load_buddy m alloc))"
    "unat (bitmap (load_buddy m alloc)) + 2 ^ (k - 2) \<le> unat (pool_begin (load_buddy m alloc))"
    "pool (pool_begin (load_buddy m alloc)) k (root_block_size (load_buddy m alloc))" "k < 52"
  using assms by (auto simp: buddy_layout_def Let_def pool_def)

lemma layout_cong: "load_buddy m' alloc = load_buddy m alloc \<Longrightarrow> buddy_layout m' alloc k = buddy_layout m alloc k"
  by (simp add: buddy_layout_def)

lemma head_cell_cong: "load_buddy m' alloc = load_buddy m alloc \<Longrightarrow> head_cell m' alloc l = head_cell m alloc l"
  by (simp add: head_cell_def)

lemma bptr_cong: "load_buddy m' alloc = load_buddy m alloc \<Longrightarrow> bptr m' alloc l i = bptr m alloc l i"
  by (simp add: bptr_def)

lemma unat_head_cell:
  assumes "buddy_layout m alloc k" "l \<le> k"
  shows "unat (head_cell m alloc (of_nat l)) = unat (freelist (load_buddy m alloc)) + 8 * l"
proof -
  note L = layoutD [OF assms(1)]
  have b: "unat (bitmap (load_buddy m alloc)) < 18446744073709551616" by simp
  have "unat (of_nat (8 * l) :: u64) = 8 * l" using assms(2) L(7) by (intro unat_of_nat64) simp
  then have e: "unat (8 * of_nat l :: u64) = 8 * l" by simp
  have "unat (freelist (load_buddy m alloc)) + 8 * l < 18446744073709551616"
    using L(4) b mult_le_mono2 [OF le_SucI [OF assms(2)], of 8] by linarith
  then show ?thesis by (simp add: head_cell_def sizeof_freelist_t_def unat_add64 e)
qed

lemma head_cell_cell: "buddy_layout m alloc k \<Longrightarrow> l \<le> k \<Longrightarrow> cell (head_cell m alloc (of_nat l))"
  using layoutD [of m alloc k] unat_head_cell [of m alloc k l] unat_lt64 [of "bitmap (load_buddy m alloc)"]
  by (auto simp: cell_def simp flip: unat_eq_0 simp del: unat_lt64)

lemma heads_apart:
  "buddy_layout m alloc k \<Longrightarrow> l \<le> k \<Longrightarrow> l' \<le> k \<Longrightarrow> l \<noteq> l' \<Longrightarrow>
     apart (head_cell m alloc (of_nat l)) (head_cell m alloc (of_nat l'))"
  by (auto simp: apart_def unat_head_cell)

lemma unat_bptr:
  "buddy_layout m alloc k \<Longrightarrow> l \<le> k \<Longrightarrow> i < 2 ^ l \<Longrightarrow>
     unat (bptr m alloc l i) = block_addr (pool_begin (load_buddy m alloc)) k l i"
  unfolding bptr_def by (rule unat_to_pointer) (auto dest: layoutD)

lemma bptr_bounds:
  assumes "buddy_layout m alloc k" "l \<le> k" "i < 2 ^ l"
  shows "unat (pool_begin (load_buddy m alloc)) \<le> unat (bptr m alloc l i)"
    "unat (bptr m alloc l i) + 4096 \<le> unat (pool_begin (load_buddy m alloc)) + 2 ^ k * 4096"
proof -
  show "unat (pool_begin (load_buddy m alloc)) \<le> unat (bptr m alloc l i)"
    using assms by (simp add: unat_bptr block_addr_def)
  have "(1::nat) \<le> 2 ^ (k - l)" by simp
  then have "i * 2 ^ (k - l) + 1 \<le> 2 ^ k" using block_inside [OF assms(2,3)] by linarith
  then show "unat (bptr m alloc l i) + 4096 \<le> unat (pool_begin (load_buddy m alloc)) + 2 ^ k * 4096"
    using assms by (simp add: unat_bptr block_addr_def)
qed

lemma bptr_cell:
  assumes "buddy_layout m alloc k" "l \<le> k" "i < 2 ^ l"
  shows "cell (bptr m alloc l i)" "bptr m alloc l i \<noteq> NULL"
proof -
  note L = layoutD [OF assms(1)] and B = bptr_bounds [OF assms]
  have "(1::nat) \<le> 2 ^ (k - 2)" by simp
  then have "unat (bptr m alloc l i) \<noteq> 0" using L(3-5) B by linarith
  then show "bptr m alloc l i \<noteq> NULL" by auto
  then show "cell (bptr m alloc l i)" using L(6) B by (simp add: cell_def pool_def)
qed

lemma head_bptr_apart:
  assumes "buddy_layout m alloc k" "l \<le> k" "i < 2 ^ l" "l' \<le> k"
  shows "apart (head_cell m alloc (of_nat l')) (bptr m alloc l i)"
  using layoutD(4,5) [OF assms(1)] bptr_bounds(1) [OF assms(1-3)] unat_head_cell [OF assms(1,4)] assms(4)
  by (simp add: apart_def)

lemma bptr_apart:
  assumes "buddy_layout m alloc k" "l \<le> k" "i < 2 ^ l" "l' \<le> k" "i' < 2 ^ l'"
    and "pages_of k l i \<inter> pages_of k l' i' = {}"
  shows "apart (bptr m alloc l i) (bptr m alloc l' i')"
proof -
  have "i * 2 ^ (k - l) \<noteq> i' * 2 ^ (k - l')"
    using assms(6) pages_of_start [of i k l] pages_of_start [of i' k l'] by force
  then have "i * 2 ^ (k - l) + 1 \<le> i' * 2 ^ (k - l') \<or> i' * 2 ^ (k - l') + 1 \<le> i * 2 ^ (k - l)"
    by linarith
  then show ?thesis
    using assms(1-5) by (auto simp: apart_def unat_bptr block_addr_def)
qed

subsection \<open>Elementary writes\<close>

lemma load_buddy_wr64:
  assumes "unat alloc + 48 \<le> unat x" "cell x"
  shows "load_buddy (wr64 m x v) alloc = load_buddy m alloc"
proof -
  have b: "unat x < 18446744073709551616" by simp
  have "rd64 (wr64 m x v) y = rd64 m y" if "unat alloc \<le> unat y" "unat y + 8 \<le> unat alloc + 48" for y
    using that assms b by (intro rd64_wr64_apart) (auto simp: cell_def)
  moreover have "unat (alloc + 8) = unat alloc + 8" "unat (alloc + 16) = unat alloc + 16"
    "unat (alloc + 24) = unat alloc + 24" "unat (alloc + 32) = unat alloc + 32"
    "unat (alloc + 40) = unat alloc + 40"
    using assms(1) b by (auto intro!: unat_add_numeral simp del: unat_lt64)
  ultimately show ?thesis by (simp add: load_buddy_def)
qed

lemma load_buddy_upd:
  assumes "unat alloc + 48 \<le> unat x"
  shows "load_buddy (m(x := c)) alloc = load_buddy m alloc"
proof -
  have b: "unat x < 18446744073709551616" by simp
  have "rd64 (m(x := c)) y = rd64 m y" if "unat alloc \<le> unat y" "unat y + 8 \<le> unat alloc + 48" for y
    using that assms b by (intro rd64_upd_apart) (auto simp: in_region_def simp del: unat_lt64)
  moreover have "unat (alloc + 8) = unat alloc + 8" "unat (alloc + 16) = unat alloc + 16"
    "unat (alloc + 24) = unat alloc + 24" "unat (alloc + 32) = unat alloc + 32"
    "unat (alloc + 40) = unat alloc + 40"
    using assms(1) b by (auto intro!: unat_add_numeral simp del: unat_lt64)
  ultimately show ?thesis by (simp add: load_buddy_def)
qed

text \<open>Anything that keeps the struct, the heads and the nodes of the free blocks keeps the invariant.\<close>

lemma inv_cong:
  assumes "buddy_inv m alloc k F" "load_buddy m' alloc = load_buddy m alloc"
    and "\<And>l. l \<le> k \<Longrightarrow> rd64 m' (head_cell m alloc (of_nat l)) = rd64 m (head_cell m alloc (of_nat l))"
    and "\<And>l i. l \<le> k \<Longrightarrow> i \<in> set (F l) \<Longrightarrow> rd64 m' (bptr m alloc l i) = rd64 m (bptr m alloc l i)"
  shows "buddy_inv m' alloc k F"
proof -
  have "chain m' (rd64 m' (head_cell m' alloc (of_nat l))) (map (bptr m' alloc l) (F l))" if "l \<le> k" for l
  proof -
    have "chain m' (rd64 m (head_cell m alloc (of_nat l))) (map (bptr m alloc l) (F l))"
      using assms(1,4) that by (subst chain_cong [of _ _ m]) (auto simp: buddy_inv_def)
    moreover have "bptr m' alloc l = bptr m alloc l" by (rule ext) (rule bptr_cong [OF assms(2)])
    ultimately show ?thesis using assms(3) that by (simp add: head_cell_cong [OF assms(2)])
  qed
  then show ?thesis using assms(1) by (simp add: buddy_inv_def layout_cong [OF assms(2)])
qed

end
