(* ===== verification/Buddy_Abs.thy ===== *)
theory Buddy_Abs
  imports Buddy_Inv
begin

section \<open>The buddy allocator on free lists and bits\<close>

text \<open>
  The abstract machine that \<open>buddy_alloc\<close> and \<open>buddy_free\<close> implement: a list of free block
  indices and a row of bits for every layer. The blocks that are free or allocated partition the
  pages of the pool, and a bit is clear exactly at the blocks of even index among them. The lemmas
  show what follows from that for each operation.
\<close>

record buddy_abs =
  free_of :: free_lists
  bit_of :: "nat \<Rightarrow> nat \<Rightarrow> bool"

definition put_bit :: "nat \<Rightarrow> nat \<Rightarrow> bool \<Rightarrow> buddy_abs \<Rightarrow> buddy_abs" where
  "put_bit l i b s = s\<lparr>bit_of := (bit_of s)(l := (bit_of s l)(i := b))\<rparr>"

definition push_abs :: "nat \<Rightarrow> nat \<Rightarrow> buddy_abs \<Rightarrow> buddy_abs" where
  "push_abs l i s = s\<lparr>free_of := (free_of s)(l := i # free_of s l)\<rparr>"

definition pop_abs :: "nat \<Rightarrow> buddy_abs \<Rightarrow> buddy_abs" where
  "pop_abs l s = s\<lparr>free_of := (free_of s)(l := tl (free_of s l))\<rparr>"

fun find_abs :: "buddy_abs \<Rightarrow> nat \<Rightarrow> nat" where
  "find_abs s 0 = 0"
| "find_abs s (Suc l) = (if free_of s (Suc l) = [] then find_abs s l else Suc l)"

definition split_step :: "nat \<Rightarrow> nat \<Rightarrow> buddy_abs \<Rightarrow> buddy_abs" where
  "split_step l i s =
     push_abs (Suc l) (2 * i + 1)
       (put_bit (Suc l) (2 * i + 1) True (put_bit (Suc l) (2 * i) False (put_bit l i True s)))"

fun split_abs :: "nat \<Rightarrow> buddy_abs \<Rightarrow> nat \<Rightarrow> nat \<Rightarrow> buddy_abs" where
  "split_abs 0 s l i = s"
| "split_abs (Suc d) s l i = split_abs d (split_step l i s) (Suc l) (2 * i)"

definition alloc_abs :: "buddy_abs \<Rightarrow> nat \<Rightarrow> (nat \<times> buddy_abs) option" where
  "alloc_abs s bf =
     (let l = find_abs s bf in
      case free_of s l of
        [] \<Rightarrow> None
      | i # _ \<Rightarrow> Some (i * 2 ^ (bf - l), split_abs (bf - l) (pop_abs l s) l i))"

fun climb_abs :: "buddy_abs \<Rightarrow> nat \<Rightarrow> nat \<Rightarrow> nat \<times> nat" where
  "climb_abs s 0 i = (0, i)"
| "climb_abs s (Suc l) i = (if bit_of s (Suc l) i then climb_abs s l (i div 2) else (Suc l, i))"

fun merge_abs :: "buddy_abs \<Rightarrow> nat \<Rightarrow> nat \<Rightarrow> buddy_abs \<times> nat \<times> nat" where
  "merge_abs s 0 i = (s, 0, i)"
| "merge_abs s (Suc l) i =
     (if \<not> bit_of s (Suc l) (i XOR 1)
      then merge_abs (put_bit l (i div 2) False (put_bit (Suc l) (i XOR 1) True (put_bit (Suc l) i True s)))
             l (i div 2)
      else (s, Suc l, i))"

definition free_abs :: "nat \<Rightarrow> buddy_abs \<Rightarrow> nat \<Rightarrow> buddy_abs" where
  "free_abs k s j =
     (case climb_abs s k j of (l, i) \<Rightarrow>
      case merge_abs (put_bit l i False s) l i of (s', l', i') \<Rightarrow> push_abs l' i' s')"

subsection \<open>Partitions of the pool into blocks\<close>

type_synonym block = "nat \<times> nat"

abbreviation bpages :: "nat \<Rightarrow> block \<Rightarrow> nat set" where
  "bpages k b \<equiv> pages_of k (fst b) (snd b)"

definition valid_block :: "nat \<Rightarrow> block \<Rightarrow> bool" where
  "valid_block k b \<longleftrightarrow> fst b \<le> k \<and> snd b < 2 ^ fst b"

definition partition_of :: "nat \<Rightarrow> block set \<Rightarrow> bool" where
  "partition_of k B \<longleftrightarrow> (\<forall>b\<in>B. valid_block k b) \<and>
     (\<forall>b\<in>B. \<forall>c\<in>B. b \<noteq> c \<longrightarrow> bpages k b \<inter> bpages k c = {}) \<and>
     (\<Union>b\<in>B. bpages k b) = {..<2 ^ k}"

lemma partition_root: "partition_of k {(0, 0)}"
  by (auto simp: partition_of_def valid_block_def pages_of_def)

lemma partition_disjoint:
  "partition_of k B \<Longrightarrow> b \<in> B \<Longrightarrow> c \<in> B \<Longrightarrow> x \<in> bpages k b \<Longrightarrow> x \<in> bpages k c \<Longrightarrow> b = c"
  unfolding partition_of_def by blast

lemma partition_valid: "partition_of k B \<Longrightarrow> (l, i) \<in> B \<Longrightarrow> l \<le> k \<and> i < 2 ^ l"
  unfolding partition_of_def valid_block_def by fastforce

text \<open>A block and its ancestor share pages, so they cannot both be blocks of a partition.\<close>

lemma pages_of_ancestor:
  assumes "a \<le> l" "l \<le> k"
  shows "pages_of k l i \<subseteq> pages_of k a (i div 2 ^ (l - a))"
proof -
  let ?j = "i div 2 ^ (l - a)"
  have e: "(2::nat) ^ (k - a) = 2 ^ (l - a) * 2 ^ (k - l)" using assms by (simp flip: power_add)
  have "?j * 2 ^ (l - a) \<le> i" by simp
  then have 1: "?j * 2 ^ (k - a) \<le> i * 2 ^ (k - l)"
    unfolding e by (metis mult.assoc mult_le_mono1)
  have "i < Suc ?j * 2 ^ (l - a)"
    using dividend_less_div_times [of "2 ^ (l - a)" i] by simp
  then have "Suc i * 2 ^ (k - l) \<le> Suc ?j * 2 ^ (l - a) * 2 ^ (k - l)"
    by (intro mult_le_mono1) simp
  then have 2: "Suc i * 2 ^ (k - l) \<le> Suc ?j * 2 ^ (k - a)" by (simp only: e mult.assoc)
  show ?thesis unfolding pages_of_def using 1 2 by auto
qed

lemma partition_no_ancestor:
  assumes "partition_of k B" "(l, i) \<in> B" "a < l"
  shows "(a, i div 2 ^ (l - a)) \<notin> B"
proof
  assume "(a, i div 2 ^ (l - a)) \<in> B"
  moreover have "l \<le> k" using partition_valid [OF assms(1,2)] by simp
  ultimately have "(a, i div 2 ^ (l - a)) = (l, i)"
    using assms(3) pages_of_ancestor [of a l k i] pages_of_start [of i k l]
    by (intro partition_disjoint [OF assms(1) _ assms(2), of _ "i * 2 ^ (k - l)"]) auto
  with assms(3) show False by simp
qed

lemma partition_split:
  assumes "partition_of k B" "(l, i) \<in> B" "l < k"
  shows "partition_of k (insert (Suc l, 2 * i) (insert (Suc l, 2 * i + 1) (B - {(l, i)})))"
    and "(Suc l, 2 * i) \<notin> B" "(Suc l, 2 * i + 1) \<notin> B"
proof -
  note ch = pages_of_children [OF assms(3), of i]
  have i: "i < 2 ^ l" using partition_valid [OF assms(1,2)] by simp
  have child: "(Suc l, j) \<notin> B" if "j div 2 = i" for j
  proof
    assume "(Suc l, j) \<in> B"
    then have "(l, j div 2 ^ (Suc l - l)) \<notin> B" by (rule partition_no_ancestor [OF assms(1)]) simp
    then show False using that assms(2) by (simp add: Suc_diff_le)
  qed
  show "(Suc l, 2 * i) \<notin> B" "(Suc l, 2 * i + 1) \<notin> B" by (rule child, simp)+
  have rest: "bpages k b \<inter> pages_of k l i = {}" if "b \<in> B - {(l, i)}" for b
  proof (rule equals0I)
    fix x assume "x \<in> bpages k b \<inter> pages_of k l i"
    then have "b = (l, i)" using that by (intro partition_disjoint [OF assms(1) _ assms(2), of b x]) auto
    with that show False by simp
  qed
  have sub: "pages_of k (Suc l) (2 * i) \<subseteq> pages_of k l i" "pages_of k (Suc l) (2 * i + 1) \<subseteq> pages_of k l i"
    using ch(1) by auto
  let ?B = "insert (Suc l, 2 * i) (insert (Suc l, 2 * i + 1) (B - {(l, i)}))"
  have "\<forall>b\<in>?B. valid_block k b"
    using assms i by (auto simp: partition_of_def valid_block_def)
  moreover have "\<forall>b\<in>?B. \<forall>c\<in>?B. b \<noteq> c \<longrightarrow> bpages k b \<inter> bpages k c = {}"
  proof (intro ballI impI)
    fix b c assume "b \<in> ?B" "c \<in> ?B" "b \<noteq> c"
    moreover have "bpages k b \<inter> bpages k c = {}" if "b \<in> B - {(l, i)}" "c \<in> B - {(l, i)}" "b \<noteq> c"
      using assms(1) that unfolding partition_of_def by blast
    ultimately show "bpages k b \<inter> bpages k c = {}"
      using rest sub ch(2) by (elim insertE) (simp_all, blast+)
  qed
  moreover have "(\<Union>b\<in>?B. bpages k b) = {..<2 ^ k}"
  proof -
    have "(\<Union>b\<in>?B. bpages k b) = pages_of k l i \<union> (\<Union>b\<in>B - {(l, i)}. bpages k b)"
      using ch(1) by auto
    also have "\<dots> = (\<Union>b\<in>B. bpages k b)" using assms(2) by force
    finally show ?thesis using assms(1) by (simp add: partition_of_def)
  qed
  ultimately show "partition_of k ?B" unfolding partition_of_def by blast
qed

subsection \<open>The invariant of the machine\<close>

definition free_set :: "buddy_abs \<Rightarrow> block set" where
  "free_set s = {b. snd b \<in> set (free_of s (fst b))}"

definition tree_inv :: "nat \<Rightarrow> buddy_abs \<Rightarrow> block set \<Rightarrow> bool" where
  "tree_inv k s A \<longleftrightarrow>
     (\<forall>l. distinct (free_of s l)) \<and> A \<inter> free_set s = {} \<and> partition_of k (A \<union> free_set s) \<and>
     (\<forall>l\<le>k. \<forall>i<2 ^ l. bit_of s l i \<longleftrightarrow> \<not> ((l, i) \<in> A \<union> free_set s \<and> even i))"

definition init_abs :: buddy_abs where
  "init_abs = \<lparr>free_of = (\<lambda>_. [])(0 := [0]), bit_of = (\<lambda>_ _. True)(0 := (\<lambda>_. True)(0 := False))\<rparr>"

lemma tree_inv_init: "tree_inv k init_abs {}"
proof -
  have "free_set init_abs = {(0, 0)}" by (auto simp: free_set_def init_abs_def split: if_splits)
  then show ?thesis using partition_root by (auto simp: tree_inv_def init_abs_def)
qed

lemma tree_invD:
  assumes "tree_inv k s A"
  shows "distinct (free_of s l)" "A \<inter> free_set s = {}" "partition_of k (A \<union> free_set s)"
    "l \<le> k \<Longrightarrow> i < 2 ^ l \<Longrightarrow> bit_of s l i \<longleftrightarrow> \<not> ((l, i) \<in> A \<union> free_set s \<and> even i)"
  using assms by (auto simp: tree_inv_def)

lemma tree_inv_free_ok:
  assumes "tree_inv k s A"
  shows "free_ok k (free_of s)"
proof -
  note P = tree_invD(3) [OF assms]
  have in_free: "(l, i) \<in> A \<union> free_set s" if "i \<in> set (free_of s l)" for l i
    using that by (simp add: free_set_def)
  have "pages_of k l i \<inter> pages_of k l' i' = {}"
    if "i \<in> set (free_of s l)" "i' \<in> set (free_of s l')" "(l, i) \<noteq> (l', i')" for l l' i i'
    using partition_disjoint [OF P in_free in_free, OF that(1,2)] that(3) by auto
  moreover have "i < 2 ^ l" if "i \<in> set (free_of s l)" for l i
    using partition_valid [OF P in_free [OF that]] by simp
  ultimately show ?thesis using tree_invD(1) [OF assms] by (auto simp: free_ok_def)
qed

subsection \<open>Allocation\<close>

lemma find_abs_le: "find_abs s bf \<le> bf"
  by (induction bf) auto

lemma find_abs_none: "free_of s (find_abs s bf) = [] \<Longrightarrow> l \<le> bf \<Longrightarrow> free_of s l = []"
  by (induction bf) (auto simp: le_Suc_eq split: if_splits)

lemma find_abs_first: "find_abs s bf < l \<Longrightarrow> l \<le> bf \<Longrightarrow> free_of s l = []"
  by (induction bf) (auto simp: le_Suc_eq split: if_splits)

lemma tree_inv_pop:
  assumes "tree_inv k s A" "free_of s l = i # js"
  shows "tree_inv k (pop_abs l s) (insert (l, i) A)" "(l, i) \<notin> A"
proof -
  have d: "distinct (i # js)" using tree_invD(1) [OF assms(1), of l] assms(2) by simp
  have f: "free_set s = insert (l, i) (free_set (pop_abs l s))" "(l, i) \<notin> free_set (pop_abs l s)"
    using assms(2) d by (auto simp: free_set_def pop_abs_def split: if_splits)
  have u: "insert (l, i) A \<union> free_set (pop_abs l s) = A \<union> free_set s" using f(1) by auto
  show "(l, i) \<notin> A" using tree_invD(2) [OF assms(1)] f(1) by auto
  have "distinct (free_of (pop_abs l s) l')" for l'
    using tree_invD(1) [OF assms(1), of l'] by (auto simp: pop_abs_def distinct_tl)
  moreover have "insert (l, i) A \<inter> free_set (pop_abs l s) = {}"
    using tree_invD(2) [OF assms(1)] f by auto
  ultimately show "tree_inv k (pop_abs l s) (insert (l, i) A)"
    using assms(1) unfolding tree_inv_def u by (simp add: pop_abs_def)
qed

lemma free_set_push: "free_set (push_abs l i s) = insert (l, i) (free_set s)"
  by (auto simp: free_set_def push_abs_def split: if_splits)

lemma free_set_put_bit [simp]: "free_set (put_bit l i b s) = free_set s"
  by (simp add: free_set_def put_bit_def)

lemma free_of_put_bit [simp]: "free_of (put_bit l i b s) = free_of s"
  by (simp add: put_bit_def)

lemma bit_of_put_bit [simp]:
  "bit_of (put_bit l i b s) l' i' = (if l' = l \<and> i' = i then b else bit_of s l' i')"
  by (simp add: put_bit_def)

lemma tree_inv_split_step:
  assumes "tree_inv k s (insert (l, i) A)" "(l, i) \<notin> A" "l < k"
  shows "tree_inv k (split_step l i s) (insert (Suc l, 2 * i) A)" "(Suc l, 2 * i) \<notin> A"
proof -
  let ?B = "insert (l, i) A \<union> free_set s" and ?s = "split_step l i s"
  note T = tree_invD [OF assms(1)]
  have inB: "(l, i) \<in> ?B" by simp
  note S = partition_split [OF T(3) inB assms(3)]
  have f: "free_set ?s = insert (Suc l, 2 * i + 1) (free_set s)"
    by (simp add: split_step_def free_set_push)
  have u: "insert (Suc l, 2 * i) A \<union> free_set ?s
      = insert (Suc l, 2 * i) (insert (Suc l, 2 * i + 1) (?B - {(l, i)}))"
    using assms(2) T(2) by (auto simp: f)
  show "(Suc l, 2 * i) \<notin> A" using S(2) by simp
  have "2 * i + 1 \<notin> set (free_of s (Suc l))" using S(3) by (simp add: free_set_def)
  then have "distinct (free_of ?s l')" for l'
    using T(1) by (simp add: split_step_def push_abs_def)
  moreover have "insert (Suc l, 2 * i) A \<inter> free_set ?s = {}"
    using T(2) S(2,3) unfolding f by auto
  moreover have "bit_of ?s l' i' \<longleftrightarrow> \<not> ((l', i') \<in> insert (Suc l, 2 * i) A \<union> free_set ?s \<and> even i')"
    if "l' \<le> k" "i' < 2 ^ l'" for l' i'
  proof -
    have "bit_of ?s l' i' \<longleftrightarrow> (if l' = Suc l \<and> i' = 2 * i + 1 then True
        else if l' = Suc l \<and> i' = 2 * i then False else if l' = l \<and> i' = i then True else bit_of s l' i')"
      by (simp add: split_step_def push_abs_def)
    then show ?thesis unfolding u using T(4) [OF that] by auto
  qed
  ultimately show "tree_inv k ?s (insert (Suc l, 2 * i) A)"
    using S(1) unfolding tree_inv_def u by blast
qed

lemma tree_inv_split:
  "tree_inv k s (insert (l, i) A) \<Longrightarrow> (l, i) \<notin> A \<Longrightarrow> l + d \<le> k \<Longrightarrow>
     tree_inv k (split_abs d s l i) (insert (l + d, i * 2 ^ d) A) \<and> (l + d, i * 2 ^ d) \<notin> A"
proof (induction d arbitrary: s l i)
  case (Suc d)
  then have "l < k" by simp
  note S = tree_inv_split_step [OF Suc.prems(1,2) this]
  have "tree_inv k (split_abs d (split_step l i s) (Suc l) (2 * i)) (insert (Suc l + d, 2 * i * 2 ^ d) A)
      \<and> (Suc l + d, 2 * i * 2 ^ d) \<notin> A"
    using S Suc.prems(3) by (intro Suc.IH) auto
  then show ?case by (simp add: mult.assoc mult.left_commute)
qed simp

text \<open>
  An allocation on layer \<open>bf\<close> fails only when no block of a layer up to \<open>bf\<close> is free, and else
  adds one block to the allocated ones.
\<close>

lemma alloc_abs_none: "alloc_abs s bf = None \<longleftrightarrow> (\<forall>l\<le>bf. free_of s l = [])"
  using find_abs_le [of s bf] find_abs_none [of s bf]
  by (fastforce simp: alloc_abs_def Let_def split: list.splits)

lemma alloc_abs_some:
  assumes "tree_inv k s A" "bf \<le> k" "alloc_abs s bf = Some (i, s')"
  shows "tree_inv k s' (insert (bf, i) A)" "(bf, i) \<notin> A"
proof -
  let ?l = "find_abs s bf"
  obtain i0 js where f: "free_of s ?l = i0 # js"
    and e: "i = i0 * 2 ^ (bf - ?l)" "s' = split_abs (bf - ?l) (pop_abs ?l s) ?l i0"
    using assms(3) by (auto simp: alloc_abs_def Let_def split: list.splits)
  have le: "?l + (bf - ?l) = bf" using find_abs_le [of s bf] by simp
  have "tree_inv k (split_abs (bf - ?l) (pop_abs ?l s) ?l i0) (insert (?l + (bf - ?l), i0 * 2 ^ (bf - ?l)) A)
      \<and> (?l + (bf - ?l), i0 * 2 ^ (bf - ?l)) \<notin> A"
    using tree_inv_pop [OF assms(1) f] assms(2) le by (intro tree_inv_split) auto
  then show "tree_inv k s' (insert (bf, i) A)" "(bf, i) \<notin> A" unfolding e le by blast+
qed

subsection \<open>Release\<close>

text \<open>From a leaf the climb passes every set bit on the path to the root.\<close>

lemma climb_abs_path:
  assumes "l \<le> k" "\<And>a. l < a \<Longrightarrow> a \<le> k \<Longrightarrow> bit_of s a (j div 2 ^ (k - a))"
  shows "climb_abs s k j = climb_abs s l (j div 2 ^ (k - l))"
  using assms
proof (induction "k - l" arbitrary: k j)
  case 0
  then show ?case by simp
next
  case (Suc n)
  then obtain k' where k: "k = Suc k'" "l \<le> k'" by (cases k) auto
  have "climb_abs s k j = climb_abs s k' (j div 2)" using Suc.prems(2) [of k] k by simp
  also have "\<dots> = climb_abs s l (j div 2 div 2 ^ (k' - l))"
  proof (rule Suc.hyps(1))
    show "bit_of s a (j div 2 div 2 ^ (k' - a))" if "l < a" "a \<le> k'" for a
      using Suc.prems(2) [of a] that k by (simp add: Suc_diff_le div_mult2_eq)
  qed (use Suc.hyps(2) k in auto)
  finally show ?case using k by (simp add: Suc_diff_le div_mult2_eq)
qed

lemma block_descendant:
  assumes "partition_of k B" "(l, i) \<in> B" "l < a" "a \<le> k"
  shows "(a, i * 2 ^ (k - l) div 2 ^ (k - a)) \<notin> B"
proof
  assume b: "(a, i * 2 ^ (k - l) div 2 ^ (k - a)) \<in> B"
  have "i * 2 ^ (k - l) div 2 ^ (k - a) div 2 ^ (a - l) = i"
    using assms(3,4) by (simp flip: div_mult2_eq power_add)
  with partition_no_ancestor [OF assms(1) b assms(3)] assms(2) show False by simp
qed

lemma climb_to_block:
  assumes "tree_inv k s A" "(l, i) \<in> A"
  shows "climb_abs s k (i * 2 ^ (k - l)) = climb_abs s l i"
proof -
  note P = tree_invD(3) [OF assms(1)]
  have B: "(l, i) \<in> A \<union> free_set s" using assms(2) by simp
  have V: "l \<le> k" "i < 2 ^ l" using partition_valid [OF P B] by auto
  have "bit_of s a (i * 2 ^ (k - l) div 2 ^ (k - a))" if "l < a" "a \<le> k" for a
  proof -
    have "i * 2 ^ (k - l) < 2 ^ k" 
      using block_inside [OF V] zero_less_power [of "2 :: nat" "k - l"] by linarith
    then have "i * 2 ^ (k - l) div 2 ^ (k - a) < 2 ^ a"
      using that by (simp add: less_mult_imp_div_less flip: power_add)
    then show ?thesis using tree_invD(4) [OF assms(1) that(2)] block_descendant [OF P B that] by blast
  qed
  then have "climb_abs s k (i * 2 ^ (k - l)) = climb_abs s l (i * 2 ^ (k - l) div 2 ^ (k - l))"
    using V by (intro climb_abs_path) auto
  then show ?thesis by simp
qed

text \<open>A block of even index is released as itself.\<close>

lemma free_abs_even:
  assumes "tree_inv k s A" "(l, i) \<in> A" "even i"
  shows "free_abs k s (i * 2 ^ (k - l)) = push_abs l i (put_bit l i False s)"
    and "tree_inv k (free_abs k s (i * 2 ^ (k - l))) (A - {(l, i)})"
proof -
  note T = tree_invD [OF assms(1)]
  have B: "(l, i) \<in> A \<union> free_set s" using assms(2) by simp
  have V: "l \<le> k" "i < 2 ^ l" using partition_valid [OF T(3) B] by auto
  have bit: "\<not> bit_of s l i" using T(4) [OF V] B assms(3) by simp
  have "climb_abs s l i = (l, i)" using bit by (cases l) auto
  then have c: "climb_abs s k (i * 2 ^ (k - l)) = (l, i)" using climb_to_block [OF assms(1,2)] by simp
  have "merge_abs (put_bit l i False s) l i = (put_bit l i False s, l, i)"
  proof (cases l)
    case (Suc l')
    have x: "i XOR 1 = Suc i" using assms(3) by (simp only: xor_one_eq) simp
    then have x0: "i XOR Suc 0 = Suc i" by simp
    then have "Suc i < 2 ^ l" using V(2) assms(3) Suc by (metis Suc_lessI dvd_triv_left even_Suc power_Suc)
    then have "bit_of s l (i XOR 1)" unfolding x using T(4) [OF V(1), of "Suc i"] assms(3) by simp
    then show ?thesis using Suc by (simp add: x0)
  qed simp
  with c show f: "free_abs k s (i * 2 ^ (k - l)) = push_abs l i (put_bit l i False s)"
    by (simp add: free_abs_def)
  have ni: "(l, i) \<notin> free_set s" using T(2) assms(2) by auto
  have u: "A - {(l, i)} \<union> free_set (push_abs l i (put_bit l i False s)) = A \<union> free_set s"
    using assms(2) by (auto simp: free_set_push)
  show "tree_inv k (free_abs k s (i * 2 ^ (k - l))) (A - {(l, i)})"
    unfolding f tree_inv_def u
  proof (intro conjI allI impI)
    show "distinct (free_of (push_abs l i (put_bit l i False s)) l')" for l'
      using T(1) [of l'] ni by (auto simp: push_abs_def free_set_def)
    show "(A - {(l, i)}) \<inter> free_set (push_abs l i (put_bit l i False s)) = {}"
      using T(2) by (auto simp: free_set_push)
    show "bit_of (push_abs l i (put_bit l i False s)) l' i'
        \<longleftrightarrow> \<not> ((l', i') \<in> A \<union> free_set s \<and> even i')" if "l' \<le> k" "i' < 2 ^ l'" for l' i'
      using T(4) [OF that] bit T(4) [OF V] by (simp add: push_abs_def)
  qed (fact T(3))
qed

text \<open>The climb from a block of odd index does not stop before the root.\<close>

lemma climb_odd:
  assumes "tree_inv k s A" "(l, i) \<in> A" "odd i"
  shows "climb_abs s k (i * 2 ^ (k - l)) = (0, 0)"
proof -
  note T = tree_invD [OF assms(1)]
  have B: "(l, i) \<in> A \<union> free_set s" using assms(2) by simp
  have V: "l \<le> k" "i < 2 ^ l" using partition_valid [OF T(3) B] by auto
  have "bit_of s a (i div 2 ^ (l - a))" if "0 < a" "a \<le> l" for a
  proof (cases "a = l")
    case True
    then show ?thesis using T(4) [OF V] assms(3) by simp
  next
    case False
    have "i div 2 ^ (l - a) < 2 ^ a" using V(2) that by (simp add: less_mult_imp_div_less flip: power_add)
    then show ?thesis using T(4) [of a] False that V partition_no_ancestor [OF T(3) B, of a] by simp
  qed
  then have "climb_abs s l i = climb_abs s 0 (i div 2 ^ (l - 0))" by (intro climb_abs_path) auto
  then show ?thesis using climb_to_block [OF assms(1,2)] V(2) by simp
qed

lemma free_abs_odd:
  "tree_inv k s A \<Longrightarrow> (l, i) \<in> A \<Longrightarrow> odd i \<Longrightarrow>
     free_abs k s (i * 2 ^ (k - l)) = push_abs 0 0 (put_bit 0 0 False s)"
  by (simp add: free_abs_def climb_odd)

end
