(* ===== verification/Buddy_Refine.thy ===== *)
theory Buddy_Refine
  imports Buddy_Abs
begin

section \<open>The code of the buddy allocator refines the abstract machine\<close>

text \<open>
  \<open>buddy_rep\<close> relates the bytes of an allocator to the abstract machine. Every elementary write
  of the code (a bit, a push, a pop) is one operation of the machine and leaves the bytes of the
  other blocks alone, so that \<open>buddy_alloc\<close> and \<open>buddy_free\<close> simulate \<open>alloc_abs\<close> and
  \<open>free_abs\<close>.
\<close>

definition buddy_rep :: "mem \<Rightarrow> ptr \<Rightarrow> nat \<Rightarrow> buddy_abs \<Rightarrow> bool" where
  "buddy_rep m alloc k s \<longleftrightarrow>
     buddy_inv m alloc k (free_of s) \<and> buddy_layers (load_buddy m alloc) = of_nat (Suc k) \<and>
     (\<forall>l\<le>k. \<forall>i<2 ^ l. buddy_get m (bitmap (load_buddy m alloc)) (of_nat l) (of_nat i) = bit_of s l i)"

text \<open>The addresses of the bytes of a block, and two memories that agree on a block.\<close>

definition in_block :: "ptr \<Rightarrow> nat \<Rightarrow> block \<Rightarrow> ptr \<Rightarrow> bool" where
  "in_block begin k b x \<longleftrightarrow>
     block_addr begin k (fst b) (snd b) \<le> unat x \<and>
     unat x < block_addr begin k (fst b) (snd b) + 2 ^ (k - fst b) * 4096"

definition keeps :: "mem \<Rightarrow> mem \<Rightarrow> ptr \<Rightarrow> nat \<Rightarrow> block set \<Rightarrow> bool" where
  "keeps m m' alloc k B \<longleftrightarrow>
     load_buddy m' alloc = load_buddy m alloc \<and>
     (\<forall>b\<in>B. \<forall>x. in_block (pool_begin (load_buddy m alloc)) k b x \<longrightarrow> m' x = m x)"

lemma keeps_refl [simp]: "keeps m m alloc k B"
  by (simp add: keeps_def)

lemma keeps_trans: "keeps m m' alloc k B \<Longrightarrow> keeps m' m'' alloc k B \<Longrightarrow> keeps m m'' alloc k B"
  by (simp add: keeps_def)

lemma keeps_mono: "keeps m m' alloc k B \<Longrightarrow> C \<subseteq> B \<Longrightarrow> keeps m m' alloc k C"
  unfolding keeps_def by blast

lemma keeps_load: "keeps m m' alloc k B \<Longrightarrow> load_buddy m' alloc = load_buddy m alloc"
  by (simp add: keeps_def)

lemma in_block_pool:
  "in_block begin k b x \<Longrightarrow> unat begin \<le> unat x"
  by (simp add: in_block_def block_addr_def)

lemma in_block_page:
  assumes "in_block begin k b x"
  shows "(unat x - unat begin) div 4096 \<in> bpages k b"
proof -
  let ?n = "2 ^ (k - fst b) :: nat"
  have "snd b * ?n * 4096 \<le> unat x - unat begin" "unat x - unat begin < Suc (snd b) * ?n * 4096"
    using assms by (auto simp: in_block_def block_addr_def algebra_simps)
  then show ?thesis
    by (auto simp: pages_of_def less_eq_div_iff_mult_less_eq div_less_iff_less_mult)
qed

lemma rep_inv: "buddy_rep m alloc k s \<Longrightarrow> buddy_inv m alloc k (free_of s)"
  by (simp add: buddy_rep_def)

lemma rep_layout: "buddy_rep m alloc k s \<Longrightarrow> buddy_layout m alloc k"
  by (simp add: buddy_rep_def buddy_inv_def)

lemma rep_bit:
  "buddy_rep m alloc k s \<Longrightarrow> l \<le> k \<Longrightarrow> i < 2 ^ l \<Longrightarrow>
     buddy_get m (bitmap (load_buddy m alloc)) (of_nat l) (of_nat i) = bit_of s l i"
  by (simp add: buddy_rep_def)

lemma rep_chain:
  "buddy_rep m alloc k s \<Longrightarrow> l \<le> k \<Longrightarrow>
     chain m (rd64 m (head_cell m alloc (of_nat l))) (map (bptr m alloc l) (free_of s l))"
  by (simp add: buddy_rep_def buddy_inv_def)

lemma rep_free_ok: "buddy_rep m alloc k s \<Longrightarrow> free_ok k (free_of s)"
  by (simp add: buddy_rep_def buddy_inv_def)

subsection \<open>Bits\<close>

lemma bit_address:
  assumes "buddy_layout m alloc k" "l \<le> k" "i < 2 ^ l"
  shows "unat (bitmap (load_buddy m alloc)) \<le> unat (bitmap (load_buddy m alloc) + mask_index (of_nat l) (of_nat i))"
    "unat (bitmap (load_buddy m alloc) + mask_index (of_nat l) (of_nat i))
       < unat (bitmap (load_buddy m alloc)) + 2 ^ (k - 2)"
proof -
  note L = layoutD [OF assms(1)]
  obtain j where k: "k = j + 2" using L(1) by (metis add.commute le_add_diff_inverse)
  have "(2::nat) ^ l \<le> 2 ^ k" using assms(2) by (intro power_increasing) auto
  then have "2 ^ l + i < 8 * 2 ^ j" using assms(3) by (simp add: k power_add)
  then have n: "(2 ^ l + i) div 8 < 2 ^ (k - 2)" by (simp add: k)
  have mi: "unat (mask_index (of_nat l) (of_nat i)) = (2 ^ l + i) div 8"
    using assms L(7) by (intro unat_mask_index) auto
  have "unat (bitmap (load_buddy m alloc)) + (2 ^ l + i) div 8 < 18446744073709551616"
    using n L(5) unat_lt64 [of "pool_begin (load_buddy m alloc)"] by linarith
  then have "unat (bitmap (load_buddy m alloc) + mask_index (of_nat l) (of_nat i))
      = unat (bitmap (load_buddy m alloc)) + (2 ^ l + i) div 8"
    by (simp add: unat_add64 mi)
  then show "unat (bitmap (load_buddy m alloc)) \<le> unat (bitmap (load_buddy m alloc) + mask_index (of_nat l) (of_nat i))"
    "unat (bitmap (load_buddy m alloc) + mask_index (of_nat l) (of_nat i))
       < unat (bitmap (load_buddy m alloc)) + 2 ^ (k - 2)" using n by simp_all
qed

text \<open>A write of one byte of the bitmap keeps the rest of the allocator and every block.\<close>

lemma byte_keeps:
  assumes "buddy_inv m alloc k F" "l \<le> k" "i < 2 ^ l"
    and "x = bitmap (load_buddy m alloc) + mask_index (of_nat l) (of_nat i)"
  shows "buddy_inv (m(x := c)) alloc k F" "keeps m (m(x := c)) alloc k B"
proof -
  have lay: "buddy_layout m alloc k" using assms(1) by (simp add: buddy_inv_def)
  note L = layoutD [OF lay] and A = bit_address [OF lay assms(2,3), folded assms(4)]
  have F: "free_ok k F" using assms(1) by (simp add: buddy_inv_def)
  have ld: "load_buddy (m(x := c)) alloc = load_buddy m alloc"
    using L(3,4) A(1) by (intro load_buddy_upd) linarith
  have "rd64 (m(x := c)) (head_cell m alloc (of_nat l')) = rd64 m (head_cell m alloc (of_nat l'))"
    if "l' \<le> k" for l'
    using head_cell_cell [OF lay that] unat_head_cell [OF lay that] A(1) L(4) that
    by (intro rd64_upd_apart) (auto simp: cell_def in_region_def)
  moreover have "rd64 (m(x := c)) (bptr m alloc l' i') = rd64 m (bptr m alloc l' i')"
    if "l' \<le> k" "i' \<in> set (F l')" for l' i'
  proof -
    have "i' < 2 ^ l'" using free_ok_valid [OF F that(1)] that(2) by simp
    then show ?thesis
      using bptr_cell(1) [OF lay that(1)] bptr_bounds(1) [OF lay that(1)] A(2) L(5)
      by (intro rd64_upd_apart) (force simp: cell_def in_region_def)+
  qed
  ultimately show "buddy_inv (m(x := c)) alloc k F" using inv_cong [OF assms(1) ld] by blast
  have "x \<noteq> y" if "unat (pool_begin (load_buddy m alloc)) \<le> unat y" for y
    using that A(2) L(5) by auto
  then show "keeps m (m(x := c)) alloc k B"
    unfolding keeps_def using ld by (auto dest!: in_block_pool)
qed

lemma rep_bit_write:
  assumes "buddy_rep m alloc k s" "l \<le> k" "i < 2 ^ l"
    and "m' = (if b then buddy_set m (bitmap (load_buddy m alloc)) (of_nat l) (of_nat i)
                 else buddy_unset m (bitmap (load_buddy m alloc)) (of_nat l) (of_nat i))"
  shows "buddy_rep m' alloc k (put_bit l i b s)" "keeps m m' alloc k B"
proof -
  note L = layoutD [OF rep_layout [OF assms(1)]]
  let ?x = "bitmap (load_buddy m alloc) + mask_index (of_nat l) (of_nat i)"
  obtain c where c: "m' = m(?x := c)"
    using assms(4) by (auto simp: buddy_set_def buddy_unset_def Let_def split: if_splits)
  note K = byte_keeps [OF rep_inv [OF assms(1)] assms(2,3) refl, of c, folded c]
  show k: "keeps m m' alloc k B" by (rule K(2))
  have "buddy_get m' (bitmap (load_buddy m alloc)) (of_nat l') (of_nat i')
      = (if l' = l \<and> i' = i then b else buddy_get m (bitmap (load_buddy m alloc)) (of_nat l') (of_nat i'))"
    if "l' \<le> k" "i' < 2 ^ l'" for l' i'
    using that assms(2-4) L(7) by (auto simp: buddy_get_set buddy_get_unset)
  then show "buddy_rep m' alloc k (put_bit l i b s)"
    using assms(1) K(1) by (simp add: buddy_rep_def keeps_load [OF k])
qed

lemma rep_set:
  assumes "buddy_rep m alloc k s" "l \<le> k" "i < 2 ^ l"
  shows "buddy_rep (buddy_set m (bitmap (load_buddy m alloc)) (of_nat l) (of_nat i)) alloc k (put_bit l i True s)
    \<and> (\<forall>B. keeps m (buddy_set m (bitmap (load_buddy m alloc)) (of_nat l) (of_nat i)) alloc k B)"
  using rep_bit_write(1) [OF assms, where b = True] rep_bit_write(2) [OF assms, where b = True] by simp

lemma rep_unset:
  assumes "buddy_rep m alloc k s" "l \<le> k" "i < 2 ^ l"
  shows "buddy_rep (buddy_unset m (bitmap (load_buddy m alloc)) (of_nat l) (of_nat i)) alloc k (put_bit l i False s)
    \<and> (\<forall>B. keeps m (buddy_unset m (bitmap (load_buddy m alloc)) (of_nat l) (of_nat i)) alloc k B)"
  using rep_bit_write(1) [OF assms, where b = False] rep_bit_write(2) [OF assms, where b = False] by simp

text \<open>A store of eight bytes outside the bitmap keeps every bit.\<close>

lemma bit_wr64:
  assumes "buddy_layout m alloc k" "l \<le> k" "i < 2 ^ l" "cell x"
    and "unat x + 8 \<le> unat (bitmap (load_buddy m alloc)) \<or> unat (pool_begin (load_buddy m alloc)) \<le> unat x"
  shows "buddy_get (wr64 m x v) (bitmap (load_buddy m alloc)) (of_nat l) (of_nat i)
    = buddy_get m (bitmap (load_buddy m alloc)) (of_nat l) (of_nat i)"
  using bit_address [OF assms(1-3)] layoutD(5) [OF assms(1)] assms(4,5)
  by (subst buddy_get_def, subst wr64_out) (auto simp: cell_def in_region_def buddy_get_def)

subsection \<open>Push and pop\<close>

lemma head_below: "buddy_layout m alloc k \<Longrightarrow> l \<le> k \<Longrightarrow>
    unat (head_cell m alloc (of_nat l)) + 8 \<le> unat (bitmap (load_buddy m alloc))"
  using layoutD(4) [of m alloc k] by (simp add: unat_head_cell)

lemma head_above: "buddy_layout m alloc k \<Longrightarrow> l \<le> k \<Longrightarrow>
    unat alloc + 48 \<le> unat (head_cell m alloc (of_nat l))"
  using layoutD(3) [of m alloc k] by (simp add: unat_head_cell)

lemma bptr_above: "buddy_layout m alloc k \<Longrightarrow> l \<le> k \<Longrightarrow> i < 2 ^ l \<Longrightarrow>
    unat alloc + 48 \<le> unat (bptr m alloc l i)"
  using layoutD(3-5) [of m alloc k] bptr_bounds(1) [of m alloc k l i] by linarith

text \<open>A store into a head cell or into the first bytes of a block outside \<open>B\<close> keeps \<open>B\<close>.\<close>

lemma keeps_head:
  assumes "buddy_layout m alloc k" "l \<le> k"
  shows "keeps m (wr64 m (head_cell m alloc (of_nat l)) v) alloc k B"
proof -
  have c: "unat (head_cell m alloc (of_nat l)) + 8 \<le> 18446744073709551616"
    using head_cell_cell [OF assms] by (simp add: cell_def)
  have "wr64 m (head_cell m alloc (of_nat l)) v x = m x"
    if "unat (pool_begin (load_buddy m alloc)) \<le> unat x" for x
    using that head_below [OF assms] layoutD(5) [OF assms(1)]
    by (intro wr64_out [OF c]) (auto simp: in_region_def)
  then show ?thesis
    using load_buddy_wr64 [OF head_above [OF assms] head_cell_cell [OF assms]]
    by (auto simp: keeps_def dest: in_block_pool)
qed

lemma keeps_block:
  assumes "buddy_layout m alloc k" "l \<le> k" "i < 2 ^ l"
    and "\<And>b. b \<in> B \<Longrightarrow> bpages k b \<inter> pages_of k l i = {}"
  shows "keeps m (wr64 m (bptr m alloc l i) v) alloc k B"
proof -
  note P = bptr_cell [OF assms(1-3)]
  have c: "unat (bptr m alloc l i) + 8 \<le> 18446744073709551616" using P(1) by (simp add: cell_def)
  have "wr64 m (bptr m alloc l i) v x = m x"
    if "b \<in> B" "in_block (pool_begin (load_buddy m alloc)) k b x" for b x
  proof (rule wr64_out [OF c], rule notI)
    assume "in_region (bptr m alloc l i) 8 x"
    moreover have "(1::nat) \<le> 2 ^ (k - l)" by simp
    then have "(8::nat) \<le> 2 ^ (k - l) * 4096" by linarith
    ultimately have "in_block (pool_begin (load_buddy m alloc)) k (l, i) x"
      using unat_bptr [OF assms(1-3)] unfolding in_region_def in_block_def fst_conv snd_conv by linarith
    from in_block_page [OF that(2)] in_block_page [OF this] assms(4) [OF that(1)] show False by auto
  qed
  then show ?thesis
    using load_buddy_wr64 [OF bptr_above [OF assms(1-3)] P(1)] by (auto simp: keeps_def)
qed

lemma rep_push:
  assumes "buddy_rep m alloc k s" "l \<le> k" "free_ok k (free_of (push_abs l i s))"
    and "\<And>b. b \<in> B \<Longrightarrow> bpages k b \<inter> pages_of k l i = {}"
    and "m' = freelist_push m (head_cell m alloc (of_nat l)) (bptr m alloc l i)"
  shows "buddy_rep m' alloc k (push_abs l i s)" "keeps m m' alloc k B"
proof -
  let ?L = "head_cell m alloc (of_nat l)" and ?b = "bptr m alloc l i"
  note lay = rep_layout [OF assms(1)]
  let ?F = "free_of (push_abs l i s)"
  have F: "?F = (free_of s)(l := i # free_of s l)" by (simp add: push_abs_def)
  have i: "i < 2 ^ l" "i \<notin> set (free_of s l)" using free_ok_valid [OF assms(3,2)] by (auto simp: F)
  note L = head_cell_cell [OF lay assms(2)] and b = bptr_cell [OF lay assms(2) i(1)]
    and ap = head_bptr_apart [OF lay assms(2) i(1) assms(2)]
  have m': "m' = wr64 (wr64 m ?b (rd64 m ?L)) ?L ?b" using L b by (simp add: assms(5) freelist_push_eq)
  let ?m1 = "wr64 m ?b (rd64 m ?L)"
  have k1: "keeps m ?m1 alloc k B" by (rule keeps_block [OF lay assms(2) i(1) assms(4)])
  have lay1: "buddy_layout ?m1 alloc k" by (simp add: layout_cong [OF keeps_load [OF k1]] lay)
  have h1: "head_cell ?m1 alloc (of_nat l) = ?L" by (rule head_cell_cong [OF keeps_load [OF k1]])
  show k': "keeps m m' alloc k B"
    using keeps_trans [OF k1 keeps_head [OF lay1 assms(2), of "?b" B]] by (simp add: h1 m')
  note ld = keeps_load [OF k']
  have other: "rd64 m' (bptr m alloc l' i') = rd64 m (bptr m alloc l' i')"
    if "l' \<le> k" "i' \<in> set (free_of s l')" for l' i'
  proof -
    have i': "i' < 2 ^ l'" using free_ok_valid [OF rep_free_ok [OF assms(1)] that(1)] that(2) by simp
    have "(l, i) \<noteq> (l', i')" using i(2) that(2) by auto
    then have "pages_of k l i \<inter> pages_of k l' i' = {}"
      using that by (intro free_ok_disjoint [OF assms(3,2)]) (auto simp: F)
    then have "apart ?b (bptr m alloc l' i')" by (rule bptr_apart [OF lay assms(2) i(1) that(1) i'])
    then show ?thesis
      using bptr_cell [OF lay that(1) i'] L b ap head_bptr_apart [OF lay that(1) i' assms(2)]
      by (simp add: m' rd64_wr64_cells)
  qed
  have "chain m' (rd64 m' (head_cell m' alloc (of_nat l'))) (map (bptr m' alloc l') (?F l'))"
    if "l' \<le> k" for l'
  proof -
    have B: "bptr m' alloc n = bptr m alloc n" for n by (rule ext) (rule bptr_cong [OF ld])
    have "chain m' (rd64 m (head_cell m alloc (of_nat l'))) (map (bptr m alloc l') (free_of s l'))"
      using rep_chain [OF assms(1) that] other that by (subst chain_cong [of _ _ m]) auto
    moreover have "rd64 m' ?L = ?b" by (simp add: m')
    moreover have "rd64 m' ?b = rd64 m ?L" using L b ap by (simp add: m' rd64_wr64_cells)
    moreover have "rd64 m' (head_cell m alloc (of_nat l')) = rd64 m (head_cell m alloc (of_nat l'))"
      if "l' \<noteq> l"
      using head_cell_cell [OF lay \<open>l' \<le> k\<close>] heads_apart [OF lay assms(2) \<open>l' \<le> k\<close>] that L b
        head_bptr_apart [OF lay assms(2) i(1) \<open>l' \<le> k\<close>] apart_sym
      by (simp add: m' rd64_wr64_cells)
    ultimately show ?thesis using b(2) by (cases "l' = l") (simp_all add: F B head_cell_cong [OF ld])
  qed
  then have inv: "buddy_inv m' alloc k ?F" using assms(3) lay by (simp add: buddy_inv_def layout_cong [OF ld])
  have "buddy_get m' (bitmap (load_buddy m alloc)) (of_nat l') (of_nat i') = bit_of s l' i'"
    if "l' \<le> k" "i' < 2 ^ l'" for l' i'
    using bit_wr64 [OF lay that b(1), of "rd64 m ?L"] bit_wr64 [OF lay1 that L, of ?b]
      head_below [OF lay assms(2)] bptr_bounds(1) [OF lay assms(2) i(1)] rep_bit [OF assms(1) that]
    by (simp add: m' keeps_load [OF k1])
  then show "buddy_rep m' alloc k (push_abs l i s)"
    using inv assms(1) by (simp add: buddy_rep_def ld push_abs_def)
qed

lemma rep_pop:
  assumes "buddy_rep m alloc k s" "l \<le> k" "free_of s l = i # js"
  shows "freelist_pop m (head_cell m alloc (of_nat l))
      = (bptr m alloc l i, wr64 m (head_cell m alloc (of_nat l)) (rd64 m (bptr m alloc l i)))" (is ?pop)
    and "buddy_rep (wr64 m (head_cell m alloc (of_nat l)) (rd64 m (bptr m alloc l i))) alloc k (pop_abs l s)"
    and "keeps m (wr64 m (head_cell m alloc (of_nat l)) (rd64 m (bptr m alloc l i))) alloc k B"
proof -
  let ?L = "head_cell m alloc (of_nat l)" and ?b = "bptr m alloc l i"
  let ?m = "wr64 m ?L (rd64 m ?b)"
  note lay = rep_layout [OF assms(1)]
  note L = head_cell_cell [OF lay assms(2)]
  have c: "rd64 m ?L = ?b" "?b \<noteq> NULL" "chain m (rd64 m ?b) (map (bptr m alloc l) js)"
    using rep_chain [OF assms(1,2)] by (simp_all add: assms(3))
  show ?pop using L c by (simp add: freelist_pop_def freelist_get_next_def cell_def Let_def)
  show k: "keeps m ?m alloc k B" by (rule keeps_head [OF lay assms(2)])
  note ld = keeps_load [OF k]
  have F: "free_of (pop_abs l s) = (free_of s)(l := js)" by (simp add: pop_abs_def assms(3))
  have ok: "free_ok k (free_of (pop_abs l s))"
    unfolding F by (rule free_ok_pop [OF rep_free_ok [OF assms(1)] assms(2,3)])
  have "chain ?m (rd64 ?m (head_cell ?m alloc (of_nat l'))) (map (bptr ?m alloc l') (free_of (pop_abs l s) l'))"
    if "l' \<le> k" for l'
  proof -
    have B: "bptr ?m alloc n = bptr m alloc n" for n by (rule ext) (rule bptr_cong [OF ld])
    have same: "rd64 ?m (bptr m alloc l' i') = rd64 m (bptr m alloc l' i')" if "i' \<in> set (free_of s l')" for i'
    proof -
      have i': "i' < 2 ^ l'" using free_ok_valid [OF rep_free_ok [OF assms(1)] \<open>l' \<le> k\<close>] that by simp
      show ?thesis using head_bptr_apart [OF lay \<open>l' \<le> k\<close> i' assms(2)] bptr_cell [OF lay \<open>l' \<le> k\<close> i'] L
        by (simp add: rd64_wr64_cells)
    qed
    show ?thesis
    proof (cases "l' = l")
      case True
      have "chain ?m (rd64 m ?b) (map (bptr m alloc l) js)"
        using c(3) same True assms(3) by (subst chain_cong [of _ _ m]) auto
      then show ?thesis by (simp add: True F B head_cell_cong [OF ld])
    next
      case False
      have "chain ?m (rd64 m (head_cell m alloc (of_nat l'))) (map (bptr m alloc l') (free_of s l'))"
        using rep_chain [OF assms(1) that] same by (subst chain_cong [of _ _ m]) auto
      moreover have "rd64 ?m (head_cell m alloc (of_nat l')) = rd64 m (head_cell m alloc (of_nat l'))"
        using head_cell_cell [OF lay that] heads_apart [OF lay assms(2) that] False L
        by (simp add: rd64_wr64_cells)
      ultimately show ?thesis using False by (simp add: F B head_cell_cong [OF ld])
    qed
  qed
  then have inv: "buddy_inv ?m alloc k (free_of (pop_abs l s))"
    using ok lay by (simp add: buddy_inv_def layout_cong [OF ld])
  have "buddy_get ?m (bitmap (load_buddy m alloc)) (of_nat l') (of_nat i') = bit_of s l' i'"
    if "l' \<le> k" "i' < 2 ^ l'" for l' i'
    using bit_wr64 [OF lay that L, of "rd64 m ?b"] head_below [OF lay assms(2)] rep_bit [OF assms(1) that]
    by simp
  then show "buddy_rep ?m alloc k (pop_abs l s)"
    using inv assms(1) by (simp add: buddy_rep_def ld pop_abs_def)
qed

end
