(* ===== verification/Buddy_Sim.thy ===== *)
theory Buddy_Sim
  imports Buddy_Refine
begin

section \<open>Simulation of the loops of the buddy allocator\<close>

text \<open>
  The loops of \<open>buddy_alloc\<close> and \<open>buddy_free\<close> computed on bytes agree with the recursions of
  the abstract machine, and write nothing into blocks other than the one they work on.
\<close>

subsection \<open>Allocation\<close>

lemma find_layer_eq:
  assumes "buddy_rep m alloc k s" "l \<le> k"
  shows "find_layer m alloc (of_nat l) = of_nat (find_abs s l)"
  using assms(2)
proof (induction l)
  case 0
  then show ?case by (subst find_layer.simps) simp
next
  case (Suc l)
  have k: "k < 52" using layoutD(7) [OF rep_layout [OF assms(1)]] .
  have "unat (of_nat (Suc l) :: u64) = Suc l" using Suc.prems k by (intro unat_of_nat64) simp
  then have pos: "0 < (of_nat (Suc l) :: u64)" by (simp add: unat_pos_iff del: of_nat_Suc)
  have "rd64 m (head_cell m alloc (of_nat (Suc l))) = NULL \<longleftrightarrow> free_of s (Suc l) = []"
    using chain_NULL_iff [OF rep_chain [OF assms(1) Suc.prems]] by simp
  then show ?case
    using Suc pos by (subst find_layer.simps) (simp add: freelist_get_def)
qed

lemma bptr_to_pointer:
  "load_buddy m' alloc = load_buddy m alloc \<Longrightarrow>
     to_pointer (pool_begin (load_buddy m' alloc)) (of_nat l) (of_nat i) (root_block_size (load_buddy m' alloc))
     = bptr m alloc l i"
  by (simp add: bptr_def)

lemma of_nat_less_u64: "l < 18446744073709551616 \<Longrightarrow> l' < 18446744073709551616 \<Longrightarrow>
    (of_nat l :: u64) < of_nat l' \<longleftrightarrow> l < l'"
  by (simp add: word_less_nat_alt unat_of_nat64)

lemma split_loop_step:
  assumes "buddy_rep m alloc k s" "tree_inv k s (insert (l, i) A)" "(l, i) \<notin> A" "l < bf" "bf \<le> k"
  obtains m' where "split_loop m alloc (of_nat l) (of_nat bf) (of_nat i)
      = split_loop m' alloc (of_nat (Suc l)) (of_nat bf) (of_nat (2 * i))"
    "buddy_rep m' alloc k (split_step l i s)" "keeps m m' alloc k A"
proof -
  have k: "k < 52" using layoutD(7) [OF rep_layout [OF assms(1)]] .
  have lk: "l < k" "Suc l \<le> k" "l \<le> k" using assms(4,5) by auto
  note T = tree_invD [OF assms(2)] and S = tree_inv_split_step [OF assms(2,3) lk(1)]
  have i: "i < 2 ^ l" "2 * i < 2 ^ Suc l" "2 * i + 1 < 2 ^ Suc l"
    using partition_valid [OF T(3), of l i] by auto
  define m1 where "m1 = buddy_set m (bitmap (load_buddy m alloc)) (of_nat l) (of_nat i)"
  define m2 where "m2 = buddy_unset m1 (bitmap (load_buddy m1 alloc)) (of_nat (Suc l)) (of_nat (2 * i))"
  define m3 where "m3 = buddy_set m2 (bitmap (load_buddy m2 alloc)) (of_nat (Suc l)) (of_nat (2 * i + 1))"
  define m4 where "m4 = freelist_push m3 (head_cell m3 alloc (of_nat (Suc l))) (bptr m3 alloc (Suc l) (2 * i + 1))"
  have R1: "buddy_rep m1 alloc k (put_bit l i True s)" "keeps m m1 alloc k A"
    using rep_set [OF assms(1) lk(3) i(1)] by (simp_all add: m1_def)
  have R2: "buddy_rep m2 alloc k (put_bit (Suc l) (2 * i) False (put_bit l i True s))" "keeps m1 m2 alloc k A"
    using rep_unset [OF R1(1) lk(2) i(2)] by (simp_all add: m2_def)
  have R3: "buddy_rep m3 alloc k (put_bit (Suc l) (2 * i + 1) True
      (put_bit (Suc l) (2 * i) False (put_bit l i True s)))" "keeps m2 m3 alloc k A"
    using rep_set [OF R2(1) lk(2) i(3)] by (simp_all add: m3_def)
  have F: "split_step l i s = push_abs (Suc l) (2 * i + 1)
      (put_bit (Suc l) (2 * i + 1) True (put_bit (Suc l) (2 * i) False (put_bit l i True s)))"
    by (simp add: split_step_def)
  have dis: "bpages k b \<inter> pages_of k (Suc l) (2 * i + 1) = {}" if "b \<in> A" for b
  proof (rule equals0I)
    fix x assume x: "x \<in> bpages k b \<inter> pages_of k (Suc l) (2 * i + 1)"
    have "(Suc l, 2 * i + 1) \<in> insert (Suc l, 2 * i) A \<union> free_set (split_step l i s)"
      by (simp add: F free_set_push)
    with x that have "b = (Suc l, 2 * i + 1)"
      by (intro partition_disjoint [OF tree_invD(3) [OF S(1)], of b _ x]) auto
    with that show False using tree_invD(2) [OF S(1)] by (auto simp: F free_set_push)
  qed
  have ok: "free_ok k (free_of (split_step l i s))" by (rule tree_inv_free_ok [OF S(1)])
  note ok' = ok [unfolded F]
  have R4: "buddy_rep m4 alloc k (split_step l i s)" "keeps m3 m4 alloc k A"
    unfolding F using rep_push [OF R3(1) lk(2) ok' dis m4_def, of A] by blast+
  have lt: "(of_nat l :: u64) < of_nat bf" using assms(4,5) k by (simp add: of_nat_less_u64)
  have "split_loop m alloc (of_nat l) (of_nat bf) (of_nat i)
      = split_loop m4 alloc (of_nat (Suc l)) (of_nat bf) (of_nat (2 * i))"
    by (subst split_loop.simps)
       (simp add: lt Let_def m4_def m3_def m2_def m1_def bptr_def add.commute mult.commute)
  moreover have "keeps m m4 alloc k A"
    using keeps_trans [OF keeps_trans [OF keeps_trans [OF R1(2) R2(2)] R3(2)] R4(2)] .
  ultimately show ?thesis using that R4(1) by blast
qed

lemma split_loop_sim:
  "buddy_rep m alloc k s \<Longrightarrow> tree_inv k s (insert (l, i) A) \<Longrightarrow> (l, i) \<notin> A \<Longrightarrow> l + d \<le> k \<Longrightarrow>
     buddy_rep (split_loop m alloc (of_nat l) (of_nat (l + d)) (of_nat i)) alloc k (split_abs d s l i)
     \<and> keeps m (split_loop m alloc (of_nat l) (of_nat (l + d)) (of_nat i)) alloc k A"
proof (induction d arbitrary: m s l i)
  case 0
  then show ?case by (subst (1 2) split_loop.simps) simp
next
  case (Suc d)
  have lt: "l < l + Suc d" "l < k" using Suc.prems(4) by auto
  obtain m' where m': "split_loop m alloc (of_nat l) (of_nat (l + Suc d)) (of_nat i)
      = split_loop m' alloc (of_nat (Suc l)) (of_nat (l + Suc d)) (of_nat (2 * i))"
    "buddy_rep m' alloc k (split_step l i s)" "keeps m m' alloc k A"
    by (rule split_loop_step [OF Suc.prems(1-3) lt(1) Suc.prems(4)])
  note S = tree_inv_split_step [OF Suc.prems(2,3) lt(2)]
  have "Suc l + d \<le> k" using Suc.prems(4) by simp
  note IH = Suc.IH [OF m'(2) S this]
  have e: "l + Suc d = Suc l + d" by simp
  show ?case unfolding m'(1) unfolding e using IH keeps_trans [OF m'(3)] by simp
qed

text \<open>The first sub-block of a block starts where the block starts.\<close>

lemma bptr_first:
  assumes "buddy_layout m alloc k" "l \<le> l'" "l' \<le> k" "i < 2 ^ l"
  shows "bptr m alloc l' (i * 2 ^ (l' - l)) = bptr m alloc l i"
proof -
  have e: "(2::nat) ^ (l' - l) * 2 ^ (k - l') = 2 ^ (k - l)" "(2::nat) ^ l * 2 ^ (l' - l) = 2 ^ l'"
    using assms(2,3) by (simp_all flip: power_add)
  have "i * 2 ^ (l' - l) < 2 ^ l'" unfolding e(2) [symmetric] using assms(4) by simp
  then have "unat (bptr m alloc l' (i * 2 ^ (l' - l))) = unat (bptr m alloc l i)"
    using assms e(1) by (simp add: unat_bptr block_addr_def mult.assoc)
  then show ?thesis by (simp add: u64_eq_iff)
qed

lemma bptr_index:
  assumes "buddy_layout m alloc k" "l \<le> k" "i < 2 ^ l"
  shows "to_index (pool_begin (load_buddy m alloc)) (of_nat l) (bptr m alloc l i)
    (root_block_size (load_buddy m alloc)) = Some (of_nat i)"
  using to_index_inside [OF layoutD(6) [OF assms(1)] assms(2), of "bptr m alloc l i" i 0]
    unat_bptr [OF assms] by simp

text \<open>\<open>buddy_alloc\<close> does what \<open>alloc_abs\<close> does, for every request that the pool can be divided by.\<close>

lemma buddy_alloc_none:
  assumes "buddy_rep m alloc k s" "bf \<le> k" "alloc_abs s bf = None"
    and "best_fit_layer pages (root_block_size (load_buddy m alloc)) = Some (of_nat bf)"
  shows "buddy_alloc m alloc pages = Some (NULL, m)"
proof -
  let ?l = "find_abs s bf"
  have l: "?l \<le> k" using find_abs_le [of s bf] assms(2) by simp
  have "free_of s ?l = []" using assms(3) find_abs_le [of s bf] by (simp add: alloc_abs_none)
  then have "rd64 m (head_cell m alloc (of_nat ?l)) = NULL"
    using rep_chain [OF assms(1) l] by simp
  then have "freelist_pop m (head_cell m alloc (of_nat ?l)) = (NULL, m)" by (simp add: freelist_pop_def Let_def)
  then show ?thesis using assms(4) by (simp add: buddy_alloc_def find_layer_eq [OF assms(1,2)] Let_def)
qed

lemma buddy_alloc_some:
  assumes "buddy_rep m alloc k s" "tree_inv k s A" "bf \<le> k" "alloc_abs s bf = Some (i, s')"
    and "best_fit_layer pages (root_block_size (load_buddy m alloc)) = Some (of_nat bf)"
  obtains m' where "buddy_alloc m alloc pages = Some (bptr m alloc bf i, m')" "buddy_rep m' alloc k s'"
    "keeps m m' alloc k A"
proof -
  let ?l = "find_abs s bf"
  obtain i0 js where f: "free_of s ?l = i0 # js"
    and e: "i = i0 * 2 ^ (bf - ?l)" "s' = split_abs (bf - ?l) (pop_abs ?l s) ?l i0"
    using assms(4) by (auto simp: alloc_abs_def Let_def split: list.splits)
  have l: "?l \<le> bf" "?l \<le> k" "?l + (bf - ?l) = bf" using find_abs_le [of s bf] assms(3) by simp_all
  note lay = rep_layout [OF assms(1)]
  have i0: "i0 < 2 ^ ?l" using free_ok_valid [OF rep_free_ok [OF assms(1)] l(2)] f by simp
  define m1 where "m1 = wr64 m (head_cell m alloc (of_nat ?l)) (rd64 m (bptr m alloc ?l i0))"
  note P = rep_pop [OF assms(1) l(2) f, folded m1_def]
  note ld = keeps_load [OF P(3)]
  note T = tree_inv_pop [OF assms(2) f]
  let ?m' = "split_loop m1 alloc (of_nat ?l) (of_nat bf) (of_nat i0)"
  have "buddy_rep ?m' alloc k s' \<and> keeps m1 ?m' alloc k A"
    using split_loop_sim [OF P(2) T, of "bf - ?l"] l assms(3) unfolding e(2) by simp
  then have R: "buddy_rep ?m' alloc k s'" "keeps m ?m' alloc k A" using keeps_trans [OF P(3)] by auto
  have nz: "bptr m alloc ?l i0 \<noteq> NULL" by (rule bptr_cell(2) [OF lay l(2) i0])
  have "buddy_alloc m alloc pages = Some (bptr m alloc ?l i0, ?m')"
    using assms(5) nz bptr_index [OF lay l(2) i0]
    by (simp add: buddy_alloc_def find_layer_eq [OF assms(1,3)] P(1) ld Let_def)
  moreover have "bptr m alloc bf i = bptr m alloc ?l i0"
    unfolding e(1) by (rule bptr_first [OF lay l(1) assms(3) i0])
  ultimately show ?thesis using that R by simp
qed

subsection \<open>Release\<close>

lemma size_of_int_sub_one: "size_of_int (int (Suc n) - 1) = of_nat n"
  by (simp add: size_of_int_def)

lemma int_xor_one: "int i XOR 1 = int (i XOR 1)"
  by (simp add: of_nat_xor_eq)

lemma half_less: "i < 2 ^ Suc l \<Longrightarrow> i div 2 < (2 :: nat) ^ l"
  by (simp add: less_mult_imp_div_less mult.commute)

lemma climb_loop_eq:
  assumes "buddy_rep m alloc k s" "l \<le> k" "i < 2 ^ l"
  shows "climb_loop m alloc (int l) (int i) = map_prod int int (climb_abs s l i)"
  using assms(2,3)
proof (induction l arbitrary: i)
  case 0
  then show ?case by (subst climb_loop.simps) simp
next
  case (Suc l)
  have "buddy_get m (bitmap (load_buddy m alloc)) (size_of_int (int (Suc l))) (size_of_int (int i))
      = bit_of s (Suc l) i"
    unfolding size_of_int_small by (rule rep_bit [OF assms(1) Suc.prems])
  moreover have "climb_loop m alloc (int l) (int (i div 2)) = map_prod int int (climb_abs s l (i div 2))"
    using Suc.prems half_less by (intro Suc.IH) auto
  moreover have "int i sdiv 2 = int (i div 2)" using int_sdiv_int [of i 2] by simp
  ultimately show ?case by (subst climb_loop.simps) (simp del: of_nat_div)
qed

lemma climb_abs_valid: "i < 2 ^ l \<Longrightarrow> climb_abs s l i = (l', i') \<Longrightarrow> l' \<le> l \<and> i' < 2 ^ l'"
proof (induction l arbitrary: i)
  case (Suc l)
  show ?case
  proof (cases "bit_of s (Suc l) i")
    case True
    then show ?thesis using Suc.IH [OF half_less [OF Suc.prems(1)]] Suc.prems(2) by auto
  qed (use Suc.prems in auto)
qed simp

lemma merge_abs_valid: "i < 2 ^ l \<Longrightarrow> merge_abs s l i = (s', l', i') \<Longrightarrow> l' \<le> l \<and> i' < 2 ^ l'"
proof (induction l arbitrary: i s)
  case (Suc l)
  show ?case
  proof (cases "bit_of s (Suc l) (i XOR 1)")
    case False
    let ?s = "put_bit l (i div 2) False (put_bit (Suc l) (i XOR 1) True (put_bit (Suc l) i True s))"
    have "merge_abs ?s l (i div 2) = (s', l', i')" using False Suc.prems(2) by simp
    from Suc.IH [OF half_less [OF Suc.prems(1)] this] show ?thesis by simp
  qed (use Suc.prems in auto)
qed simp

lemma merge_abs_free_of: "merge_abs s l i = (s', l', i') \<Longrightarrow> free_of s' = free_of s"
proof (induction l arbitrary: i s)
  case (Suc l)
  then show ?case by (force split: if_splits)
qed simp

lemma merge_loop_sim:
  assumes "buddy_rep m alloc k s" "l \<le> k" "i < 2 ^ l" "merge_abs s l i = (s', l', i')"
  shows "\<exists>m'. merge_loop m alloc (int l) (int i) = (m', int l', int i') \<and> buddy_rep m' alloc k s'
    \<and> keeps m m' alloc k B"
  using assms
proof (induction l arbitrary: m s i)
  case 0
  then show ?case by (subst merge_loop.simps) simp
next
  case (Suc l)
  have lk: "l \<le> k" "Suc l \<le> k" using Suc.prems(2) by auto
  have x: "i XOR 1 < 2 ^ Suc l" using Suc.prems(3) by (rule bb.xor_one_less)
  have bit: "buddy_get m (bitmap (load_buddy m alloc)) (size_of_int (int (Suc l)))
      (size_of_int (int i XOR 1)) = bit_of s (Suc l) (i XOR 1)"
    unfolding int_xor_one size_of_int_small by (rule rep_bit [OF Suc.prems(1) lk(2) x])
  have h: "int i sdiv 2 = int (i div 2)" using int_sdiv_int [of i 2] by simp
  show ?case
  proof (cases "bit_of s (Suc l) (i XOR 1)")
    case True
    then have "s' = s" "l' = Suc l" "i' = i" using Suc.prems(4) by auto
    then show ?thesis using True bit Suc.prems(1) by (subst merge_loop.simps) simp
  next
    case False
    define m1 where "m1 = buddy_set m (bitmap (load_buddy m alloc)) (of_nat (Suc l)) (of_nat i)"
    define m2 where "m2 = buddy_set m1 (bitmap (load_buddy m1 alloc)) (of_nat (Suc l)) (of_nat (i XOR 1))"
    define m3 where "m3 = buddy_unset m2 (bitmap (load_buddy m2 alloc)) (of_nat l) (of_nat (i div 2))"
    have R1: "buddy_rep m1 alloc k (put_bit (Suc l) i True s)" "keeps m m1 alloc k B"
      using rep_set [OF Suc.prems(1) lk(2) Suc.prems(3)] by (simp_all add: m1_def)
    have R2: "buddy_rep m2 alloc k (put_bit (Suc l) (i XOR 1) True (put_bit (Suc l) i True s))"
      "keeps m1 m2 alloc k B"
      using rep_set [OF R1(1) lk(2) x] by (simp_all add: m2_def)
    let ?s3 = "put_bit l (i div 2) False (put_bit (Suc l) (i XOR 1) True (put_bit (Suc l) i True s))"
    have R3: "buddy_rep m3 alloc k ?s3" "keeps m2 m3 alloc k B"
      using rep_unset [OF R2(1) lk(1) half_less [OF Suc.prems(3)]] by (simp_all add: m3_def)
    have "merge_abs ?s3 l (i div 2) = (s', l', i')" using False Suc.prems(4) by simp
    from Suc.IH [OF R3(1) lk(1) half_less [OF Suc.prems(3)] this]
    obtain m' where m': "merge_loop m3 alloc (int l) (int (i div 2)) = (m', int l', int i')"
      "buddy_rep m' alloc k s'" "keeps m3 m' alloc k B" by blast
    have "merge_loop m alloc (int (Suc l)) (int i) = merge_loop m3 alloc (int l) (int (i div 2))"
      using False bit
      by (subst merge_loop.simps)
         (simp add: Let_def h int_xor_one size_of_int_small m3_def m2_def m1_def del: of_nat_Suc of_nat_div,
          simp add: size_of_int_small)
    then show ?thesis
      using m' keeps_trans [OF keeps_trans [OF keeps_trans [OF R1(2) R2(2)] R3(2)] m'(3)] by auto
  qed
qed

text \<open>
  \<open>buddy_free\<close> of the block with leaf \<open>j\<close> ends with the push of the block that the climb and the
  merges arrive at. The index fits an \<open>int\<close> up to a pool of \<open>2 ^ 31\<close> pages.
\<close>

lemma buddy_free_sim:
  assumes "buddy_rep m alloc k s" "k \<le> 31" "j < 2 ^ k"
    and "climb_abs s k j = (l, i)" "merge_abs (put_bit l i False s) l i = (s', l', i')"
  obtains m' where "buddy_free m alloc (bptr m alloc k j)
      = Some (freelist_push m' (head_cell m' alloc (of_nat l')) (bptr m' alloc l' i'))"
    "buddy_rep m' alloc k s'" "keeps m m' alloc k B"
proof -
  note lay = rep_layout [OF assms(1)]
  have ki: "int_of_size (buddy_layers (load_buddy m alloc) - 1) = int k"
    using assms(1,2) by (simp add: buddy_rep_def int_of_size_small unat_of_nat64)
  have "(2::nat) ^ k \<le> 2 ^ 31" using assms(2) by (intro power_increasing) auto
  then have ji: "int_of_size (of_nat j) = int j"
    using assms(3) by (simp add: int_of_size_small unat_of_nat64)
  have v: "l \<le> k" "i < 2 ^ l" using climb_abs_valid [OF assms(3,4)] by auto
  have cl: "climb_loop m alloc (int k) (int j) = (int l, int i)"
    using climb_loop_eq [OF assms(1) order_refl assms(3)] assms(4) by simp
  define m1 where "m1 = buddy_unset m (bitmap (load_buddy m alloc)) (of_nat l) (of_nat i)"
  have R1: "buddy_rep m1 alloc k (put_bit l i False s)" "keeps m m1 alloc k B"
    using rep_unset [OF assms(1) v] by (simp_all add: m1_def)
  obtain m2 where m2: "merge_loop m1 alloc (int l) (int i) = (m2, int l', int i')"
    "buddy_rep m2 alloc k s'" "keeps m1 m2 alloc k B"
    using merge_loop_sim [OF R1(1) v assms(5)] by blast
  have "buddy_free m alloc (bptr m alloc k j)
      = Some (freelist_push m2 (head_cell m2 alloc (of_nat l')) (bptr m2 alloc l' i'))"
    using bptr_index [OF lay order_refl assms(3)] m2(1)
    by (simp add: buddy_free_def ki ji size_of_int_small cl Let_def bptr_def flip: m1_def)
  then show ?thesis using that m2(2) keeps_trans [OF R1(2) m2(3)] by blast
qed

end
