(* ===== verification/Buddy_Correct.thy ===== *)
theory Buddy_Correct
  imports Buddy_Sim
begin

section \<open>Correctness of the buddy allocator\<close>

text \<open>
  The states an allocator reaches from its initial one by allocations, releases and writes of the
  users into their own blocks, and what holds in all of them. The contract for the clients is the
  locale \<open>page_source\<close>, interpreted on \<open>buddy_alloc\<close> and \<open>buddy_free\<close>.
\<close>

subsection \<open>Reachable states\<close>

text \<open>The layer and index of the block that a request is served with.\<close>

definition served_block :: "mem \<Rightarrow> ptr \<Rightarrow> u64 \<Rightarrow> ptr \<Rightarrow> block" where
  "served_block m alloc pages p =
     (let a = load_buddy m alloc in
      case best_fit_layer pages (root_block_size a) of
        None \<Rightarrow> (0, 0)
      | Some bf \<Rightarrow> (case to_index (pool_begin a) bf p (root_block_size a) of
                      None \<Rightarrow> (0, 0) | Some i \<Rightarrow> (unat bf, unat i)))"

inductive buddy_step :: "ptr \<Rightarrow> nat \<Rightarrow> mem \<times> block set \<Rightarrow> mem \<times> block set \<Rightarrow> bool" for alloc k where
  alloc: "pages \<noteq> 0 \<Longrightarrow> buddy_alloc m alloc pages = Some (p, m') \<Longrightarrow> p \<noteq> NULL \<Longrightarrow>
    buddy_step alloc k (m, A) (m', insert (served_block m alloc pages p) A)"
| release: "(l, i) \<in> A \<Longrightarrow> even i \<Longrightarrow> buddy_free m alloc (bptr m alloc l i) = Some m' \<Longrightarrow>
    buddy_step alloc k (m, A) (m', A - {(l, i)})"
| user_write: "b \<in> A \<Longrightarrow> in_block (pool_begin (load_buddy m alloc)) k b x \<Longrightarrow>
    buddy_step alloc k (m, A) (m(x := c), A)"

inductive_cases buddy_stepE: "buddy_step alloc k (m, A) (m', A')"

inductive buddy_reach :: "ptr \<Rightarrow> nat \<Rightarrow> mem \<Rightarrow> block set \<Rightarrow> bool" for alloc k where
  start: "buddy_rep m alloc k init_abs \<Longrightarrow> k \<le> 31 \<Longrightarrow> buddy_reach alloc k m {}"
| step: "buddy_reach alloc k m A \<Longrightarrow> buddy_step alloc k (m, A) (m', A') \<Longrightarrow> buddy_reach alloc k m' A'"

text \<open>A write into an allocated block keeps the relation to the abstract machine.\<close>

lemma rep_user_write:
  assumes "buddy_rep m alloc k s" "tree_inv k s A" "b \<in> A"
    and "in_block (pool_begin (load_buddy m alloc)) k b x"
  shows "buddy_rep (m(x := c)) alloc k s"
proof -
  note lay = rep_layout [OF assms(1)]
  note L = layoutD [OF lay] and X = in_block_pool [OF assms(4)] and T = tree_invD [OF assms(2)]
  have up: "unat alloc + 48 \<le> unat x" using L(3-5) X by linarith
  note ld = load_buddy_upd [OF up, of m c]
  have heads: "rd64 (m(x := c)) (head_cell m alloc (of_nat l)) = rd64 m (head_cell m alloc (of_nat l))"
    if "l \<le> k" for l
    using head_cell_cell [OF lay that] head_below [OF lay that] L(5) X
    by (intro rd64_upd_apart) (auto simp: cell_def in_region_def)
  have nodes: "rd64 (m(x := c)) (bptr m alloc l i) = rd64 m (bptr m alloc l i)"
    if "l \<le> k" "i \<in> set (free_of s l)" for l i
  proof (rule rd64_upd_apart)
    have i: "i < 2 ^ l" using free_ok_valid [OF rep_free_ok [OF assms(1)] that(1)] that(2) by simp
    show "unat (bptr m alloc l i) + 8 \<le> 18446744073709551616"
      using bptr_cell [OF lay that(1) i] by (simp add: cell_def)
    show "\<not> in_region (bptr m alloc l i) 8 x"
    proof
      assume "in_region (bptr m alloc l i) 8 x"
      moreover have "(1::nat) \<le> 2 ^ (k - l)" by simp
      then have "(8::nat) \<le> 2 ^ (k - l) * 4096" by linarith
      ultimately have "in_block (pool_begin (load_buddy m alloc)) k (l, i) x"
        using unat_bptr [OF lay that(1) i] unfolding in_region_def in_block_def fst_conv snd_conv by linarith
      moreover have "(l, i) \<in> free_set s" using that by (simp add: free_set_def)
      ultimately have "b = (l, i)"
        using in_block_page [OF assms(4)] in_block_page assms(3)
        by (intro partition_disjoint [OF T(3)]) auto
      then show False using T(2) assms(3) \<open>(l, i) \<in> free_set s\<close> by auto
    qed
  qed
  have "buddy_inv (m(x := c)) alloc k (free_of s)"
    by (rule inv_cong [OF rep_inv [OF assms(1)] ld heads nodes])
  moreover have "bitmap (load_buddy m alloc) + mask_index (of_nat l) (of_nat i) \<noteq> x"
    if "l \<le> k" "i < 2 ^ l" for l i
    using bit_address(2) [OF lay that] L(5) X by auto
  ultimately show ?thesis using assms(1) by (simp add: buddy_rep_def ld buddy_get_def)
qed

lemma best_fit_exists:
  assumes "buddy_layout m alloc k" "pages \<noteq> 0"
  obtains bf where "best_fit_layer pages (root_block_size (load_buddy m alloc)) = Some (of_nat bf)" "bf \<le> k"
  by (rule best_fit_layer_quotient [OF layoutD(6) [OF assms(1)] assms(2)]) blast

text \<open>One call of \<open>buddy_alloc\<close>, in terms of the abstract machine.\<close>

lemma buddy_alloc_cases:
  assumes "buddy_rep m alloc k s" "tree_inv k s A" "pages \<noteq> 0"
  obtains (full) bf where "best_fit_layer pages (root_block_size (load_buddy m alloc)) = Some (of_nat bf)"
      "bf \<le> k" "buddy_alloc m alloc pages = Some (NULL, m)" "\<forall>l\<le>bf. free_of s l = []"
  | (served) bf i m' s' where "best_fit_layer pages (root_block_size (load_buddy m alloc)) = Some (of_nat bf)"
      "bf \<le> k" "i < 2 ^ bf" "buddy_alloc m alloc pages = Some (bptr m alloc bf i, m')"
      "bptr m alloc bf i \<noteq> NULL" "served_block m alloc pages (bptr m alloc bf i) = (bf, i)"
      "alloc_abs s bf = Some (i, s')"
      "buddy_rep m' alloc k s'" "tree_inv k s' (insert (bf, i) A)" "(bf, i) \<notin> A" "keeps m m' alloc k A"
proof -
  note lay = rep_layout [OF assms(1)]
  obtain bf where bf: "best_fit_layer pages (root_block_size (load_buddy m alloc)) = Some (of_nat bf)" "bf \<le> k"
    by (rule best_fit_exists [OF lay assms(3)])
  show ?thesis
  proof (cases "alloc_abs s bf")
    case None
    then show ?thesis using full [OF bf] buddy_alloc_none [OF assms(1) bf(2) None bf(1)] by (simp add: alloc_abs_none)
  next
    case (Some r)
    obtain i s' where r: "alloc_abs s bf = Some (i, s')" using Some by (cases r) auto
    note T = alloc_abs_some [OF assms(2) bf(2) r]
    have i: "i < 2 ^ bf" using partition_valid [OF tree_invD(3) [OF T(1)], of bf i] by simp
    obtain m' where m': "buddy_alloc m alloc pages = Some (bptr m alloc bf i, m')" "buddy_rep m' alloc k s'"
      "keeps m m' alloc k A"
      by (rule buddy_alloc_some [OF assms(1,2) bf(2) r bf(1)])
    have "unat (of_nat bf :: u64) = bf" "unat (of_nat i :: u64) = i"
      using pool_index [OF layoutD(6) [OF lay] bf(2) i] layoutD(7) [OF lay] bf(2) by (auto simp: unat_of_nat64)
    then have "served_block m alloc pages (bptr m alloc bf i) = (bf, i)"
      using bf(1) bptr_index [OF lay bf(2) i] by (simp add: served_block_def Let_def)
    then show ?thesis
      using served [OF bf i m'(1) bptr_cell(2) [OF lay bf(2) i] _ r m'(2) T m'(3)] by blast
  qed
qed

text \<open>One call of \<open>buddy_free\<close> on a block of even index.\<close>

lemma buddy_free_even:
  assumes "buddy_rep m alloc k s" "tree_inv k s A" "(l, i) \<in> A" "even i" "k \<le> 31"
  obtains m' where "buddy_free m alloc (bptr m alloc l i) = Some m'"
    "buddy_rep m' alloc k (push_abs l i (put_bit l i False s))"
    "tree_inv k (push_abs l i (put_bit l i False s)) (A - {(l, i)})"
    "keeps m m' alloc k (A - {(l, i)})"
proof -
  note lay = rep_layout [OF assms(1)] and T = tree_invD [OF assms(2)]
  note E = free_abs_even [OF assms(2-4)]
  have V: "l \<le> k" "i < 2 ^ l" using partition_valid [OF T(3), of l i] assms(3) by auto
  let ?j = "i * 2 ^ (k - l)"
  have j: "?j < 2 ^ k" using block_inside [OF V] zero_less_power [of "2 :: nat" "k - l"] by linarith
  have cl: "climb_abs s k ?j = (l, i)"
    using climb_to_block [OF assms(2,3)] T(4) [OF V] assms(3,4) by (cases l) auto
  have mg: "merge_abs (put_bit l i False s) l i = (put_bit l i False s, l, i)"
  proof (cases l)
    case (Suc l')
    have x: "i XOR 1 = Suc i" using assms(4) by (simp only: xor_one_eq) simp
    then have x0: "i XOR Suc 0 = Suc i" by simp
    have "Suc i < 2 ^ l" using V(2) assms(4) Suc by (metis Suc_lessI dvd_triv_left even_Suc power_Suc)
    then have "bit_of s l (Suc i)" using T(4) [OF V(1)] assms(4) by simp
    then show ?thesis using Suc by (simp add: x0)
  qed simp
  obtain m1 where m1: "buddy_free m alloc (bptr m alloc k ?j)
      = Some (freelist_push m1 (head_cell m1 alloc (of_nat l)) (bptr m1 alloc l i))"
    "buddy_rep m1 alloc k (put_bit l i False s)" "keeps m m1 alloc k (A - {(l, i)})"
    by (rule buddy_free_sim [OF assms(1,5) j cl mg])
  let ?m = "freelist_push m1 (head_cell m1 alloc (of_nat l)) (bptr m1 alloc l i)"
  have ok: "free_ok k (free_of (push_abs l i (put_bit l i False s)))"
    using tree_inv_free_ok [OF E(2)] by (simp add: E(1))
  have dis: "bpages k b \<inter> pages_of k l i = {}" if "b \<in> A - {(l, i)}" for b
  proof (rule equals0I)
    fix x assume "x \<in> bpages k b \<inter> pages_of k l i"
    then have "b = (l, i)" using that assms(3) by (intro partition_disjoint [OF T(3), of b _ x]) auto
    with that show False by simp
  qed
  have "buddy_rep ?m alloc k (push_abs l i (put_bit l i False s))" "keeps m1 ?m alloc k (A - {(l, i)})"
    using rep_push [OF m1(2) V(1) ok dis refl] by blast+
  moreover have "bptr m alloc k ?j = bptr m alloc l i" using bptr_first [OF lay V(1) order_refl V(2)] .
  ultimately show ?thesis
    using that [of ?m] m1(1) E(2) keeps_trans [OF m1(3)] by (simp add: E(1))
qed

text \<open>
  One step, in terms of the abstract machine: the memory afterwards represents a state with the
  same invariant, and no layer up to \<open>L\<close> gains a block when it had none.
\<close>

lemma split_abs_above: "L \<le> l \<Longrightarrow> l' \<le> L \<Longrightarrow> free_of (split_abs d s l i) l' = free_of s l'"
  by (induction d arbitrary: s l i) (auto simp: split_step_def push_abs_def)

lemma alloc_abs_above:
  assumes "alloc_abs s bf = Some (i, s')" "\<forall>l\<le>L. free_of s l = []"
  shows "L < bf" "\<forall>l\<le>L. free_of s' l = []"
proof -
  let ?l = "find_abs s bf"
  obtain i0 js where f: "free_of s ?l = i0 # js" "s' = split_abs (bf - ?l) (pop_abs ?l s) ?l i0"
    using assms(1) by (auto simp: alloc_abs_def Let_def split: list.splits)
  have l: "L < ?l" using f(1) assms(2) by (metis linorder_not_le list.discI)
  then show "L < bf" using find_abs_le [of s bf] by simp
  show "\<forall>l\<le>L. free_of s' l = []"
    using split_abs_above [of L ?l] l assms(2) by (auto simp: f(2) pop_abs_def)
qed

lemma buddy_step_sim:
  assumes "buddy_rep m alloc k s" "tree_inv k s A" "k \<le> 31" "buddy_step alloc k (m, A) (m', A')"
  obtains s' where "buddy_rep m' alloc k s'" "tree_inv k s' A'"
    "load_buddy m' alloc = load_buddy m alloc"
    "(\<forall>l\<le>L. free_of s l = []) \<Longrightarrow> (\<forall>b\<in>A. L < fst b) \<Longrightarrow>
       (\<forall>l\<le>L. free_of s' l = []) \<and> (\<forall>b\<in>A'. L < fst b)"
  using assms(4)
proof cases
  case (alloc pages p)
  note 1 = this
  from assms(1,2) 1(2) show ?thesis
  proof (cases rule: buddy_alloc_cases)
    case full
    with 1 show ?thesis by simp
  next
    case (served bf i m'' s')
    have e: "p = bptr m alloc bf i" "m' = m''" using served(4) 1(3) by simp_all
    have A': "A' = insert (bf, i) A" using 1(1) served(6) by (simp add: e)
    show ?thesis
    proof (rule that)
      show "(\<forall>l\<le>L. free_of s l = []) \<Longrightarrow> (\<forall>b\<in>A. L < fst b) \<Longrightarrow>
          (\<forall>l\<le>L. free_of s' l = []) \<and> (\<forall>b\<in>A'. L < fst b)"
        using alloc_abs_above [OF served(7), of L] by (auto simp: A')
    qed (use served e A' keeps_load in auto)
  qed
next
  case (release l i)
  note 2 = this
  obtain m1 where m1: "buddy_free m alloc (bptr m alloc l i) = Some m1"
    "buddy_rep m1 alloc k (push_abs l i (put_bit l i False s))"
    "tree_inv k (push_abs l i (put_bit l i False s)) (A - {(l, i)})" "keeps m m1 alloc k (A - {(l, i)})"
    by (rule buddy_free_even [OF assms(1,2) 2(2,3) assms(3)])
  have e: "m' = m1" using m1(1) 2(4) by simp
  show ?thesis
  proof (rule that)
    show "(\<forall>l\<le>L. free_of s l = []) \<Longrightarrow> (\<forall>b\<in>A. L < fst b) \<Longrightarrow>
        (\<forall>n\<le>L. free_of (push_abs l i (put_bit l i False s)) n = []) \<and> (\<forall>b\<in>A'. L < fst b)"
      using 2(1,2) by (auto simp: push_abs_def)
  qed (use m1 e 2(1) keeps_load in auto)
next
  case (user_write b x c)
  note 3 = this
  have "unat alloc + 48 \<le> unat x"
    using layoutD(3-5) [OF rep_layout [OF assms(1)]] in_block_pool [OF 3(4)] by linarith
  then have "load_buddy m' alloc = load_buddy m alloc" by (simp add: 3(1) load_buddy_upd)
  moreover have "buddy_rep m' alloc k s"
    unfolding 3(1) by (rule rep_user_write [OF assms(1,2) 3(3,4)])
  ultimately show ?thesis using that [of s] assms(2) 3(2) by simp
qed

lemma buddy_reach_rep:
  "buddy_reach alloc k m A \<Longrightarrow> k \<le> 31 \<and> (\<exists>s. buddy_rep m alloc k s \<and> tree_inv k s A)"
proof (induction rule: buddy_reach.induct)
  case (start m)
  then show ?case using tree_inv_init by blast
next
  case (step m A m' A')
  then obtain s where s: "buddy_rep m alloc k s" "tree_inv k s A" "k \<le> 31" by blast
  obtain s' where "buddy_rep m' alloc k s'" "tree_inv k s' A'" by (rule buddy_step_sim [OF s step(2), of 0])
  with s(3) show ?case by blast
qed

lemma buddy_reachE:
  assumes "buddy_reach alloc k m A"
  obtains s where "buddy_rep m alloc k s" "tree_inv k s A" "k \<le> 31"
  using buddy_reach_rep [OF assms] by blast

subsection \<open>The contract for the clients\<close>

datatype 'r action = Get 'r | Put nat

locale page_source =
  fixes ok :: "'s \<Rightarrow> 'b set \<Rightarrow> bool"
    and get :: "'s \<Rightarrow> 'r \<Rightarrow> ('b \<times> 's) option"
    and put :: "'s \<Rightarrow> 'b \<Rightarrow> 's"
    and good :: "'b \<Rightarrow> bool"
    and separate :: "'b \<Rightarrow> 'b \<Rightarrow> bool"
  assumes get_ok: "ok s A \<Longrightarrow> get s r = Some (b, s') \<Longrightarrow> b \<notin> A \<and> ok s' (insert b A)"
    and put_ok: "ok s A \<Longrightarrow> b \<in> A \<Longrightarrow> good b \<Longrightarrow> ok (put s b) (A - {b})"
    and separated: "ok s A \<Longrightarrow> a \<in> A \<Longrightarrow> b \<in> A \<Longrightarrow> a \<noteq> b \<Longrightarrow> separate a b"
begin

fun serve :: "'s \<times> 'b list \<Rightarrow> 'r action \<Rightarrow> 's \<times> 'b list" where
  "serve (s, live) (Get r) = (case get s r of None \<Rightarrow> (s, live) | Some (b, s') \<Rightarrow> (s', b # live))"
| "serve (s, live) (Put n) =
     (if n < length live \<and> good (live ! n) then (put s (live ! n), take n live @ drop (Suc n) live)
      else (s, live))"

definition served :: "'s \<times> 'b list \<Rightarrow> bool" where
  "served c \<longleftrightarrow> ok (fst c) (set (snd c)) \<and> distinct (snd c)"

lemma serve_served: "served c \<Longrightarrow> served (serve c a)"
proof (cases a)
  case (Get r)
  assume "served c"
  then show ?thesis using Get get_ok [of "fst c" "set (snd c)" r]
    by (cases c) (auto simp: served_def split: option.splits)
next
  case (Put n)
  assume c: "served c"
  obtain s live where e: "c = (s, live)" by (cases c)
  show ?thesis
  proof (cases "n < length live \<and> good (live ! n)")
    case True
    then have l: "live = take n live @ live ! n # drop (Suc n) live" by (simp add: id_take_nth_drop)
    have d: "distinct live" "ok s (set live)" using c by (simp_all add: served_def e)
    from d(1) have d': "distinct (take n live @ live ! n # drop (Suc n) live)" by (subst (asm) l)
    have "set live = set (take n live @ live ! n # drop (Suc n) live)" by (subst l) (rule refl)
    then have "set (take n live @ drop (Suc n) live) = set live - {live ! n}" using d' by auto
    moreover have "ok (put s (live ! n)) (set live - {live ! n})"
      using d(2) True by (intro put_ok) auto
    ultimately show ?thesis using True d' Put by (simp add: e served_def)
  qed (use c Put e in auto)
qed

text \<open>However requests and releases alternate, the blocks in use are always separate.\<close>

lemma serve_all: "served c \<Longrightarrow> served (foldl serve c acts)"
  by (induction acts arbitrary: c) (simp, metis serve_served foldl_Cons)

lemma all_separate:
  assumes "ok s {}"
  shows "pairwise separate (set (snd (foldl serve (s, []) acts)))
    \<and> distinct (snd (foldl serve (s, []) acts))"
proof -
  have "served (foldl serve (s, []) acts)" using assms by (intro serve_all) (simp add: served_def)
  then show ?thesis using separated by (auto simp: served_def pairwise_def)
qed

end

subsection \<open>The buddy allocator is a source of pages\<close>

definition buddy_get_block :: "ptr \<Rightarrow> mem \<Rightarrow> u64 \<Rightarrow> (block \<times> mem) option" where
  "buddy_get_block alloc m pages =
     (if pages = 0 then None
      else case buddy_alloc m alloc pages of
             None \<Rightarrow> None
           | Some (p, m') \<Rightarrow> if p = NULL then None else Some (served_block m alloc pages p, m'))"

definition buddy_put_block :: "ptr \<Rightarrow> mem \<Rightarrow> block \<Rightarrow> mem" where
  "buddy_put_block alloc m b =
     (case buddy_free m alloc (bptr m alloc (fst b) (snd b)) of None \<Rightarrow> m | Some m' \<Rightarrow> m')"

definition disjoint_blocks :: "nat \<Rightarrow> block \<Rightarrow> block \<Rightarrow> bool" where
  "disjoint_blocks k b c \<longleftrightarrow> bpages k b \<inter> bpages k c = {}"

lemma reach_disjoint:
  "buddy_reach alloc k m A \<Longrightarrow> b \<in> A \<Longrightarrow> c \<in> A \<Longrightarrow> b \<noteq> c \<Longrightarrow> disjoint_blocks k b c"
  unfolding disjoint_blocks_def
  by (erule buddy_reachE, rule equals0I) (auto dest: tree_invD(3) partition_disjoint [where b = b and c = c])

interpretation bs: page_source "buddy_reach alloc k" "buddy_get_block alloc" "buddy_put_block alloc"
  "\<lambda>b. even (snd b)" "disjoint_blocks k"
proof unfold_locales
  fix m A r b m'
  assume r: "buddy_reach alloc k m A" "buddy_get_block alloc m r = Some (b, m')"
  obtain p where p: "r \<noteq> 0" "buddy_alloc m alloc r = Some (p, m')" "p \<noteq> NULL" "b = served_block m alloc r p"
    using r(2) by (auto simp: buddy_get_block_def split: if_splits option.splits)
  have "buddy_reach alloc k m' (insert b A)"
    unfolding p(4) by (rule buddy_reach.step [OF r(1)], rule buddy_step.alloc [OF p(1-3)])
  moreover obtain s where s: "buddy_rep m alloc k s" "tree_inv k s A" by (rule buddy_reachE [OF r(1)])
  from s p(1) have "b \<notin> A"
  proof (cases rule: buddy_alloc_cases)
    case full
    with p show ?thesis by simp
  next
    case (served bf i m'' s')
    then show ?thesis using p by simp
  qed
  ultimately show "b \<notin> A \<and> buddy_reach alloc k m' (insert b A)" by simp
next
  fix m A and b :: block
  assume r: "buddy_reach alloc k m A" "b \<in> A" "even (snd b)"
  obtain s where s: "buddy_rep m alloc k s" "tree_inv k s A" "k \<le> 31" by (rule buddy_reachE [OF r(1)])
  have b: "(fst b, snd b) \<in> A" using r(2) by simp
  obtain m' where m': "buddy_free m alloc (bptr m alloc (fst b) (snd b)) = Some m'"
    by (rule buddy_free_even [OF s(1,2) b r(3) s(3)])
  have "buddy_step alloc k (m, A) (m', A - {(fst b, snd b)})" using b r(3) m' by (rule buddy_step.release)
  from buddy_reach.step [OF r(1) this] show "buddy_reach alloc k (buddy_put_block alloc m b) (A - {b})"
    by (simp add: buddy_put_block_def m')
qed (fact reach_disjoint)

end
