(* ===== verification/Slab.thy ===== *)
theory Slab
  imports Buddy_Correct
begin

section \<open>The slab allocator (slab.h, slab.c)\<close>

text \<open>
  Objects of one size, carved out of caches of pages that come from the buddy allocator. As in the
  buddy allocator the state lives in the managed memory: a \<open>slab_alloc_t\<close> at the start of the
  first cache, a \<open>slab_cache_header_t\<close> at the start of every cache (after the
  \<open>slab_alloc_t\<close> in the first), and an eight-byte header with the cache in front of every object.
  Every field access of the C code is a load or store at its offset here, so that the aliasing of
  the cache pointers is that of the code. A result \<open>None\<close> is undefined behaviour (a division by
  zero, or what \<open>buddy_alloc\<close> and \<open>buddy_free\<close> leave undefined), or a loop that does not end.
\<close>

subsection \<open>Fields\<close>

text \<open>The offsets of the fields of the two structs; \<open>bool root_cache\<close> is one byte.\<close>

definition sizeof_slab_cache_header_t :: u64 where "sizeof_slab_cache_header_t = 72"
definition sizeof_slab_alloc_t :: u64 where "sizeof_slab_alloc_t = 48"
definition sizeof_object_header :: u64 where "sizeof_object_header = 8"

definition SLAB_MIN_CACHE_PAGES :: u64 where "SLAB_MIN_CACHE_PAGES = 8"
definition SLAB_MIN_CACHE_OBJECTS :: u64 where "SLAB_MIN_CACHE_OBJECTS = 8"

abbreviation (input) c_size :: "ptr \<Rightarrow> ptr" where "c_size c \<equiv> c"
abbreviation (input) c_begin :: "ptr \<Rightarrow> ptr" where "c_begin c \<equiv> c + 8"
abbreviation (input) c_unmanaged_begin :: "ptr \<Rightarrow> ptr" where "c_unmanaged_begin c \<equiv> c + 16"
abbreviation (input) c_prev_cache :: "ptr \<Rightarrow> ptr" where "c_prev_cache c \<equiv> c + 24"
abbreviation (input) c_next_cache :: "ptr \<Rightarrow> ptr" where "c_next_cache c \<equiv> c + 32"
abbreviation (input) c_freelist :: "ptr \<Rightarrow> ptr" where "c_freelist c \<equiv> c + 40"
abbreviation (input) c_allocated_objects :: "ptr \<Rightarrow> ptr" where "c_allocated_objects c \<equiv> c + 48"
abbreviation (input) c_max_objects :: "ptr \<Rightarrow> ptr" where "c_max_objects c \<equiv> c + 56"
abbreviation (input) c_root_cache :: "ptr \<Rightarrow> ptr" where "c_root_cache c \<equiv> c + 64"

abbreviation (input) s_buddy :: "ptr \<Rightarrow> ptr" where "s_buddy a \<equiv> a"
abbreviation (input) s_first_cache :: "ptr \<Rightarrow> ptr" where "s_first_cache a \<equiv> a + 8"
abbreviation (input) s_first_free_cache :: "ptr \<Rightarrow> ptr" where "s_first_free_cache a \<equiv> a + 16"
abbreviation (input) s_last_cache :: "ptr \<Rightarrow> ptr" where "s_last_cache a \<equiv> a + 24"
abbreviation (input) s_objsize :: "ptr \<Rightarrow> ptr" where "s_objsize a \<equiv> a + 32"
abbreviation (input) s_cachesize :: "ptr \<Rightarrow> ptr" where "s_cachesize a \<equiv> a + 40"

text \<open>\<open>sizeof(objsize)\<close> is the size of a \<open>size_t\<close>.\<close>

definition slab_cache_pages :: "u64 \<Rightarrow> u64" where
  "slab_cache_pages objsize =
     (if objsize * SLAB_MIN_CACHE_OBJECTS < SLAB_MIN_CACHE_PAGES then SLAB_MIN_CACHE_PAGES
      else SLAB_MIN_CACHE_OBJECTS * 8)"

subsection \<open>The list of caches\<close>

definition slab_cache_move_down :: "mem \<Rightarrow> ptr \<Rightarrow> ptr \<Rightarrow> mem" where
  "slab_cache_move_down m alloc cache =
     (if rd64 m (c_next_cache cache) = NULL then m
      else
        let m1 = wr64 m (c_next_cache (rd64 m (c_next_cache cache))) cache;
            m2 = wr64 m1 (c_prev_cache (rd64 m1 (c_next_cache cache))) (rd64 m1 (c_prev_cache cache));
            m3 = wr64 m2 (c_prev_cache cache) (rd64 m2 (c_next_cache cache));
            m4 = wr64 m3 (c_next_cache cache) (rd64 m3 (c_next_cache (rd64 m3 (c_next_cache cache))))
        in if rd64 m4 (c_prev_cache cache) = NULL
           then wr64 m4 (s_first_cache alloc) (rd64 m4 (c_next_cache cache)) else m4)"

definition slab_cache_move_up :: "mem \<Rightarrow> ptr \<Rightarrow> ptr \<Rightarrow> mem" where
  "slab_cache_move_up m alloc cache =
     (if rd64 m (c_prev_cache cache) = NULL then m
      else
        let m1 = wr64 m (c_prev_cache (rd64 m (c_prev_cache cache))) cache;
            m2 = wr64 m1 (c_next_cache (rd64 m1 (c_prev_cache cache))) (rd64 m1 (c_next_cache cache));
            m3 = wr64 m2 (c_next_cache cache) (rd64 m2 (c_prev_cache cache));
            m4 = wr64 m3 (c_prev_cache cache) (rd64 m3 (c_prev_cache (rd64 m3 (c_prev_cache cache))))
        in if rd64 m4 (c_next_cache cache) = NULL
           then wr64 m4 (s_last_cache alloc) (rd64 m4 (c_prev_cache cache)) else m4)"

text \<open>The assignments to the fields of a new cache header that do not depend on the slab.\<close>

definition slab_cache_header :: "mem \<Rightarrow> ptr \<Rightarrow> ptr \<Rightarrow> mem" where
  "slab_cache_header m b e =
     (let cache = b;
          m = wr64 m (c_size cache) (e - b - sizeof_slab_cache_header_t);
          m = wr64 m (c_begin cache) b;
          m = wr64 m (c_unmanaged_begin cache) (b + sizeof_slab_cache_header_t);
          m = wr64 m (c_prev_cache cache) NULL;
          m = wr64 m (c_next_cache cache) NULL;
          m = wr64 m (c_freelist cache) NULL
      in wr64 m (c_allocated_objects cache) 0)"

text \<open>The insertion at the end of the list of caches.\<close>

definition slab_cache_link :: "mem \<Rightarrow> ptr \<Rightarrow> ptr \<Rightarrow> mem" where
  "slab_cache_link m alloc cache =
     (let m = (if rd64 m (s_first_cache alloc) = NULL then
                 let m = m(c_root_cache cache := 1);
                     m = wr64 m (s_first_cache alloc) cache
                 in wr64 m (s_last_cache alloc) cache
               else
                 let m = wr64 m (c_next_cache (rd64 m (s_last_cache alloc))) cache;
                     m = wr64 m (c_prev_cache cache) (rd64 m (s_last_cache alloc))
                 in wr64 m (s_last_cache alloc) cache)
      in if rd64 m (s_first_free_cache alloc) = NULL
         then wr64 m (s_first_free_cache alloc) cache else m)"

definition slab_cache_init :: "mem \<Rightarrow> ptr \<Rightarrow> ptr \<Rightarrow> ptr \<Rightarrow> mem option" where
  "slab_cache_init m alloc b e =
     (let cache = b;
          m = slab_cache_header m b e
      in if rd64 m (s_objsize alloc) = 0 then None
         else
           let m = wr64 m (c_max_objects cache) (rd64 m (c_size cache) div rd64 m (s_objsize alloc));
               m = m(c_root_cache cache := 0)
           in Some (slab_cache_link m alloc cache))"

text \<open>
  \<open>while (first_free_cache != NULL && it is full) first_free_cache = first_free_cache->next_cache\<close>:
  on a list with a cycle of full caches the loop does not return.
\<close>

partial_function (option) skip_full :: "mem \<Rightarrow> ptr \<Rightarrow> mem option" where
  "skip_full m alloc =
     (if rd64 m (s_first_free_cache alloc) \<noteq> NULL
         \<and> rd64 m (c_allocated_objects (rd64 m (s_first_free_cache alloc)))
           = rd64 m (c_max_objects (rd64 m (s_first_free_cache alloc)))
      then skip_full (wr64 m (s_first_free_cache alloc)
             (rd64 m (c_next_cache (rd64 m (s_first_free_cache alloc))))) alloc
      else Some m)"

definition slab_cache_alloc :: "mem \<Rightarrow> ptr \<Rightarrow> ptr \<Rightarrow> (ptr \<times> mem) option" where
  "slab_cache_alloc m alloc cache =
     (if rd64 m (c_allocated_objects cache) = rd64 m (c_max_objects cache) then Some (NULL, m)
      else
        let m1 = wr64 m (c_allocated_objects cache) (rd64 m (c_allocated_objects cache) + 1);
            m2 = (if rd64 m1 (c_prev_cache cache) \<noteq> NULL
                    \<and> rd64 m1 (c_allocated_objects (rd64 m1 (c_prev_cache cache)))
                        < rd64 m1 (c_allocated_objects cache)
                  then slab_cache_move_up m1 alloc cache else m1)
        in case skip_full m2 alloc of
             None \<Rightarrow> None
           | Some m3 \<Rightarrow>
               let (p, m4) = freelist_pop m3 (c_freelist cache);
                   (p, m5) = (if p = NULL
                              then (rd64 m4 (c_unmanaged_begin cache),
                                    wr64 m4 (c_unmanaged_begin cache)
                                      (rd64 m4 (c_unmanaged_begin cache) + rd64 m4 (s_objsize alloc)))
                              else (p, m4))
               in Some (p + sizeof_object_header, wr64 m5 p cache))"

definition slab_cache_free :: "mem \<Rightarrow> ptr \<Rightarrow> ptr \<Rightarrow> ptr \<Rightarrow> mem" where
  "slab_cache_free m alloc cache p =
     (let m1 = freelist_push m (c_freelist cache) p;
          m2 = wr64 m1 (c_allocated_objects cache) (rd64 m1 (c_allocated_objects cache) - 1)
      in if rd64 m2 (c_next_cache cache) \<noteq> NULL
            \<and> rd64 m2 (c_allocated_objects cache)
                < rd64 m2 (c_allocated_objects (rd64 m2 (c_next_cache cache)))
         then slab_cache_move_down m2 alloc cache else m2)"

text \<open>
  \<open>alloc\<close> is the slab itself in \<open>slab_free\<close>, and the copy that \<open>slab_destroy\<close> keeps on its
  stack there; both are addresses of a struct in memory.
\<close>

definition slab_cache_destroy :: "mem \<Rightarrow> ptr \<Rightarrow> ptr \<Rightarrow> mem option" where
  "slab_cache_destroy m alloc cache =
     (let m1 = (if rd64 m (c_prev_cache cache) = NULL
                then wr64 m (s_first_cache alloc) (rd64 m (c_next_cache cache)) else m);
          m2 = (if rd64 m1 (c_next_cache cache) = NULL
                then wr64 m1 (s_last_cache alloc) (rd64 m1 (c_prev_cache cache)) else m1);
          m3 = (if rd64 m2 (c_prev_cache cache) \<noteq> NULL \<and> rd64 m2 (c_next_cache cache) \<noteq> NULL
                then let m = wr64 m2 (c_next_cache (rd64 m2 (c_prev_cache cache))) (rd64 m2 (c_next_cache cache))
                     in wr64 m (c_prev_cache (rd64 m (c_next_cache cache))) (rd64 m (c_prev_cache cache))
                else m2);
          p = (if m3 (c_root_cache cache) \<noteq> 0 then cache - sizeof_slab_alloc_t else cache)
      in buddy_free m3 (rd64 m3 (s_buddy alloc)) p)"

subsection \<open>The interface\<close>

definition slab_init :: "mem \<Rightarrow> ptr \<Rightarrow> u64 \<Rightarrow> (ptr \<times> mem) option" where
  "slab_init m buddy sz =
     (let objsize = sz + sizeof_object_header;
          cachesize = slab_cache_pages objsize
      in case buddy_alloc m buddy cachesize of
           None \<Rightarrow> None
         | Some (p, m) \<Rightarrow>
             if p = NULL then Some (NULL, m)
             else
               let alloc = p;
                   m = wr64 m (s_buddy alloc) buddy;
                   m = wr64 m (s_first_cache alloc) NULL;
                   m = wr64 m (s_first_free_cache alloc) NULL;
                   m = wr64 m (s_last_cache alloc) NULL;
                   m = wr64 m (s_objsize alloc) objsize;
                   m = wr64 m (s_cachesize alloc) cachesize
               in map_option (\<lambda>m. (alloc, m))
                    (slab_cache_init m alloc (p + sizeof_slab_alloc_t) (p + cachesize * PAGE_SIZE)))"

definition slab_alloc :: "mem \<Rightarrow> ptr \<Rightarrow> (ptr \<times> mem) option" where
  "slab_alloc m alloc =
     (if rd64 m (s_first_free_cache alloc) = NULL then
        case buddy_alloc m (rd64 m (s_buddy alloc)) (rd64 m (s_cachesize alloc)) of
          None \<Rightarrow> None
        | Some (c, m1) \<Rightarrow>
            if c = NULL then Some (NULL, m1)
            else (case slab_cache_init m1 alloc c (c + rd64 m1 (s_cachesize alloc) * PAGE_SIZE) of
                    None \<Rightarrow> None
                  | Some m2 \<Rightarrow> slab_cache_alloc m2 alloc (rd64 m2 (s_first_free_cache alloc)))
      else slab_cache_alloc m alloc (rd64 m (s_first_free_cache alloc)))"

definition slab_free :: "mem \<Rightarrow> ptr \<Rightarrow> ptr \<Rightarrow> mem option" where
  "slab_free m alloc p =
     (let obj = p - sizeof_object_header;
          cache = rd64 m obj;
          m1 = slab_cache_free m alloc cache obj
      in if rd64 m1 (c_allocated_objects cache) = 0 \<and> m1 (c_root_cache cache) = 0 then
           (case slab_cache_destroy m1 alloc cache of
              None \<Rightarrow> None
            | Some m2 \<Rightarrow>
                Some (if cache = rd64 m2 (s_first_free_cache alloc)
                      then wr64 m2 (s_first_free_cache alloc) NULL else m2))
         else Some m1)"

text \<open>\<open>while (alloc_copy.first_cache != NULL) slab_cache_destroy(&alloc_copy, alloc_copy.first_cache)\<close>\<close>

partial_function (option) destroy_loop :: "mem \<Rightarrow> ptr \<Rightarrow> mem option" where
  "destroy_loop m alloc =
     (if rd64 m (s_first_cache alloc) \<noteq> NULL
      then (case slab_cache_destroy m alloc (rd64 m (s_first_cache alloc)) of
              None \<Rightarrow> None
            | Some m' \<Rightarrow> destroy_loop m' alloc)
      else Some m)"

text \<open>\<open>copy\<close> is the address of the local variable \<open>alloc_copy\<close>.\<close>

definition slab_destroy :: "mem \<Rightarrow> ptr \<Rightarrow> ptr \<Rightarrow> mem option" where
  "slab_destroy m alloc copy =
     (let m = wr64 m (s_buddy copy) (rd64 m (s_buddy alloc));
          m = wr64 m (s_first_cache copy) (rd64 m (s_first_cache alloc));
          m = wr64 m (s_first_free_cache copy) (rd64 m (s_first_free_cache alloc));
          m = wr64 m (s_last_cache copy) (rd64 m (s_last_cache alloc));
          m = wr64 m (s_objsize copy) (rd64 m (s_objsize alloc));
          m = wr64 m (s_cachesize copy) (rd64 m (s_cachesize alloc))
      in destroy_loop m copy)"

end
