(* ===== verification/Slab_Correct.thy ===== *)
theory Slab_Correct
  imports Slab
begin

section \<open>Correctness of a slab with one cache\<close>

text \<open>
  The invariant of the root cache: slots of \<open>s\<close> bytes, the first \<open>n\<close> of which have been carved
  out of the unmanaged rest; the free ones among them are linked, the others are in use and hold
  the cache in their header. \<open>slab_alloc\<close> and \<open>slab_free\<close> keep it, and so satisfy the contract
  \<open>page_source\<close> like the buddy allocator does for pages.
\<close>

definition slot :: "ptr \<Rightarrow> nat \<Rightarrow> nat \<Rightarrow> ptr" where
  "slot c s i = c + 72 + of_nat (i * s)"

definition slab_geometry :: "mem \<Rightarrow> ptr \<Rightarrow> ptr \<Rightarrow> nat \<Rightarrow> nat \<Rightarrow> bool" where
  "slab_geometry m alloc c N s \<longleftrightarrow>
     alloc \<noteq> NULL \<and> unat c = unat alloc + 48 \<and> unat alloc + 120 + N * s < 18446744073709551616 \<and> 8 \<le> s \<and> 1 \<le> N
     \<and> unat (rd64 m (s_objsize alloc)) = s \<and> unat (rd64 m (c_max_objects c)) = N
     \<and> rd64 m (c_prev_cache c) = NULL \<and> rd64 m (c_next_cache c) = NULL
     \<and> m (c_root_cache c) \<noteq> 0"

definition live :: "nat \<Rightarrow> nat list \<Rightarrow> nat set" where
  "live n fs = {..<n} - set fs"

definition slab_rep :: "mem \<Rightarrow> ptr \<Rightarrow> ptr \<Rightarrow> nat \<Rightarrow> nat \<Rightarrow> nat \<Rightarrow> nat list \<Rightarrow> bool \<Rightarrow> bool" where
  "slab_rep m alloc c N s n fs ff \<longleftrightarrow>
     slab_geometry m alloc c N s \<and> n \<le> N \<and> distinct fs \<and> set fs \<subseteq> {..<n}
     \<and> rd64 m (c_unmanaged_begin c) = slot c s n
     \<and> chain m (rd64 m (c_freelist c)) (map (slot c s) fs)
     \<and> unat (rd64 m (c_allocated_objects c)) = n - length fs
     \<and> rd64 m (s_first_free_cache alloc) = (if ff then c else NULL)
     \<and> (n - length fs = N \<longrightarrow> \<not> ff)
     \<and> (\<forall>i\<in>live n fs. rd64 m (slot c s i) = c)"

subsection \<open>Addresses\<close>

text \<open>All fields of the two structs are \<open>alloc + 8 * k\<close> for some \<open>k < 15\<close>.\<close>

definition field :: "ptr \<Rightarrow> ptr \<Rightarrow> bool" where
  "field alloc x \<longleftrightarrow> unat alloc \<le> unat x \<and> unat x + 8 \<le> unat alloc + 120"

lemma slab_addresses:
  assumes "slab_geometry m alloc c N s"
  shows "unat (alloc + 16) = unat alloc + 16" "unat (alloc + 32) = unat alloc + 32"
    "unat c = unat alloc + 48" "unat (c + 16) = unat alloc + 64"
    "unat (c + 24) = unat alloc + 72" "unat (c + 32) = unat alloc + 80"
    "unat (c + 40) = unat alloc + 88" "unat (c + 48) = unat alloc + 96"
    "unat (c + 56) = unat alloc + 104" "unat (c + 64) = unat alloc + 112"
    "unat (c + 72) = unat alloc + 120 \<or> N * s = 0" "c \<noteq> NULL"
proof -
  have g: "unat alloc + 120 + N * s < 18446744073709551616" and c: "unat c = unat alloc + 48"
    using assms by (simp_all add: slab_geometry_def)
  have u: "unat (alloc + numeral k) = unat alloc + numeral k" if "(numeral k :: nat) < 120" for k
    using g that by (intro unat_add_numeral) linarith
  have v: "unat (c + numeral k) = unat alloc + (48 + numeral k)" if "(numeral k :: nat) < 72" for k
    using g c that by (subst unat_add_numeral) linarith+
  show "unat (c + 72) = unat alloc + 120 \<or> N * s = 0"
  proof (cases "N * s = 0")
    case False
    then have "unat c + 72 < 18446744073709551616" using g c by linarith
    then show ?thesis using c by (subst unat_add_numeral) simp_all
  qed simp
  show "unat (alloc + 16) = unat alloc + 16" "unat (alloc + 32) = unat alloc + 32"
    "unat c = unat alloc + 48" "unat (c + 16) = unat alloc + 64"
    "unat (c + 24) = unat alloc + 72" "unat (c + 32) = unat alloc + 80"
    "unat (c + 40) = unat alloc + 88" "unat (c + 48) = unat alloc + 96"
    "unat (c + 56) = unat alloc + 104" "unat (c + 64) = unat alloc + 112"
    using u v c by simp_all
  show "c \<noteq> NULL" using c by auto
qed

lemma unat_slot:
  assumes "slab_geometry m alloc c N s" "i < N"
  shows "unat (slot c s i) = unat alloc + 120 + i * s"
    "unat alloc + 120 + i * s + s < 18446744073709551616"
    "slot c s i \<noteq> NULL"
proof -
  have g: "unat alloc + 120 + N * s < 18446744073709551616" "8 \<le> s" using assms by (simp_all add: slab_geometry_def)
  have "Suc i * s \<le> N * s" using assms(2) by (intro mult_right_mono) auto
  then have b: "i * s + s \<le> N * s" by simp
  then show "unat alloc + 120 + i * s + s < 18446744073709551616" using g by linarith
  have "unat (c + 72) = unat alloc + 120" using slab_addresses(11) [OF assms(1)] b g by auto
  then show u: "unat (slot c s i) = unat alloc + 120 + i * s"
    unfolding slot_def using b g by (subst unat_add_of_nat) auto
  show "slot c s i \<noteq> NULL" using u by auto
qed

lemma slot_cell:
  assumes "slab_geometry m alloc c N s" "i < N"
  shows "unat (slot c s i) + 8 \<le> 18446744073709551616"
  using unat_slot(1,2) [OF assms] assms(1) unfolding slab_geometry_def by linarith

lemma slots_apart:
  assumes "slab_geometry m alloc c N s" "i < N" "j < N" "i \<noteq> j"
  shows "unat (slot c s i) + s \<le> unat (slot c s j)
    \<or> unat (slot c s j) + s \<le> unat (slot c s i)"
proof -
  have "Suc i \<le> j \<or> Suc j \<le> i" using assms(4) by linarith
  then have "Suc i * s \<le> j * s \<or> Suc j * s \<le> i * s" by (metis mult_le_mono1)
  then show ?thesis using unat_slot(1) [OF assms(1)] assms(2,3) by auto
qed

text \<open>Stores into a field or into the first bytes of a slot, seen from another slot.\<close>

lemma slot_frame:
  assumes "slab_geometry m alloc c N s" "j < N" "in_region (slot c s j) s x"
    and "field alloc a \<or> (\<exists>i<N. i \<noteq> j \<and> a = slot c s i)"
  shows "wr64 m' a v x = m' x"
proof -
  have s: "8 \<le> s" using assms(1) by (simp add: slab_geometry_def)
  show ?thesis
  proof (rule wr64_out)
    show "unat a + 8 \<le> 18446744073709551616"
      using assms(1,4) slot_cell [OF assms(1)] by (auto simp: field_def slab_geometry_def)
    show "\<not> in_region a 8 x"
      using assms(4)
    proof
      assume "field alloc a"
      then show ?thesis using assms(3) unat_slot(1) [OF assms(1,2)] by (auto simp: field_def in_region_def)
    next
      assume "\<exists>i<N. i \<noteq> j \<and> a = slot c s i"
      then obtain i where "i < N" "i \<noteq> j" "a = slot c s i" by blast
      then show ?thesis using slots_apart [OF assms(1) \<open>i < N\<close> assms(2)] assms(3) s by (auto simp: in_region_def)
    qed
  qed
qed

lemma slot_rd64_frame:
  assumes "slab_geometry m alloc c N s" "j < N"
    and "field alloc a \<or> (\<exists>i<N. i \<noteq> j \<and> a = slot c s i)"
  shows "rd64 (wr64 m' a v) (slot c s j) = rd64 m' (slot c s j)"
proof (rule rd64_same_on)
  have s: "8 \<le> s" using assms(1) by (simp add: slab_geometry_def)
  show "unat (slot c s j) + 8 \<le> 18446744073709551616"
    using unat_slot(1,2) [OF assms(1,2)] s by linarith
  show "same_on (slot c s j) 8 (wr64 m' a v) m'"
    unfolding same_on_def using s slot_frame [OF assms(1,2) _ assms(3)] by (auto simp: in_region_def)
qed

lemma field_slot_frame:
  assumes "slab_geometry m alloc c N s" "i < N" "field alloc a"
  shows "rd64 (wr64 m' (slot c s i) v) a = rd64 m' a"
proof (rule rd64_wr64_apart)
  have s: "8 \<le> s" using assms(1) by (simp add: slab_geometry_def)
  show "unat (slot c s i) + 8 \<le> 18446744073709551616" using unat_slot(1,2) [OF assms(1,2)] s by linarith
  show "unat a + 8 \<le> 18446744073709551616" using assms(1,3) by (simp add: field_def slab_geometry_def)
  show "unat (slot c s i) + 8 \<le> unat a \<or> unat a + 8 \<le> unat (slot c s i)"
    using assms(3) unat_slot(1) [OF assms(1,2)] by (simp add: field_def)
qed

lemma fields:
  assumes "slab_geometry m alloc c N s"
  shows "field alloc (alloc + 16)" "field alloc (alloc + 32)" "field alloc (c + 16)"
    "field alloc (c + 24)" "field alloc (c + 32)" "field alloc (c + 40)"
    "field alloc (c + 48)" "field alloc (c + 56)" "field alloc (c + 64)"
  using slab_addresses [OF assms] by (simp_all add: field_def)

text \<open>Two fields at different offsets.\<close>

lemma field_frame:
  assumes "slab_geometry m alloc c N s" "field alloc a" "field alloc b"
    and "unat a + 8 \<le> unat b \<or> unat b + 8 \<le> unat a"
  shows "rd64 (wr64 m' a v) b = rd64 m' b"
  using assms by (intro rd64_wr64_apart) (auto simp: field_def slab_geometry_def)

lemma root_flag_frame:
  assumes "slab_geometry m alloc c N s"
    and "field alloc a \<and> (unat a + 8 \<le> unat alloc + 112 \<or> unat alloc + 112 < unat a) \<or> (\<exists>i<N. a = slot c s i)"
  shows "wr64 m' a v (c + 64) = m' (c + 64)"
proof (rule wr64_out)
  have s: "8 \<le> s" using assms(1) by (simp add: slab_geometry_def)
  show "unat a + 8 \<le> 18446744073709551616"
    using assms slot_cell [OF assms(1)] by (auto simp: field_def slab_geometry_def)
  show "\<not> in_region a 8 (c + 64)"
    using assms(2) unat_slot(1) [OF assms(1)] slab_addresses(10) [OF assms(1)] by (auto simp: in_region_def)
qed

subsection \<open>Writes that keep the geometry\<close>

definition data_field :: "ptr \<Rightarrow> ptr \<Rightarrow> bool" where
  "data_field alloc a \<longleftrightarrow>
     unat a = unat alloc + 16 \<or> unat a = unat alloc + 64 \<or> unat a = unat alloc + 88 \<or> unat a = unat alloc + 96"

lemma data_field_field: "data_field alloc a \<Longrightarrow> field alloc a"
  by (auto simp: data_field_def field_def)

lemma data_fields:
  assumes "slab_geometry m alloc c N s"
  shows "data_field alloc (alloc + 16)" "data_field alloc (c + 16)" "data_field alloc (c + 40)"
    "data_field alloc (c + 48)"
  using slab_addresses [OF assms] by (simp_all add: data_field_def)

lemma geometry_write:
  assumes "slab_geometry m alloc c N s" "data_field alloc a \<or> (\<exists>i<N. a = slot c s i)"
  shows "slab_geometry (wr64 m a v) alloc c N s"
proof -
  note F = fields [OF assms(1)] and A = slab_addresses [OF assms(1)]
  have "rd64 (wr64 m a v) b = rd64 m b" if "field alloc b" "unat b \<in> {unat alloc + 32, unat alloc + 72, unat alloc + 80, unat alloc + 104}" for b
    using assms(2)
  proof
    assume d: "data_field alloc a"
    then show ?thesis
      using that by (intro field_frame [OF assms(1) data_field_field [OF d] that(1)]) (auto simp: data_field_def)
  qed (use field_slot_frame [OF assms(1) _ that(1)] in blast)
  moreover have "wr64 m a v (c + 64) = m (c + 64)"
    using assms(2) data_field_field by (intro root_flag_frame [OF assms(1)]) (auto simp: data_field_def)
  ultimately show ?thesis using assms(1) A F by (simp add: slab_geometry_def)
qed

text \<open>The four data fields are different cells.\<close>

lemma data_cells:
  assumes "slab_geometry m alloc c N s"
  shows "\<And>m' v. rd64 (wr64 m' (c + 48) v) (alloc + 16) = rd64 m' (alloc + 16)"
    "\<And>m' v. rd64 (wr64 m' (c + 48) v) (c + 16) = rd64 m' (c + 16)"
    "\<And>m' v. rd64 (wr64 m' (c + 48) v) (c + 40) = rd64 m' (c + 40)"
    "\<And>m' v. rd64 (wr64 m' (c + 48) v) (c + 24) = rd64 m' (c + 24)"
    "\<And>m' v. rd64 (wr64 m' (c + 48) v) (c + 32) = rd64 m' (c + 32)"
    "\<And>m' v. rd64 (wr64 m' (c + 48) v) (c + 56) = rd64 m' (c + 56)"
    "\<And>m' v. rd64 (wr64 m' (c + 48) v) (alloc + 32) = rd64 m' (alloc + 32)"
    "\<And>m' v. rd64 (wr64 m' (alloc + 16) v) (c + 48) = rd64 m' (c + 48)"
    "\<And>m' v. rd64 (wr64 m' (alloc + 16) v) (c + 56) = rd64 m' (c + 56)"
    "\<And>m' v. rd64 (wr64 m' (alloc + 16) v) (c + 16) = rd64 m' (c + 16)"
    "\<And>m' v. rd64 (wr64 m' (alloc + 16) v) (c + 40) = rd64 m' (c + 40)"
    "\<And>m' v. rd64 (wr64 m' (alloc + 16) v) (alloc + 32) = rd64 m' (alloc + 32)"
    "\<And>m' v. rd64 (wr64 m' (c + 40) v) (alloc + 16) = rd64 m' (alloc + 16)"
    "\<And>m' v. rd64 (wr64 m' (c + 40) v) (c + 16) = rd64 m' (c + 16)"
    "\<And>m' v. rd64 (wr64 m' (c + 40) v) (c + 48) = rd64 m' (c + 48)"
    "\<And>m' v. rd64 (wr64 m' (c + 40) v) (c + 32) = rd64 m' (c + 32)"
    "\<And>m' v. rd64 (wr64 m' (c + 16) v) (alloc + 16) = rd64 m' (alloc + 16)"
    "\<And>m' v. rd64 (wr64 m' (c + 16) v) (c + 40) = rd64 m' (c + 40)"
    "\<And>m' v. rd64 (wr64 m' (c + 16) v) (c + 48) = rd64 m' (c + 48)"
proof -
  have g: "unat alloc + 120 \<le> 18446744073709551616" using assms by (simp add: slab_geometry_def)
  note A = slab_addresses(1-10) [OF assms]
  note r = rd64_wr64_apart
  show "\<And>m' v. rd64 (wr64 m' (c + 48) v) (alloc + 16) = rd64 m' (alloc + 16)" by (rule r) (use g A in simp_all)
  show "\<And>m' v. rd64 (wr64 m' (c + 48) v) (c + 16) = rd64 m' (c + 16)" by (rule r) (use g A in simp_all)
  show "\<And>m' v. rd64 (wr64 m' (c + 48) v) (c + 40) = rd64 m' (c + 40)" by (rule r) (use g A in simp_all)
  show "\<And>m' v. rd64 (wr64 m' (c + 48) v) (c + 24) = rd64 m' (c + 24)" by (rule r) (use g A in simp_all)
  show "\<And>m' v. rd64 (wr64 m' (c + 48) v) (c + 32) = rd64 m' (c + 32)" by (rule r) (use g A in simp_all)
  show "\<And>m' v. rd64 (wr64 m' (c + 48) v) (c + 56) = rd64 m' (c + 56)" by (rule r) (use g A in simp_all)
  show "\<And>m' v. rd64 (wr64 m' (c + 48) v) (alloc + 32) = rd64 m' (alloc + 32)" by (rule r) (use g A in simp_all)
  show "\<And>m' v. rd64 (wr64 m' (alloc + 16) v) (c + 48) = rd64 m' (c + 48)" by (rule r) (use g A in simp_all)
  show "\<And>m' v. rd64 (wr64 m' (alloc + 16) v) (c + 56) = rd64 m' (c + 56)" by (rule r) (use g A in simp_all)
  show "\<And>m' v. rd64 (wr64 m' (alloc + 16) v) (c + 16) = rd64 m' (c + 16)" by (rule r) (use g A in simp_all)
  show "\<And>m' v. rd64 (wr64 m' (alloc + 16) v) (c + 40) = rd64 m' (c + 40)" by (rule r) (use g A in simp_all)
  show "\<And>m' v. rd64 (wr64 m' (alloc + 16) v) (alloc + 32) = rd64 m' (alloc + 32)" by (rule r) (use g A in simp_all)
  show "\<And>m' v. rd64 (wr64 m' (c + 40) v) (alloc + 16) = rd64 m' (alloc + 16)" by (rule r) (use g A in simp_all)
  show "\<And>m' v. rd64 (wr64 m' (c + 40) v) (c + 16) = rd64 m' (c + 16)" by (rule r) (use g A in simp_all)
  show "\<And>m' v. rd64 (wr64 m' (c + 40) v) (c + 48) = rd64 m' (c + 48)" by (rule r) (use g A in simp_all)
  show "\<And>m' v. rd64 (wr64 m' (c + 40) v) (c + 32) = rd64 m' (c + 32)" by (rule r) (use g A in simp_all)
  show "\<And>m' v. rd64 (wr64 m' (c + 16) v) (alloc + 16) = rd64 m' (alloc + 16)" by (rule r) (use g A in simp_all)
  show "\<And>m' v. rd64 (wr64 m' (c + 16) v) (c + 40) = rd64 m' (c + 40)" by (rule r) (use g A in simp_all)
  show "\<And>m' v. rd64 (wr64 m' (c + 16) v) (c + 48) = rd64 m' (c + 48)" by (rule r) (use g A in simp_all)
qed

subsection \<open>Allocation\<close>

text \<open>The slot that the next object comes from, and the free slots that are left.\<close>

definition next_slot :: "nat \<Rightarrow> nat list \<Rightarrow> nat" where
  "next_slot n fs = (case fs of [] \<Rightarrow> n | i # _ \<Rightarrow> i)"

definition next_carved :: "nat \<Rightarrow> nat list \<Rightarrow> nat" where
  "next_carved n fs = (if fs = [] then Suc n else n)"

definition after_count :: "mem \<Rightarrow> ptr \<Rightarrow> ptr \<Rightarrow> nat \<Rightarrow> nat \<Rightarrow> mem" where
  "after_count m alloc c N a =
     (let m1 = wr64 m (c + 48) (of_nat (Suc a)) in if Suc a = N then wr64 m1 (alloc + 16) NULL else m1)"

definition after_alloc :: "mem \<Rightarrow> ptr \<Rightarrow> ptr \<Rightarrow> nat \<Rightarrow> nat \<Rightarrow> nat \<Rightarrow> nat list \<Rightarrow> mem" where
  "after_alloc m alloc c N s n fs =
     (let m3 = after_count m alloc c N (n - length fs)
      in wr64 (case fs of [] \<Rightarrow> wr64 m3 (c + 16) (slot c s (Suc n))
                 | i # _ \<Rightarrow> wr64 m3 (c + 40) (rd64 m (slot c s i)))
           (slot c s (next_slot n fs)) c)"

lemma slot_Suc: "slot c s n + of_nat s = slot c s (Suc n)"
  by (simp add: slot_def algebra_simps)

lemma slab_repD:
  assumes "slab_rep m alloc c N s n fs ff"
  shows "slab_geometry m alloc c N s" "n \<le> N" "distinct fs" "set fs \<subseteq> {..<n}"
    "rd64 m (c + 16) = slot c s n" "chain m (rd64 m (c + 40)) (map (slot c s) fs)"
    "unat (rd64 m (c + 48)) = n - length fs" "rd64 m (alloc + 16) = (if ff then c else NULL)"
    "n - length fs = N \<Longrightarrow> \<not> ff" "length fs \<le> n"
    "i \<in> live n fs \<Longrightarrow> rd64 m (slot c s i) = c"
proof -
  show "length fs \<le> n"
    using assms subset_eq_atLeast0_lessThan_card [of "set fs" n] by (auto simp: slab_rep_def distinct_card atLeast0LessThan)
qed (use assms in \<open>auto simp: slab_rep_def\<close>)

lemma slab_rep_room:
  assumes "slab_rep m alloc c N s n fs True"
  shows "n - length fs < N"
proof -
  have "n \<le> N" "n - length fs \<noteq> N" using assms by (simp_all add: slab_rep_def)
  then show ?thesis by linarith
qed

lemma next_slot_less:
  assumes "slab_rep m alloc c N s n fs True"
  shows "next_slot n fs < N"
proof (cases fs)
  case Nil
  then show ?thesis using slab_rep_room [OF assms] by (simp add: next_slot_def)
next
  case (Cons i js)
  then have "i < n" using subsetD [OF slab_repD(4) [OF assms], of i] by simp
  then show ?thesis using Cons slab_repD(2) [OF assms] by (simp add: next_slot_def)
qed

lemma slab_alloc_eq:
  assumes "slab_rep m alloc c N s n fs True"
  shows "slab_alloc m alloc = Some (slot c s (next_slot n fs) + 8, after_alloc m alloc c N s n fs)"
proof -
  note R = slab_repD [OF assms]
  note D = data_cells [OF R(1)] and A = slab_addresses [OF R(1)]
  let ?a = "n - length fs"
  have G: "unat (rd64 m (c + 56)) = N" "unat (rd64 m (alloc + 32)) = s" "rd64 m (c + 24) = NULL"
    "rd64 m (c + 32) = NULL" "N < 18446744073709551616"
    using R(1) unat_lt64 [of "rd64 m (c + 56)"] by (auto simp: slab_geometry_def)
  have a: "?a < N" by (rule slab_rep_room [OF assms])
  have cnt: "rd64 m (c + 48) + 1 = of_nat (Suc ?a)"
    using R(7) by (metis add.commute of_nat_Suc of_nat_unat ucast_id)
  have un: "unat (of_nat (Suc ?a) :: u64) = Suc ?a" using a G(5) by (intro unat_of_nat64) simp
  let ?m1 = "wr64 m (c + 48) (of_nat (Suc ?a))"
  let ?m3 = "after_count m alloc c N ?a"
  have full: "of_nat (Suc ?a) = rd64 m (c + 56) \<longleftrightarrow> Suc ?a = N" using un G(1) by (metis u64_eq_iff)
  have sk: "skip_full ?m1 alloc = Some ?m3"
  proof (cases "Suc ?a = N")
    case True
    then have "skip_full ?m1 alloc = skip_full (wr64 ?m1 (alloc + 16) NULL) alloc"
      using A(12) R(8) G(4) full by (subst skip_full.simps) (simp add: D)
    also have "\<dots> = Some (wr64 ?m1 (alloc + 16) NULL)" by (subst skip_full.simps) simp
    finally show ?thesis using True by (simp add: after_count_def)
  next
    case False
    then show ?thesis using full R(8) by (subst skip_full.simps) (simp add: D after_count_def del: of_nat_Suc)
  qed
  have r3: "rd64 ?m3 (c + 40) = rd64 m (c + 40)" "rd64 ?m3 (c + 16) = rd64 m (c + 16)"
    "rd64 ?m3 (alloc + 32) = rd64 m (alloc + 32)"
    by (simp_all add: after_count_def Let_def D)
  have objsize: "rd64 m (alloc + 32) = of_nat s" using G(2) by (metis of_nat_unat ucast_id)
  have nf: "rd64 m (c + 48) \<noteq> rd64 m (c + 56)" using a R(7) G(1) by auto
  have "slab_alloc m alloc = slab_cache_alloc m alloc c" using R(8) A(12) by (simp add: slab_alloc_def)
  also have "\<dots> = (let (p, m4) = freelist_pop ?m3 (c + 40);
       (p, m5) = (if p = NULL then (rd64 m4 (c + 16), wr64 m4 (c + 16) (rd64 m4 (c + 16) + rd64 m4 (alloc + 32)))
                  else (p, m4)) in Some (p + 8, wr64 m5 p c))"
    using nf G(3) by (simp add: slab_cache_alloc_def cnt D sk Let_def sizeof_object_header_def del: of_nat_Suc)
  also have "\<dots> = Some (slot c s (next_slot n fs) + 8, after_alloc m alloc c N s n fs)"
  proof (cases fs)
    case Nil
    have "freelist_pop ?m3 (c + 40) = (NULL, ?m3)"
      using R(6) Nil r3 by (simp add: freelist_pop_def Let_def)
    then show ?thesis
      using Nil R(5) r3 by (simp add: after_alloc_def next_slot_def objsize slot_Suc Let_def)
  next
    case (Cons i js)
    have i: "i < N" using R(2,4) Cons by auto
    have h: "rd64 m (c + 40) = slot c s i" "slot c s i \<noteq> NULL" using R(6) unat_slot(3) [OF R(1) i] Cons by auto
    have "rd64 ?m3 (slot c s i) = rd64 m (slot c s i)"
      using slot_rd64_frame [OF R(1) i] fields [OF R(1)] by (simp add: after_count_def Let_def)
    moreover have "c + 40 \<noteq> NULL" using A(7) by auto
    ultimately have "freelist_pop ?m3 (c + 40) = (slot c s i, wr64 ?m3 (c + 40) (rd64 m (slot c s i)))"
      using h by (simp add: freelist_pop_def freelist_get_next_def r3 Let_def)
    then show ?thesis using Cons h by (simp add: after_alloc_def next_slot_def Let_def)
  qed
  finally show ?thesis .
qed

lemma slab_alloc_rep:
  assumes "slab_rep m alloc c N s n fs True"
  shows "slab_rep (after_alloc m alloc c N s n fs) alloc c N s (next_carved n fs) (tl fs)
      (Suc (n - length fs) \<noteq> N)"
    and "live (next_carved n fs) (tl fs) = insert (next_slot n fs) (live n fs)"
    and "next_slot n fs \<notin> live n fs"
proof -
  note R = slab_repD [OF assms]
  note D = data_cells [OF R(1)] and F = fields [OF R(1)] and DF = data_fields [OF R(1)]
  let ?i = "next_slot n fs" and ?m' = "after_alloc m alloc c N s n fs" and ?a = "n - length fs"
  have a: "?a < N" by (rule slab_rep_room [OF assms])
  have G: "N < 18446744073709551616"
    using R(1) unat_lt64 [of "rd64 m (c + 56)"] by (auto simp: slab_geometry_def)
  have i: "?i < N" by (rule next_slot_less [OF assms])
  show lv: "live (next_carved n fs) (tl fs) = insert ?i (live n fs)" and ni: "?i \<notin> live n fs"
    using R(3,4) by (cases fs; auto simp: live_def next_slot_def next_carved_def less_Suc_eq)+
  let ?m3 = "after_count m alloc c N ?a"
  define m5 where "m5 = (case fs of [] \<Rightarrow> wr64 ?m3 (c + 16) (slot c s (Suc n))
                 | i # _ \<Rightarrow> wr64 ?m3 (c + 40) (rd64 m (slot c s i)))"
  have m': "?m' = wr64 m5 (slot c s ?i) c" by (simp add: after_alloc_def m5_def Let_def)
  have g3: "slab_geometry ?m3 alloc c N s"
    using R(1) DF by (simp add: after_count_def Let_def geometry_write)
  have g5: "slab_geometry m5 alloc c N s" using g3 DF by (cases fs) (simp_all add: m5_def geometry_write)
  have g': "slab_geometry ?m' alloc c N s" unfolding m' using g5 i by (intro geometry_write) auto
  have r5: "rd64 m5 (c + 48) = of_nat (Suc ?a)" "rd64 m5 (alloc + 16) = (if Suc ?a = N then NULL else c)"
    "rd64 m5 (c + 16) = slot c s (next_carved n fs)"
    "rd64 m5 (c + 40) = (case fs of [] \<Rightarrow> rd64 m (c + 40) | i # _ \<Rightarrow> rd64 m (slot c s i))"
    using R(5,8) by (simp_all add: m5_def after_count_def next_carved_def Let_def D split: list.split)
  have r': "rd64 ?m' x = rd64 m5 x" if "field alloc x" for x
    unfolding m' by (rule field_slot_frame [OF R(1) i that])
  have s5: "rd64 m5 (slot c s j) = rd64 m (slot c s j)" if "j < N" for j
    using slot_rd64_frame [OF R(1) that] F by (simp add: m5_def after_count_def Let_def split: list.split)
  have s': "rd64 ?m' (slot c s j) = rd64 m (slot c s j)" if "j < N" "j \<noteq> ?i" for j
    unfolding m' using slot_rd64_frame [OF R(1) that(1), of "slot c s ?i"] i that s5 by metis
  have ch: "chain ?m' (rd64 ?m' (c + 40)) (map (slot c s) (tl fs))"
  proof (cases fs)
    case Nil
    then show ?thesis using R(6) r' [OF F(6)] r5(4) by simp
  next
    case (Cons j js)
    have "chain ?m' (rd64 m (slot c s j)) (map (slot c s) js)"
    proof (subst chain_cong [of _ _ m])
      fix x assume "x \<in> set (map (slot c s) js)"
      then obtain l where l: "l \<in> set js" "x = slot c s l" by auto
      then have "l < N" "l \<noteq> ?i" using R(2-4) Cons by (auto simp: next_slot_def)
      then show "rd64 ?m' x = rd64 m x" using s' l by simp
    qed (use R(6) Cons in simp)
    then show ?thesis using Cons r' [OF F(6)] r5(4) by simp
  qed
  have un: "unat (of_nat (Suc ?a) :: u64) = Suc ?a" using a G by (intro unat_of_nat64) simp
  have len: "next_carved n fs - length (tl fs) = Suc ?a"
    using R(10) by (cases fs) (auto simp: next_carved_def)
  have hdr: "rd64 ?m' (slot c s j) = c" if "j \<in> live (next_carved n fs) (tl fs)" for j
  proof (cases "j = ?i")
    case True
    then show ?thesis by (simp add: m')
  next
    case False
    then have "j \<in> live n fs" using that lv by simp
    then have "j < N" using R(2) by (simp add: live_def)
    then show ?thesis using s' [OF _ False] R(11) \<open>j \<in> live n fs\<close> by simp
  qed
  have "next_carved n fs \<le> N" using i R(2) by (cases fs) (auto simp: next_carved_def next_slot_def)
  moreover have "distinct (tl fs)" "set (tl fs) \<subseteq> {..<next_carved n fs}"
    using R(3,4) by (cases fs; auto simp: next_carved_def)+
  ultimately show "slab_rep ?m' alloc c N s (next_carved n fs) (tl fs) (Suc ?a \<noteq> N)"
    unfolding slab_rep_def using g' ch hdr len un r5 r' F by (simp del: of_nat_Suc)
qed

text \<open>The bytes of the slots in use stay as they are.\<close>

definition keeps_slots :: "mem \<Rightarrow> mem \<Rightarrow> ptr \<Rightarrow> nat \<Rightarrow> nat set \<Rightarrow> bool" where
  "keeps_slots m m' c s L \<longleftrightarrow> (\<forall>i\<in>L. \<forall>x. in_region (slot c s i) s x \<longrightarrow> m' x = m x)"

lemma slab_alloc_keeps:
  assumes "slab_rep m alloc c N s n fs True"
  shows "keeps_slots m (after_alloc m alloc c N s n fs) c s (live n fs)"
  unfolding keeps_slots_def
proof (intro ballI allI impI)
  fix j x assume j: "j \<in> live n fs" "in_region (slot c s j) s x"
  note R = slab_repD [OF assms]
  note F = fields [OF R(1)]
  have jn: "j < N" "j \<noteq> next_slot n fs" using j(1) R(2) slab_alloc_rep(3) [OF assms] by (auto simp: live_def)
  note fr = slot_frame [OF R(1) jn(1) j(2)]
  have "wr64 m' (slot c s (next_slot n fs)) c x = m' x" for m'
    using next_slot_less [OF assms] jn(2) by (intro fr) metis
  then show "after_alloc m alloc c N s n fs x = m x"
    using fr F by (simp add: after_alloc_def after_count_def Let_def split: list.split)
qed

subsection \<open>Release\<close>

definition after_free :: "mem \<Rightarrow> ptr \<Rightarrow> nat \<Rightarrow> nat \<Rightarrow> mem" where
  "after_free m c s i =
     wr64 (wr64 (wr64 m (slot c s i) (rd64 m (c + 40))) (c + 40) (slot c s i)) (c + 48) (rd64 m (c + 48) - 1)"

lemma slab_free_eq:
  assumes "slab_rep m alloc c N s n fs ff" "i \<in> live n fs"
  shows "slab_free m alloc (slot c s i + 8) = Some (after_free m c s i)"
proof -
  note R = slab_repD [OF assms(1)]
  note D = data_cells [OF R(1)] and F = fields [OF R(1)] and A = slab_addresses [OF R(1)]
  have i: "i < N" using assms(2) R(2) by (simp add: live_def)
  have nz: "slot c s i \<noteq> NULL" "c + 40 \<noteq> NULL" using unat_slot(3) [OF R(1) i] A(7) by auto
  have p: "freelist_push m (c + 40) (slot c s i) = wr64 (wr64 m (slot c s i) (rd64 m (c + 40))) (c + 40) (slot c s i)"
    using nz by (simp add: freelist_push_def freelist_set_next_def)
  note sf = field_slot_frame [OF R(1) i]
  have n: "rd64 m (c + 32) = NULL" "m (c + 64) \<noteq> 0" using R(1) by (auto simp: slab_geometry_def)
  have "after_free m c s i (c + 64) = m (c + 64)"
  proof -
    have "wr64 m' (slot c s i) v (c + 64) = m' (c + 64)" for m' v
      using i by (intro root_flag_frame [OF R(1)]) blast
    then show ?thesis using root_flag_frame [OF R(1)] F A by (simp add: after_free_def)
  qed
  then show ?thesis
    using n R(11) [OF assms(2)]
    by (simp add: slab_free_def slab_cache_free_def sizeof_object_header_def p D sf F Let_def after_free_def)
qed

lemma slab_free_rep:
  assumes "slab_rep m alloc c N s n fs ff" "i \<in> live n fs"
  shows "slab_rep (after_free m c s i) alloc c N s n (i # fs) ff"
    and "live n (i # fs) = live n fs - {i}"
    and "keeps_slots m (after_free m c s i) c s (live n fs - {i})"
proof -
  note R = slab_repD [OF assms(1)]
  note D = data_cells [OF R(1)] and F = fields [OF R(1)] and DF = data_fields [OF R(1)]
  let ?m' = "after_free m c s i"
  have i: "i < n" "i < N" "i \<notin> set fs" using assms(2) R(2) by (auto simp: live_def)
  show "live n (i # fs) = live n fs - {i}" by (auto simp: live_def)
  note sf = field_slot_frame [OF R(1) i(2)]
  have g': "slab_geometry ?m' alloc c N s"
    unfolding after_free_def using R(1) DF i(2) by (intro geometry_write) blast+
  have oth: "rd64 ?m' (slot c s j) = rd64 m (slot c s j)" if "j < N" "j \<noteq> i" for j
    using slot_rd64_frame [OF R(1) that(1)] F i(2) that(2) unfolding after_free_def by metis
  have own: "rd64 ?m' (slot c s i) = rd64 m (c + 40)"
    using slot_rd64_frame [OF R(1) i(2)] F by (simp add: after_free_def)
  have "chain ?m' (rd64 m (c + 40)) (map (slot c s) fs)"
  proof (subst chain_cong [of _ _ m])
    fix x assume "x \<in> set (map (slot c s) fs)"
    then obtain l where "l \<in> set fs" "x = slot c s l" by auto
    moreover from this have "l < N" "l \<noteq> i" using subsetD [OF R(4), of l] R(2) i(3) by auto
    ultimately show "rd64 ?m' x = rd64 m x" using oth by simp
  qed (fact R(6))
  then have ch: "chain ?m' (rd64 ?m' (c + 40)) (map (slot c s) (i # fs))"
    using own unat_slot(3) [OF R(1) i(2)] by (simp add: after_free_def D)
  have "length fs < n"
    using psubset_card_mono [of "{..<n}" "set fs"] R(3,4) i by (auto simp: distinct_card)
  then have pos: "n - length fs \<noteq> 0" "n - length (i # fs) = n - length fs - 1" by auto
  then have "unat (rd64 m (c + 48) - 1) = n - length (i # fs)"
    using R(7) by (subst unat_sub_one) (auto simp flip: unat_eq_0)
  moreover have "\<forall>j\<in>live n (i # fs). rd64 ?m' (slot c s j) = c"
    using oth R(2,11) by (auto simp: live_def)
  moreover have "n - length (i # fs) \<noteq> N" using pos R(2) by linarith
  moreover have "rd64 ?m' (c + 48) = rd64 m (c + 48) - 1" by (simp add: after_free_def)
  moreover have "rd64 ?m' (c + 16) = rd64 m (c + 16)" "rd64 ?m' (alloc + 16) = rd64 m (alloc + 16)"
    by (simp_all add: after_free_def D sf F)
  ultimately show "slab_rep ?m' alloc c N s n (i # fs) ff"
    unfolding slab_rep_def using g' ch R i by simp
  show "keeps_slots m ?m' c s (live n fs - {i})"
    unfolding keeps_slots_def
  proof (intro ballI allI impI)
    fix j x assume j: "j \<in> live n fs - {i}" "in_region (slot c s j) s x"
    then have jn: "j < N" "j \<noteq> i" using R(2) by (auto simp: live_def)
    note fr = slot_frame [OF R(1) jn(1) j(2)]
    have "wr64 m' (slot c s i) v x = m' x" for m' v using jn i(2) by (intro fr) metis
    then show "?m' x = m x" using fr F by (simp add: after_free_def)
  qed
qed

end
