(* ===== verification/Buddy_Props.thy ===== *)
theory Buddy_Props
  imports Buddy_Correct
begin

section \<open>What the buddy allocator guarantees\<close>

text \<open>
  The properties of \<open>buddy_alloc\<close> and \<open>buddy_free\<close> in every reachable state, and a small
  allocator on which they are applied.
\<close>

subsection \<open>A concrete allocator\<close>

text \<open>
  An allocator at address 8 over a pool of 16 pages at address 8192, right after initialisation:
  the struct, one free block in the list of layer 0, and the bitmap at 96 with all bits set but
  that of the root.
\<close>

definition demo_bytes :: mem where
  "demo_bytes = (\<lambda>x. if x \<in> {96, 97, 98, 99} then (if x = 96 then 0xFD else 0xFF) else 0)"

definition demo_mem :: mem where
  "demo_mem = wr64 (wr64 (wr64 (wr64 (wr64 (wr64 (wr64 demo_bytes 8 96) 16 56) 24 5) 32 16) 40 16) 48 8192)
     56 8192"

lemma demo_load: "load_buddy demo_mem 8 = \<lparr>bitmap = 96, freelist = 56, buddy_layers = 5,
    blocks_count = 16, root_block_size = 16, pool_begin = 8192\<rparr>"
  by (simp add: load_buddy_def demo_mem_def rd64_wr64_apart)

lemma demo_zero: "57 \<le> unat x \<and> unat x \<le> 88 \<and> 64 \<le> unat x \<or> unat x = 8192 \<Longrightarrow> rd64 demo_mem x = 0"
proof -
  assume x: "57 \<le> unat x \<and> unat x \<le> 88 \<and> 64 \<le> unat x \<or> unat x = 8192"
  then have "rd64 demo_mem x = rd64 demo_bytes x"
    unfolding demo_mem_def by (auto simp: rd64_wr64_apart)
  also have "\<dots> = rd64 (\<lambda>_. 0) x"
  proof (rule rd64_same_on)
    show "unat x + 8 \<le> 18446744073709551616" using x by auto
    show "same_on x 8 demo_bytes (\<lambda>_. 0)"
      using x by (auto simp: same_on_def in_region_def demo_bytes_def)
  qed
  also have "\<dots> = 0" by (simp add: rd64_def)
  finally show ?thesis .
qed

lemma demo_layout: "buddy_layout demo_mem 8 4"
  by (simp add: buddy_layout_def demo_load pool_def)

lemma demo_byte: "x \<in> {96, 97, 98, 99} \<Longrightarrow> demo_mem x = (if x = 96 then 0xFD else 0xFF)"
  by (auto simp: demo_mem_def wr64_out in_region_def demo_bytes_def)

lemma nat_less_cases8: "n < 8 \<Longrightarrow> n = 0 \<or> n = 1 \<or> n = 2 \<or> n = 3 \<or> n = 4 \<or> n = 5 \<or> n = 6 \<or> (n::nat) = 7"
  by linarith

lemma demo_bits:
  assumes "l \<le> 4" "i < 2 ^ l"
  shows "buddy_get demo_mem 96 (of_nat l) (of_nat i) \<longleftrightarrow> (l, i) \<noteq> (0, 0)"
proof -
  let ?n = "2 ^ l + i"
  have "(2::nat) ^ l \<le> 2 ^ 4" using assms(1) by (intro power_increasing) auto
  then have n: "?n div 8 < 4" using assms(2) by simp
  have "buddy_get demo_mem 96 (of_nat l) (of_nat i) = bitn demo_mem 96 ?n"
    using assms by (intro buddy_get_bitn) auto
  also have "\<dots> \<longleftrightarrow> ?n \<noteq> 1"
  proof (cases "?n div 8 = 0")
    case True
    have "bit (0xFD :: u8) b \<longleftrightarrow> b \<noteq> 1" if "b < 8" for b
      using nat_less_cases8 [OF that] by (auto simp: bit_simps)
    moreover have "?n < 8" using True by simp
    ultimately show ?thesis using demo_byte [of 96] by (simp add: bitn_def)
  next
    case False
    have "bit (0xFF :: u8) b" if "b < 8" for b using nat_less_cases8 [OF that] by auto
    moreover have "demo_mem (96 + of_nat (?n div 8)) = 0xFF"
    proof -
      have "?n div 8 = 1 \<or> ?n div 8 = 2 \<or> ?n div 8 = 3" using n False by linarith
      then show ?thesis using demo_byte [of 97] demo_byte [of 98] demo_byte [of 99] by auto
    qed
    ultimately show ?thesis using False by (auto simp: bitn_def)
  qed
  also have "\<dots> \<longleftrightarrow> (l, i) \<noteq> (0, 0)" using block_number_eq [of i l 0 0] assms(2) by simp
  finally show ?thesis .
qed

lemma demo_rep: "buddy_rep demo_mem 8 4 init_abs"
proof -
  have h: "unat (head_cell demo_mem 8 (of_nat l)) = 56 + 8 * l" if "l \<le> 4" for l
    using unat_head_cell [OF demo_layout that] by (simp add: demo_load)
  have "free_ok 4 (free_of init_abs)" by (rule tree_inv_free_ok [OF tree_inv_init])
  moreover have "chain demo_mem (rd64 demo_mem (head_cell demo_mem 8 (of_nat l)))
      (map (bptr demo_mem 8 l) (free_of init_abs l))" if l: "l \<le> 4" for l
  proof (cases "l = 0")
    case True
    have "rd64 demo_mem 56 = 8192" by (simp add: demo_mem_def)
    moreover have "rd64 demo_mem 8192 = 0" by (rule demo_zero) simp
    moreover have "head_cell demo_mem 8 0 = 56" by (simp add: head_cell_def demo_load)
    ultimately show ?thesis
      using True by (simp add: init_abs_def bptr_def demo_load to_pointer_def)
  next
    case False
    then have "rd64 demo_mem (head_cell demo_mem 8 (of_nat l)) = 0"
      using h [OF l] l by (intro demo_zero) auto
    then show ?thesis using False by (simp add: init_abs_def)
  qed
  ultimately have "buddy_inv demo_mem 8 4 (free_of init_abs)" using demo_layout by (simp add: buddy_inv_def)
  then show ?thesis
    using demo_bits by (auto simp: buddy_rep_def demo_load init_abs_def)
qed

lemma demo_reach: "buddy_reach 8 4 demo_mem {}"
  by (rule buddy_reach.start [OF demo_rep]) simp

text \<open>After one request for a page the left-most page is allocated, after two its neighbour too.\<close>

definition demo_mem1 :: mem where "demo_mem1 = snd (the (buddy_alloc demo_mem 8 1))"
definition demo_mem2 :: mem where "demo_mem2 = snd (the (buddy_alloc demo_mem1 8 1))"
definition demo_abs1 :: buddy_abs where "demo_abs1 = snd (the (alloc_abs init_abs 4))"

lemma demo_serve:
  assumes "buddy_rep m 8 4 s" "tree_inv 4 s A" "load_buddy m 8 = load_buddy demo_mem 8"
    and "alloc_abs s 4 = Some (i, s')"
  shows "buddy_alloc m 8 1 = Some (8192 + 4096 * of_nat i, snd (the (buddy_alloc m 8 1)))"
    and "served_block m 8 1 (8192 + 4096 * of_nat i) = (4, i)"
    and "buddy_rep (snd (the (buddy_alloc m 8 1))) 8 4 s'"
    and "load_buddy (snd (the (buddy_alloc m 8 1))) 8 = load_buddy demo_mem 8"
proof -
  have bf: "best_fit_layer 1 16 = Some (of_nat 4)"
    using best_fit_power_of_two [of 0 4 16 1 0] by (simp add: pool_def)
  have nz: "(1 :: u64) \<noteq> 0" by simp
  have l4: "l = 4" if "of_nat l = (of_nat 4 :: u64)" "l \<le> 4" for l
  proof -
    have "unat (of_nat l :: u64) = unat (of_nat 4 :: u64)" using that(1) by (rule arg_cong)
    then show ?thesis using that(2) by (simp add: unat_of_nat64)
  qed
  from assms(1,2) nz have "\<exists>m'. buddy_alloc m 8 1 = Some (bptr m 8 4 i, m')
    \<and> served_block m 8 1 (bptr m 8 4 i) = (4, i) \<and> buddy_rep m' 8 4 s' \<and> keeps m m' 8 4 A"
  proof (cases rule: buddy_alloc_cases)
    case (full l)
    have "of_nat l = (of_nat 4 :: u64)" using full(1) bf by (simp add: assms(3) demo_load)
    then have "l = 4" using full(2) l4 by blast
    then have "alloc_abs s 4 = None" using full(4) by (simp add: alloc_abs_none)
    then show ?thesis using assms(4) by simp
  next
    case (served l j m' t)
    have "of_nat l = (of_nat 4 :: u64)" using served(1) bf by (simp add: assms(3) demo_load)
    then have l: "l = 4" using served(2) l4 by blast
    then show ?thesis using served assms(4) by simp
  qed
  moreover have "bptr m 8 4 i = 8192 + 4096 * of_nat i"
    by (simp add: bptr_def assms(3) demo_load to_pointer_def block_size_def PAGE_SIZE_def unat_of_nat64 mult.commute)
  ultimately show "buddy_alloc m 8 1 = Some (8192 + 4096 * of_nat i, snd (the (buddy_alloc m 8 1)))"
    and "served_block m 8 1 (8192 + 4096 * of_nat i) = (4, i)"
    and "buddy_rep (snd (the (buddy_alloc m 8 1))) 8 4 s'"
    and "load_buddy (snd (the (buddy_alloc m 8 1))) 8 = load_buddy demo_mem 8"
    by (auto dest!: keeps_load simp: assms(3))
qed

lemma demo_abs_alloc: "alloc_abs init_abs 4 = Some (0, demo_abs1)"
  "alloc_abs demo_abs1 4 = Some (1, pop_abs 4 demo_abs1)" "free_of demo_abs1 0 = []"
proof -
  have e: "alloc_abs init_abs 4 = Some (0, split_abs 4 (pop_abs 0 init_abs) 0 0)"
    by (simp add: alloc_abs_def init_abs_def eval_nat_numeral)
  then show "alloc_abs init_abs 4 = Some (0, demo_abs1)" by (simp add: demo_abs1_def)
  have d: "demo_abs1 = split_abs (Suc (Suc (Suc (Suc 0)))) (pop_abs 0 init_abs) 0 0"
    unfolding demo_abs1_def e by (simp add: eval_nat_numeral)
  have "free_of demo_abs1 4 = [1]" and "free_of demo_abs1 0 = []"
    by (simp_all add: d init_abs_def eval_nat_numeral split_step_def push_abs_def pop_abs_def)
  moreover from this(1) have "find_abs demo_abs1 4 = 4" using find_abs.simps(2) [of demo_abs1 3] by simp
  ultimately show "free_of demo_abs1 0 = []" "alloc_abs demo_abs1 4 = Some (1, pop_abs 4 demo_abs1)"
    by (simp_all add: alloc_abs_def)
qed

lemma demo_alloc: "buddy_alloc demo_mem 8 1 = Some (8192, demo_mem1)"
  "buddy_alloc demo_mem1 8 1 = Some (12288, demo_mem2)"
  "buddy_reach 8 4 demo_mem1 {(4, 0)}" "buddy_reach 8 4 demo_mem2 {(4, 1), (4, 0)}"
  "load_buddy demo_mem1 8 = load_buddy demo_mem 8" "load_buddy demo_mem2 8 = load_buddy demo_mem 8"
proof -
  note A = demo_serve [OF demo_rep tree_inv_init refl demo_abs_alloc(1), folded demo_mem1_def]
  show a: "buddy_alloc demo_mem 8 1 = Some (8192, demo_mem1)" using A(1) by simp
  show r: "buddy_reach 8 4 demo_mem1 {(4, 0)}"
    using buddy_reach.step [OF demo_reach buddy_step.alloc [OF _ a]] A(2) by simp
  show "load_buddy demo_mem1 8 = load_buddy demo_mem 8" by (rule A(4))
  have t: "tree_inv 4 demo_abs1 {(4, 0)}"
    using alloc_abs_some(1) [OF tree_inv_init _ demo_abs_alloc(1), of 4] by simp
  note B = demo_serve [OF A(3) t A(4) demo_abs_alloc(2), folded demo_mem2_def]
  show b: "buddy_alloc demo_mem1 8 1 = Some (12288, demo_mem2)" using B(1) by simp
  show "buddy_reach 8 4 demo_mem2 {(4, 1), (4, 0)}"
    using buddy_reach.step [OF r buddy_step.alloc [OF _ b]] B(2) by simp
  show "load_buddy demo_mem2 8 = load_buddy demo_mem 8" by (rule B(4))
qed

subsection \<open>Allocation\<close>

text \<open>
  C5: in every reachable state a request for any number of pages either is refused, which changes
  nothing and happens only when the free lists of all layers up to the chosen one are empty, or
  returns the address of a block of the chosen layer that shares no page with any block in use,
  leads to a reachable state, and leaves every byte of the blocks in use as it was.
\<close>

theorem buddy_alloc_correct:
  assumes "buddy_reach alloc k m A" "pages \<noteq> 0"
  shows "\<exists>p m' bf. buddy_alloc m alloc pages = Some (p, m')
    \<and> best_fit_layer pages (root_block_size (load_buddy m alloc)) = Some (of_nat bf) \<and> bf \<le> k
    \<and> (p = NULL \<and> m' = m \<and> (\<forall>l\<le>bf. rd64 m (head_cell m alloc (of_nat l)) = NULL)
       \<or> p \<noteq> NULL \<and> (\<exists>i<2 ^ bf. p = bptr m alloc bf i
            \<and> (\<forall>b\<in>A. disjoint_blocks k b (bf, i))
            \<and> buddy_reach alloc k m' (insert (bf, i) A)
            \<and> keeps m m' alloc k A))"
proof -
  obtain s where s: "buddy_rep m alloc k s" "tree_inv k s A" by (rule buddy_reachE [OF assms(1)])
  from s assms(2) show ?thesis
  proof (cases rule: buddy_alloc_cases)
    case (full bf)
    have "rd64 m (head_cell m alloc (of_nat l)) = NULL" if "l \<le> bf" for l
      using rep_chain [OF s(1), of l] full(2,4) that by simp
    then show ?thesis using full by blast
  next
    case (served bf i m' s')
    have r: "buddy_reach alloc k m' (insert (bf, i) A)"
      using buddy_reach.step [OF assms(1) buddy_step.alloc [OF assms(2) served(4,5)]] by (simp add: served(6))
    have "\<forall>b\<in>A. disjoint_blocks k b (bf, i)"
      using reach_disjoint [OF r, of _ "(bf, i)"] served(10) by auto
    then show ?thesis using served r by blast
  qed
qed

theorem buddy_alloc_correct_witness:
  "\<exists>p m' bf. buddy_alloc demo_mem1 8 3 = Some (p, m')
    \<and> best_fit_layer 3 (root_block_size (load_buddy demo_mem1 8)) = Some (of_nat bf) \<and> bf \<le> 4
    \<and> (p = NULL \<and> m' = demo_mem1
       \<or> (\<exists>i<2 ^ bf. p = bptr demo_mem1 8 bf i \<and> disjoint_blocks 4 (4, 0) (bf, i)
            \<and> buddy_reach 8 4 m' {(bf, i), (4, 0)} \<and> keeps demo_mem1 m' 8 4 {(4, 0)}))"
  using buddy_alloc_correct [OF demo_alloc(3), of 3] by (fastforce simp del: One_nat_def)

text \<open>
  C14: however requests and releases of blocks of even index alternate, from any reachable state
  with nothing in use, the blocks in use at the end are pairwise disjoint and none is handed out
  twice.
\<close>

theorem buddy_sequence_disjoint:
  assumes "buddy_reach alloc k m {}"
  shows "pairwise (disjoint_blocks k)
      (set (snd (foldl (bs.serve alloc) (m, []) acts)))
    \<and> distinct (snd (foldl (bs.serve alloc) (m, []) acts))"
  by (rule bs.all_separate [OF assms])

theorem buddy_sequence_disjoint_witness:
  "pairwise (disjoint_blocks 4)
      (set (snd (foldl (bs.serve 8) (demo_mem, []) [Get 1, Get 5, Put 0, Get 2])))
    \<and> distinct (snd (foldl (bs.serve 8) (demo_mem, []) [Get 1, Get 5, Put 0, Get 2]))"
  by (rule buddy_sequence_disjoint [OF demo_reach])

subsection \<open>Release\<close>

text \<open>
  The release of a block in use whose index on its layer is even returns, puts exactly that
  block at the head of the free list of its layer, makes it available again, and leaves every byte
  of the other blocks in use as it was.
\<close>

theorem buddy_free_correct:
  assumes "buddy_reach alloc k m A" "(l, i) \<in> A" "even i"
  shows "\<exists>m'. buddy_free m alloc (bptr m alloc l i) = Some m'
    \<and> rd64 m' (head_cell m' alloc (of_nat l)) = bptr m alloc l i
    \<and> buddy_reach alloc k m' (A - {(l, i)})
    \<and> keeps m m' alloc k (A - {(l, i)})"
proof -
  obtain s where s: "buddy_rep m alloc k s" "tree_inv k s A" "k \<le> 31" by (rule buddy_reachE [OF assms(1)])
  obtain m' where m': "buddy_free m alloc (bptr m alloc l i) = Some m'"
    "buddy_rep m' alloc k (push_abs l i (put_bit l i False s))" "keeps m m' alloc k (A - {(l, i)})"
    by (rule buddy_free_even [OF s(1,2) assms(2,3) s(3)])
  have "l \<le> k" using partition_valid [OF tree_invD(3) [OF s(2)], of l i] assms(2) by simp
  from rep_chain [OF m'(2) this] have "rd64 m' (head_cell m' alloc (of_nat l)) = bptr m alloc l i"
    by (simp add: push_abs_def bptr_cong [OF keeps_load [OF m'(3)]])
  moreover have "buddy_reach alloc k m' (A - {(l, i)})"
    using buddy_reach.step [OF assms(1) buddy_step.release [OF assms(2,3) m'(1)]] .
  ultimately show ?thesis using m' by blast
qed

theorem buddy_free_correct_witness:
  "\<exists>m'. buddy_free demo_mem2 8 (bptr demo_mem2 8 4 0) = Some m'
    \<and> rd64 m' (head_cell m' 8 (of_nat 4)) = bptr demo_mem2 8 4 0
    \<and> buddy_reach 8 4 m' ({(4, 1), (4, 0)} - {(4, 0)})
    \<and> keeps demo_mem2 m' 8 4 ({(4, 1), (4, 0)} - {(4, 0)})"
  by (rule buddy_free_correct [OF demo_alloc(4)]) simp_all

text \<open>
  C35: the release of a block in use whose index is odd, the right one of two buddies, puts the
  whole pool on the free list of layer 0: the next request for the whole pool is served with the
  first page of the pool, whatever blocks are still in use.
\<close>

theorem buddy_free_odd_frees_pool:
  assumes "buddy_reach alloc k m A" "(l, i) \<in> A" "odd i"
  shows "\<exists>m' m''. buddy_free m alloc (bptr m alloc l i) = Some m'
    \<and> rd64 m' (head_cell m' alloc 0) = pool_begin (load_buddy m alloc)
    \<and> buddy_alloc m' alloc (root_block_size (load_buddy m alloc)) = Some (pool_begin (load_buddy m alloc), m'')"
proof -
  obtain s where s: "buddy_rep m alloc k s" "tree_inv k s A" "k \<le> 31" by (rule buddy_reachE [OF assms(1)])
  note lay = rep_layout [OF s(1)]
  have V: "l \<le> k" "i < 2 ^ l" using partition_valid [OF tree_invD(3) [OF s(2)], of l i] assms(2) by auto
  let ?j = "i * 2 ^ (k - l)"
  have j: "?j < 2 ^ k" using block_inside [OF V] zero_less_power [of "2 :: nat" "k - l"] by linarith
  obtain m1 where m1: "buddy_free m alloc (bptr m alloc k ?j)
      = Some (freelist_push m1 (head_cell m1 alloc (of_nat 0)) (bptr m1 alloc 0 0))"
    "buddy_rep m1 alloc k (put_bit 0 0 False s)" "keeps m m1 alloc k {}"
    by (rule buddy_free_sim [where B = "{}", OF s(1,3) j climb_odd [OF s(2) assms(2,3)] merge_abs.simps(1)]) simp
  let ?L = "head_cell m1 alloc (of_nat 0)" and ?b = "bptr m1 alloc 0 0"
  define m' where "m' = freelist_push m1 ?L ?b"
  note lay1 = rep_layout [OF m1(2)]
  have B: "?b = pool_begin (load_buddy m alloc)"
    by (simp add: bptr_def to_pointer_def keeps_load [OF m1(3)])
  have c: "cell ?L" "cell ?b" "apart ?L ?b" "?b \<noteq> NULL"
    using head_cell_cell [OF lay1, of 0] bptr_cell [OF lay1, of 0 0] head_bptr_apart [OF lay1, of 0 0 0] by simp_all
  have e: "m' = wr64 (wr64 m1 ?b (rd64 m1 ?L)) ?L ?b" using c by (simp add: m'_def freelist_push_eq)
  have ld: "load_buddy m' alloc = load_buddy m alloc"
    unfolding e using head_above [OF lay1, of 0] bptr_above [OF lay1, of 0 0] c
    by (simp add: load_buddy_wr64 keeps_load [OF m1(3)])
  have h: "head_cell m' alloc 0 = ?L" by (simp add: head_cell_def ld keeps_load [OF m1(3)])
  have "rd64 m' ?L = ?b" by (simp add: e)
  then have hd: "rd64 m' (head_cell m' alloc 0) = pool_begin (load_buddy m alloc)" by (simp only: h B)
  let ?r = "root_block_size (load_buddy m alloc)"
  have bf: "best_fit_layer ?r ?r = Some 0"
    using best_fit_power_of_two [OF layoutD(6) [OF lay], of ?r k] layoutD(6) [OF lay] by (simp add: pool_def)
  have ix: "to_index (pool_begin (load_buddy m alloc)) 0 (pool_begin (load_buddy m alloc)) ?r = Some 0"
    using bptr_index [OF lay, of 0 0] by (simp add: bptr_def to_pointer_def)
  have f0: "find_layer m' alloc 0 = 0" by (subst find_layer.simps) simp
  have pop: "freelist_pop m' (head_cell m' alloc 0)
      = (pool_begin (load_buddy m alloc), wr64 m' ?L (freelist_get_next m' (pool_begin (load_buddy m alloc))))"
    using c hd B by (simp add: freelist_pop_def h cell_def Let_def)
  have "load_buddy (wr64 m' ?L v) alloc = load_buddy m alloc" for v
    using head_above [OF lay1, of 0] c(1) by (simp add: load_buddy_wr64 ld)
  then obtain m'' where "buddy_alloc m' alloc ?r = Some (pool_begin (load_buddy m alloc), m'')"
    using c(4) by (simp add: buddy_alloc_def ld bf f0 pop ix B Let_def split_beta)
  moreover have "bptr m alloc k ?j = bptr m alloc l i" using bptr_first [OF lay V(1) order_refl V(2)] .
  ultimately show ?thesis using m1(1) hd by (auto simp: m'_def)
qed

theorem buddy_free_odd_frees_pool_witness:
  "\<exists>m' m''. buddy_free demo_mem2 8 (bptr demo_mem2 8 4 1) = Some m'
    \<and> rd64 m' (head_cell m' 8 0) = pool_begin (load_buddy demo_mem2 8)
    \<and> buddy_alloc m' 8 (root_block_size (load_buddy demo_mem2 8)) = Some (pool_begin (load_buddy demo_mem2 8), m'')"
  by (rule buddy_free_odd_frees_pool [OF demo_alloc(4)]) simp_all

text \<open>
  C34: buddies are never merged. Once no block of a layer up to \<open>L\<close> is free or in use, none
  appears by any sequence of requests, releases of blocks of even index and writes of the users:
  the free lists of these layers stay empty, and every request that such a layer would serve is
  refused from then on, however many blocks of even index are released. (The release of a block of odd
  index puts the whole pool on the free list of layer 0, whatever is in use.)
\<close>

theorem buddy_never_merges:
  assumes "buddy_reach alloc k m A" "L \<le> k"
    and "\<forall>l\<le>L. rd64 m (head_cell m alloc (of_nat l)) = NULL" "\<forall>b\<in>A. L < fst b"
    and "(buddy_step alloc k)\<^sup>*\<^sup>* (m, A) (m', A')"
  shows "(\<forall>l\<le>L. rd64 m' (head_cell m' alloc (of_nat l)) = NULL) \<and> (\<forall>b\<in>A'. L < fst b)
    \<and> (\<forall>pages bf. bf \<le> L \<longrightarrow> best_fit_layer pages (root_block_size (load_buddy m' alloc)) = Some (of_nat bf) \<longrightarrow>
         buddy_alloc m' alloc pages = Some (NULL, m'))"
proof -
  obtain s where s: "buddy_rep m alloc k s" "tree_inv k s A" and k: "k \<le> 31" by (rule buddy_reachE [OF assms(1)])
  have "free_of s l = []" if "l \<le> L" for l
    using chain_NULL_iff [OF rep_chain [OF s(1), of l]] assms(2,3) that by simp
  with assms(4) have "(\<forall>l\<le>L. free_of s l = []) \<and> (\<forall>b\<in>A. L < fst b)" by blast
  with s have "\<exists>s. buddy_rep m alloc k s \<and> tree_inv k s A \<and> (\<forall>l\<le>L. free_of s l = []) \<and> (\<forall>b\<in>A. L < fst b)"
    by blast
  with assms(5) have "\<exists>s. buddy_rep m' alloc k s \<and> tree_inv k s A' \<and> (\<forall>l\<le>L. free_of s l = []) \<and> (\<forall>b\<in>A'. L < fst b)"
  proof (induction rule: rtranclp_induct2)
    case (step m1 A1 m2 A2)
    then obtain s1 where "buddy_rep m1 alloc k s1" "tree_inv k s1 A1"
      "\<forall>l\<le>L. free_of s1 l = []" "\<forall>b\<in>A1. L < fst b" by blast
    note s1 = this
    obtain s2 where "buddy_rep m2 alloc k s2" "tree_inv k s2 A2"
      "(\<forall>l\<le>L. free_of s2 l = []) \<and> (\<forall>b\<in>A2. L < fst b)"
      by (rule buddy_step_sim [OF s1(1,2) k step(2), of L]) (use s1(3,4) in blast)
    then show ?case by blast
  qed
  then obtain s' where s': "buddy_rep m' alloc k s'" "\<forall>l\<le>L. free_of s' l = []" "\<forall>b\<in>A'. L < fst b" by blast
  have "rd64 m' (head_cell m' alloc (of_nat l)) = NULL" if "l \<le> L" for l
    using rep_chain [OF s'(1), of l] s'(2) assms(2) that by simp
  moreover have "buddy_alloc m' alloc pages = Some (NULL, m')"
    if "bf \<le> L" "best_fit_layer pages (root_block_size (load_buddy m' alloc)) = Some (of_nat bf)" for pages bf
    using that s'(2) assms(2) by (intro buddy_alloc_none [OF s'(1) _ _ that(2)]) (simp_all add: alloc_abs_none)
  ultimately show ?thesis using s'(3) by blast
qed

lemma demo_no_root: "rd64 demo_mem1 (head_cell demo_mem1 8 (of_nat 0)) = NULL"
proof -
  note A = demo_serve [OF demo_rep tree_inv_init refl demo_abs_alloc(1), folded demo_mem1_def]
  show ?thesis using rep_chain [OF A(3), of 0] demo_abs_alloc(3) by simp
qed

theorem buddy_never_merges_witness:
  "\<exists>m'. buddy_step 8 4 (demo_mem1, {(4, 0)}) (m', {})
    \<and> (\<forall>l\<le>0. rd64 m' (head_cell m' 8 (of_nat l)) = NULL)"
proof -
  obtain m' where "buddy_free demo_mem1 8 (bptr demo_mem1 8 4 0) = Some m'"
    using bs.put_ok buddy_free_even buddy_reachE [OF demo_alloc(3)] by (metis insertI1 even_zero)
  then have st: "buddy_step 8 4 (demo_mem1, {(4, 0)}) (m', {(4, 0)} - {(4, 0)})"
    by (intro buddy_step.release) auto
  then show ?thesis
    using buddy_never_merges [OF demo_alloc(3), of 0 m' "{}"] demo_no_root by auto
qed

end
