(* ===== verification/Slab_Props.thy ===== *)
theory Slab_Props
  imports Slab_Correct Buddy_Props
begin

section \<open>What the slab allocator guarantees\<close>

text \<open>
  The properties of a slab whose objects fit one cache, its initialisation from a block of the buddy
  allocator, and the behaviour of the list of caches once there are two.
\<close>

subsection \<open>The size of a cache\<close>

text \<open>
  \<open>slab_cache_pages\<close> multiplies by the size of the type instead of the size of an object: a
  cache has 64 pages for every object size that does not wrap around, so that an object of more than
  64 pages does not fit a cache at all.
\<close>

theorem slab_cache_pages_constant:
  assumes "0 < unat objsize" "unat objsize < 2305843009213693952"
  shows "slab_cache_pages objsize = 64"
proof -
  have "unat (objsize * 8) = unat objsize * 8" using assms(2) by (subst unat_mult64) simp_all
  then have "\<not> objsize * 8 < 8" using assms(1) by (simp add: word_less_nat_alt)
  then show ?thesis
    by (simp add: slab_cache_pages_def SLAB_MIN_CACHE_OBJECTS_def SLAB_MIN_CACHE_PAGES_def)
qed

theorem slab_cache_pages_constant_witness:
  "slab_cache_pages 1048576 = 64"
  by (rule slab_cache_pages_constant) simp_all

subsection \<open>A new root cache\<close>

text \<open>The memory after \<open>slab_init\<close> has been given the block at \<open>p\<close>.\<close>

lemma slab_cache_init_root:
  assumes "p \<noteq> NULL" "unat p + 120 + N * s < 18446744073709551616" "8 \<le> s"
    and "unat (rd64 m (p + 32)) = s" "rd64 m (p + 8) = NULL" "rd64 m (p + 16) = NULL"
    and "e = p + 120 + of_nat r" "r < 9223372036854775808" "N = r div s" "1 \<le> N"
    and "unat p + 120 + r < 18446744073709551616"
  shows "\<exists>m'. slab_cache_init m p (p + 48) e = Some m' \<and> slab_rep m' p (p + 48) N s 0 [] True
    \<and> (\<forall>x. \<not> in_region p 120 x \<longrightarrow> m' x = m x)"
proof -
  define c where "c = p + 48"
  have u: "unat (p + numeral k) = unat p + numeral k" if "(numeral k :: nat) \<le> 120" for k
    using assms(2) that by (intro unat_add_numeral) linarith
  have uc: "unat c = unat p + 48" unfolding c_def by (rule u) simp
  have v: "unat (c + numeral k) = unat p + (48 + numeral k)" if "(numeral k :: nat) \<le> 72" for k
    using uc assms(2) that by (subst unat_add_numeral) linarith+
  have A: "unat (p + 8) = unat p + 8" "unat (p + 16) = unat p + 16" "unat (p + 24) = unat p + 24"
    "unat (p + 32) = unat p + 32" "unat (p + 40) = unat p + 40" "unat c = unat p + 48"
    "unat (c + 8) = unat p + 56" "unat (c + 16) = unat p + 64" "unat (c + 24) = unat p + 72"
    "unat (c + 32) = unat p + 80" "unat (c + 40) = unat p + 88" "unat (c + 48) = unat p + 96"
    "unat (c + 56) = unat p + 104" "unat (c + 64) = unat p + 112"
    using u v uc by simp_all
  have room: "unat p + 120 < 18446744073709551616" using assms(2) by simp
  have cn: "c \<noteq> NULL" using uc by auto
  have s0: "rd64 m (p + 32) \<noteq> 0" using assms(3,4) by auto
  have sz: "e - c - sizeof_slab_cache_header_t = of_nat r"
    by (simp add: assms(7) c_def sizeof_slab_cache_header_t_def)
  have ur: "unat (of_nat r :: u64) = r" using assms(8) by (intro unat_of_nat64) simp
  have mx: "unat (of_nat r div rd64 m (p + 32)) = N" by (simp add: unat_div ur assms(4,9))
  note fr = rd64_wr64_apart rd64_upd_apart in_region_def A room
  define m7 where "m7 = wr64 (wr64 (wr64 (wr64 (wr64 (wr64 (wr64 m c (of_nat r)) (c + 8) c) (c + 16) (c + 72))
      (c + 24) NULL) (c + 32) NULL) (c + 40) NULL) (c + 48) 0"
  have h: "slab_cache_header m c e = m7"
    unfolding slab_cache_header_def Let_def sz m7_def by (simp add: sizeof_slab_cache_header_t_def)
  have r7: "rd64 m7 (p + 32) = rd64 m (p + 32)" "rd64 m7 (p + 8) = rd64 m (p + 8)"
    "rd64 m7 (p + 16) = rd64 m (p + 16)" "rd64 m7 c = of_nat r" "rd64 m7 (c + 16) = c + 72"
    "rd64 m7 (c + 24) = NULL" "rd64 m7 (c + 32) = NULL" "rd64 m7 (c + 40) = NULL" "rd64 m7 (c + 48) = 0"
    using room by (simp_all add: m7_def rd64_wr64_apart A)
  define m8 where "m8 = (wr64 m7 (c + 56) (of_nat r div rd64 m (p + 32)))(c + 64 := 0)"
  have r8: "rd64 m8 (p + 32) = rd64 m (p + 32)" "rd64 m8 (p + 8) = NULL"
    "rd64 m8 (p + 16) = NULL" "rd64 m8 (c + 16) = c + 72"
    "rd64 m8 (c + 24) = NULL" "rd64 m8 (c + 32) = NULL" "rd64 m8 (c + 40) = NULL" "rd64 m8 (c + 48) = 0"
    "rd64 m8 (c + 56) = of_nat r div rd64 m (p + 32)"
    using room r7 assms(5,6) by (simp_all add: m8_def rd64_wr64_apart rd64_upd_apart in_region_def A)
  define m' where "m' = wr64 (wr64 (wr64 (m8(c + 64 := 1)) (p + 8) c) (p + 24) c) (p + 16) c"
  have r': "rd64 m' (p + 32) = rd64 m (p + 32)" "rd64 m' (p + 16) = c" "rd64 m' (c + 16) = c + 72"
    "rd64 m' (c + 24) = NULL" "rd64 m' (c + 32) = NULL" "rd64 m' (c + 40) = NULL" "rd64 m' (c + 48) = 0"
    "rd64 m' (c + 56) = of_nat r div rd64 m (p + 32)" "m' (c + 64) = 1"
    using room r8 by (simp_all add: m'_def rd64_wr64_apart rd64_upd_apart in_region_def A wr64_out)
  let ?m9 = "wr64 (wr64 (m8(c + 64 := 1)) (p + 8) c) (p + 24) c"
  have "rd64 ?m9 (p + 16) = NULL"
    using room r8(3) by (simp add: rd64_wr64_apart rd64_upd_apart in_region_def A)
  then have "slab_cache_link m8 p c = m'" by (simp add: slab_cache_link_def r8(2) m'_def)
  then have "slab_cache_init m p c e = Some m'"
    using s0 by (simp add: slab_cache_init_def h r7(1,4) flip: m8_def)
  moreover have "slab_rep m' p c N s 0 [] True"
  proof -
    have "slab_geometry m' p c N s"
      unfolding slab_geometry_def r'(1,4,5,8,9) mx assms(4) uc using assms(1-3,10) by simp
    then show ?thesis unfolding slab_rep_def r'(2,3,6,7) using assms(10) by (simp add: slot_def live_def)
  qed
  moreover have "m' x = m x" if "\<not> in_region p 120 x" for x
  proof -
    have "x \<noteq> c + 64"
    proof
      assume "x = c + 64"
      then have "unat x = unat p + 112" by (simp only: A)
      with that show False unfolding in_region_def by linarith
    qed
    moreover have "wr64 m0 a v x = m0 x" if "unat p \<le> unat a" "unat a + 8 \<le> unat p + 120" for m0 a v
      using that room \<open>\<not> in_region p 120 x\<close> by (intro wr64_out) (auto simp: in_region_def)
    ultimately show ?thesis by (simp add: m'_def m8_def m7_def A)
  qed
  ultimately show ?thesis unfolding c_def by blast
qed

text \<open>
  A root cache at 4096 with room for \<open>N\<close> objects of 24 bytes, before and after the first allocation.
\<close>

lemma demo_cache:
  assumes "1 \<le> N" "N \<le> 10"
  obtains m where "slab_rep m 4096 4144 N 24 0 [] True"
proof -
  have "rd64 (wr64 (\<lambda>_. 0) 4128 24) x = 0" if "unat x \<le> 4120" for x
  proof -
    have "rd64 (wr64 (\<lambda>_. 0) 4128 24) x = rd64 (\<lambda>_. 0) x" using that by (intro rd64_wr64_apart) auto
    then show ?thesis by (simp add: rd64_def)
  qed
  then have "\<exists>m'. slab_cache_init (wr64 (\<lambda>_. 0) 4128 24) 4096 (4096 + 48) (4096 + 120 + of_nat (N * 24)) = Some m'
    \<and> slab_rep m' 4096 (4096 + 48) N 24 0 [] True \<and> (\<forall>x. \<not> in_region 4096 120 x \<longrightarrow> m' x = wr64 (\<lambda>_. 0) 4128 24 x)"
    using assms by (intro slab_cache_init_root [where r = "N * 24"]) simp_all
  then show ?thesis using that by auto
qed

lemma demo_cache1:
  assumes "1 \<le> N" "N \<le> 10"
  obtains m where "slab_rep m 4096 4144 N 24 1 [] (N \<noteq> 1)"
proof -
  obtain m where "slab_rep m 4096 4144 N 24 0 [] True" by (rule demo_cache [OF assms])
  from slab_alloc_rep(1) [OF this] that show ?thesis by (simp add: next_carved_def eq_commute)
qed

subsection \<open>Objects of the root cache\<close>

text \<open>
  In a slab whose root cache has a free slot, \<open>slab_alloc\<close> returns, without asking the buddy
  allocator, the address behind the header of a slot that is not in use, records the cache in that
  header, keeps the invariant with that slot in use, and changes no byte of the slots in use.
\<close>

theorem slab_alloc_correct:
  assumes "slab_rep m alloc c N s n fs True"
  shows "\<exists>i m' n' fs' ff. slab_alloc m alloc = Some (slot c s i + 8, m')
    \<and> i < N \<and> i \<notin> live n fs \<and> rd64 m' (slot c s i) = c
    \<and> slab_rep m' alloc c N s n' fs' ff \<and> live n' fs' = insert i (live n fs)
    \<and> keeps_slots m m' c s (live n fs)"
  using slab_alloc_eq [OF assms] next_slot_less [OF assms] slab_alloc_rep [OF assms] slab_alloc_keeps [OF assms]
    slab_repD(11) [OF slab_alloc_rep(1) [OF assms]] by blast

theorem slab_alloc_correct_witness:
  "\<exists>m i m' n' fs' ff. slab_alloc m 4096 = Some (slot 4144 24 i + 8, m')
    \<and> i < 10 \<and> rd64 m' (slot 4144 24 i) = 4144 \<and> slab_rep m' 4096 4144 10 24 n' fs' ff
    \<and> live n' fs' = {i}"
proof -
  obtain m where m: "slab_rep m 4096 4144 10 24 0 [] True" using demo_cache [of 10] by auto
  have "live 0 [] = {}" by (simp add: live_def)
  then show ?thesis using slab_alloc_correct [OF m] by metis
qed

text \<open>
  \<open>slab_free\<close> of an object in use returns, makes its slot the first of the free list, keeps
  the invariant without that slot in use, and changes no byte of the other slots in use.
\<close>

theorem slab_free_correct:
  assumes "slab_rep m alloc c N s n fs ff" "i \<in> live n fs"
  shows "\<exists>m'. slab_free m alloc (slot c s i + 8) = Some m'
    \<and> rd64 m' (c + 40) = slot c s i
    \<and> slab_rep m' alloc c N s n (i # fs) ff \<and> live n (i # fs) = live n fs - {i}
    \<and> keeps_slots m m' c s (live n fs - {i})"
proof -
  have "rd64 (after_free m c s i) (c + 40) = slot c s i"
    using slab_repD(6) [OF slab_free_rep(1) [OF assms]] by simp
  then show ?thesis using slab_free_eq [OF assms] slab_free_rep [OF assms] by blast
qed

theorem slab_free_correct_witness:
  "\<exists>m m'. slab_rep m 4096 4144 10 24 1 [] True \<and> slab_free m 4096 (slot 4144 24 0 + 8) = Some m'
    \<and> slab_rep m' 4096 4144 10 24 1 [0] True \<and> live 1 [0] = {}"
proof -
  obtain m where m: "slab_rep m 4096 4144 10 24 1 [] True" using demo_cache1 [of 10] by auto
  have "0 \<in> live 1 []" by (simp add: live_def)
  from slab_free_correct [OF m this] m show ?thesis by (auto simp: live_def)
qed

subsection \<open>A slab as a source of objects\<close>

definition slab_ok :: "ptr \<Rightarrow> ptr \<Rightarrow> nat \<Rightarrow> nat \<Rightarrow> mem \<Rightarrow> nat set \<Rightarrow> bool" where
  "slab_ok alloc c N s m L \<longleftrightarrow> (\<exists>n fs ff. slab_rep m alloc c N s n fs ff \<and> L = live n fs)"

text \<open>The index of the slot of an object.\<close>

definition slot_index :: "ptr \<Rightarrow> nat \<Rightarrow> ptr \<Rightarrow> nat" where
  "slot_index c s p = (unat p - unat c - 80) div s"

definition slab_get :: "ptr \<Rightarrow> ptr \<Rightarrow> nat \<Rightarrow> mem \<Rightarrow> unit \<Rightarrow> (nat \<times> mem) option" where
  "slab_get alloc c s m u =
     (if rd64 m (alloc + 16) = NULL then None
      else map_option (\<lambda>(p, m'). (slot_index c s p, m')) (slab_alloc m alloc))"

definition slab_put :: "ptr \<Rightarrow> ptr \<Rightarrow> nat \<Rightarrow> mem \<Rightarrow> nat \<Rightarrow> mem" where
  "slab_put alloc c s m i = (case slab_free m alloc (slot c s i + 8) of None \<Rightarrow> m | Some m' \<Rightarrow> m')"

definition separate_objects :: "ptr \<Rightarrow> nat \<Rightarrow> nat \<Rightarrow> nat \<Rightarrow> nat \<Rightarrow> bool" where
  "separate_objects c N s i j \<longleftrightarrow>
     i < N \<and> j < N \<and>
     (unat (slot c s i) + s \<le> unat (slot c s j) \<or> unat (slot c s j) + s \<le> unat (slot c s i))"

lemma slot_index_slot:
  assumes "slab_geometry m alloc c N s" "i < N"
  shows "slot_index c s (slot c s i + 8) = i"
proof -
  note U = unat_slot(1,2) [OF assms]
  have s: "8 \<le> s" using assms(1) by (simp add: slab_geometry_def)
  have c: "unat c = unat alloc + 48" using slab_addresses(3) [OF assms(1)] .
  have "unat (slot c s i + 8) = unat alloc + 120 + i * s + 8"
    using U s by (subst unat_add_numeral) simp_all
  then show ?thesis using s c by (simp add: slot_index_def)
qed

interpretation sl: page_source "slab_ok alloc c N s" "slab_get alloc c s" "slab_put alloc c s"
  "\<lambda>_. True" "separate_objects c N s"
proof unfold_locales
  fix m L u i m'
  assume ok: "slab_ok alloc c N s m L" and g: "slab_get alloc c s m u = Some (i, m')"
  obtain n fs ff where r: "slab_rep m alloc c N s n fs ff" and L: "L = live n fs"
    using ok by (auto simp: slab_ok_def)
  have ff: "ff" using g slab_repD(8) [OF r] by (auto simp: slab_get_def split: if_splits)
  then have t: "slab_rep m alloc c N s n fs True" using r by simp
  have "i = next_slot n fs" "m' = after_alloc m alloc c N s n fs"
    using g slab_alloc_eq [OF t] slot_index_slot [OF slab_repD(1) [OF t] next_slot_less [OF t]]
    by (auto simp: slab_get_def split: if_splits)
  then show "i \<notin> L \<and> slab_ok alloc c N s m' (insert i L)"
    using slab_alloc_rep [OF t] unfolding slab_ok_def L by metis
next
  fix m L i
  assume ok: "slab_ok alloc c N s m L" and i: "i \<in> L"
  obtain n fs ff where r: "slab_rep m alloc c N s n fs ff" and L: "L = live n fs"
    using ok by (auto simp: slab_ok_def)
  have i': "i \<in> live n fs" using i L by simp
  show "slab_ok alloc c N s (slab_put alloc c s m i) (L - {i})"
    using slab_free_rep(1,2) [OF r i'] slab_free_eq [OF r i'] unfolding slab_ok_def slab_put_def L
    by (metis option.case(2))
next
  fix m L i j
  assume ok: "slab_ok alloc c N s m L" and ij: "i \<in> L" "j \<in> L" "i \<noteq> j"
  obtain n fs ff where r: "slab_rep m alloc c N s n fs ff" and L: "L = live n fs"
    using ok by (auto simp: slab_ok_def)
  then show "separate_objects c N s i j"
    using ij slab_repD(2) [OF r] slots_apart [OF slab_repD(1) [OF r], of i j]
    by (auto simp: separate_objects_def live_def)
qed

text \<open>
  However allocations and releases alternate on a slab with a root cache in which nothing is
  in use, the objects in use are pairwise separate, all inside the cache, and none is handed out
  twice.
\<close>

theorem slab_sequence_separate:
  assumes "slab_rep m alloc c N s n fs ff" "live n fs = {}"
  shows "pairwise (separate_objects c N s)
      (set (snd (foldl (sl.serve alloc c s) (m, []) acts)))
    \<and> distinct (snd (foldl (sl.serve alloc c s) (m, []) acts))"
  using assms by (intro sl.all_separate) (auto simp: slab_ok_def)

theorem slab_sequence_separate_witness:
  "\<exists>m. slab_rep m 4096 4144 10 24 0 [] True
    \<and> pairwise (separate_objects 4144 10 24)
      (set (snd (foldl (sl.serve 4096 4144 24) (m, []) [Get (), Get (), Put 0, Get ()])))"
proof -
  obtain m where m: "slab_rep m 4096 4144 10 24 0 [] True" using demo_cache [of 10] by auto
  then show ?thesis using slab_sequence_separate [OF m, of "[Get (), Get (), Put 0, Get ()]"] by (auto simp: live_def)
qed

subsection \<open>Initialisation\<close>

text \<open>
  When the buddy allocator serves its request for 64 pages, \<open>slab_init\<close> returns the start of
  that block, with an empty root cache in it that satisfies the invariant of the other properties,
  and writes nothing outside the first 120 bytes of the block.
\<close>

theorem slab_init_correct:
  assumes "8 \<le> unat objsize" "unat objsize \<le> 262024" "sz = objsize - 8"
    and "buddy_alloc m buddy 64 = Some (p, m1)" "p \<noteq> NULL" "unat p + 262144 < 18446744073709551616"
  shows "\<exists>m'. slab_init m buddy sz = Some (p, m')
    \<and> slab_rep m' p (p + 48) (262024 div unat objsize) (unat objsize) 0 [] True
    \<and> (\<forall>x. \<not> in_region p 120 x \<longrightarrow> m' x = m1 x)"
proof -
  let ?s = "unat objsize"
  have o: "sz + sizeof_object_header = objsize" by (simp add: assms(3) sizeof_object_header_def)
  have cp: "slab_cache_pages objsize = 64"
    using assms(1,2) by (intro slab_cache_pages_constant) linarith+
  have A: "unat (p + 8) = unat p + 8" "unat (p + 16) = unat p + 16" "unat (p + 24) = unat p + 24"
    "unat (p + 32) = unat p + 32" "unat (p + 40) = unat p + 40"
    using assms(6) by (simp_all add: unat_add_numeral)
  define m2 where "m2 = wr64 (wr64 (wr64 (wr64 (wr64 (wr64 m1 p buddy) (p + 8) NULL) (p + 16) NULL)
      (p + 24) NULL) (p + 32) objsize) (p + 40) 64"
  have r: "rd64 m2 (p + 32) = objsize" "rd64 m2 (p + 8) = NULL" "rd64 m2 (p + 16) = NULL"
    using assms(6) by (simp_all add: m2_def rd64_wr64_apart A)
  have le: "262024 div ?s * ?s \<le> 262024" by (rule div_times_less_eq_dividend)
  have "1 \<le> 262024 div ?s" using assms(1,2) div_le_mono [of ?s 262024 ?s] by simp
  moreover have "unat p + 120 + 262024 div ?s * ?s < 18446744073709551616" using le assms(6) by linarith
  ultimately have "\<exists>m'. slab_cache_init m2 p (p + 48) (p + 262144) = Some m'
    \<and> slab_rep m' p (p + 48) (262024 div ?s) ?s 0 [] True \<and> (\<forall>x. \<not> in_region p 120 x \<longrightarrow> m' x = m2 x)"
    using assms(1,5,6) r by (intro slab_cache_init_root [where r = 262024]) simp_all
  moreover have "m2 x = m1 x" if "\<not> in_region p 120 x" for x
  proof -
    have "wr64 m0 a v x = m0 x" if "unat p \<le> unat a" "unat a + 8 \<le> unat p + 120" for m0 a v
      using that assms(6) \<open>\<not> in_region p 120 x\<close> by (intro wr64_out) (auto simp: in_region_def)
    then show ?thesis by (simp add: m2_def A)
  qed
  moreover have "slab_init m buddy sz = map_option (\<lambda>m. (p, m)) (slab_cache_init m2 p (p + 48) (p + 262144))"
    using assms(4,5)
    by (simp add: slab_init_def Let_def o cp m2_def sizeof_slab_alloc_t_def PAGE_SIZE_def)
  ultimately show ?thesis by auto
qed

theorem slab_init_correct_witness:
  "\<exists>m'. slab_init demo_mem 8 16 = Some (8192, m') \<and> slab_rep m' 8192 8240 10917 24 0 [] True"
proof -
  have nz: "(64 :: u64) \<noteq> 0" by simp
  have bf: "best_fit_layer 64 16 = Some (of_nat 0)"
    using best_fit_layer_too_small [of 0 4 16] by (simp add: pool_def)
  obtain m1 where m1: "buddy_alloc demo_mem 8 64 = Some (8192, m1)"
    using demo_rep tree_inv_init nz
  proof (cases rule: buddy_alloc_cases)
    case (full l)
    then show ?thesis by (auto simp: init_abs_def)
  next
    case (served l i m' s')
    have "of_nat l = (of_nat 0 :: u64)" using served(1) bf by (simp add: demo_load)
    then have "unat (of_nat l :: u64) = unat (of_nat 0 :: u64)" by (rule arg_cong)
    then have l: "l = 0" using served(2) by (simp add: unat_of_nat64)
    have p: "bptr demo_mem 8 0 0 = 8192" by (simp add: bptr_def demo_load to_pointer_def)
    show ?thesis using that served(3,4) p by (simp add: l)
  qed
  show ?thesis using slab_init_correct [of 24 16 demo_mem 8 8192 m1] m1 by auto
qed

subsection \<open>The list of caches\<close>

text \<open>
  The two moves in the list of caches leave the moved cache as its own neighbour:
  \<open>slab_cache_move_up\<close> sets \<open>prev_cache\<close>, and \<open>slab_cache_move_down\<close> \<open>next_cache\<close>, to the
  cache itself, because each reads through the field it has just overwritten.
\<close>

theorem slab_cache_moves_self_loop:
  assumes "unat cache + 72 \<le> 18446744073709551616" "unat q + 72 \<le> 18446744073709551616"
    and "unat alloc + 48 \<le> 18446744073709551616" "q \<noteq> NULL"
    and "unat cache + 72 \<le> unat q \<or> unat q + 72 \<le> unat cache"
    and "unat cache + 72 \<le> unat alloc \<or> unat alloc + 48 \<le> unat cache"
  shows "(rd64 m (cache + 24) = q \<longrightarrow> rd64 (slab_cache_move_up m alloc cache) (cache + 24) = cache)
    \<and> (rd64 m (cache + 32) = q \<longrightarrow> rd64 (slab_cache_move_down m alloc cache) (cache + 32) = cache)"
proof (intro conjI impI)
  have A: "unat (cache + 24) = unat cache + 24" "unat (cache + 32) = unat cache + 32"
    "unat (q + 24) = unat q + 24" "unat (q + 32) = unat q + 32"
    "unat (alloc + 8) = unat alloc + 8" "unat (alloc + 24) = unat alloc + 24"
    using assms(1-3) by (simp_all add: unat_add_numeral)
  have ca: "rd64 (wr64 m' (alloc + 24) v) (cache + 24) = rd64 m' (cache + 24)"
    "rd64 (wr64 m' (alloc + 8) v) (cache + 32) = rd64 m' (cache + 32)" for m' v
    using assms(1,3,6) by (auto intro!: rd64_wr64_apart simp: A)
  have cq: "rd64 (wr64 m' (q + 24) v) (cache + 24) = rd64 m' (cache + 24)"
    "rd64 (wr64 m' (q + 32) v) (cache + 24) = rd64 m' (cache + 24)"
    "rd64 (wr64 m' (q + 24) v) (cache + 32) = rd64 m' (cache + 32)"
    "rd64 (wr64 m' (q + 32) v) (cache + 32) = rd64 m' (cache + 32)"
    "rd64 (wr64 m' (q + 32) v) (q + 24) = rd64 m' (q + 24)"
    "rd64 (wr64 m' (q + 24) v) (q + 32) = rd64 m' (q + 32)"
    "rd64 (wr64 m' (cache + 32) v) (cache + 24) = rd64 m' (cache + 24)"
    "rd64 (wr64 m' (cache + 24) v) (cache + 32) = rd64 m' (cache + 32)"
    "rd64 (wr64 m' (cache + 32) v) (q + 24) = rd64 m' (q + 24)"
    "rd64 (wr64 m' (cache + 24) v) (q + 32) = rd64 m' (q + 32)" for m' v
    using assms(1,2,5) by (auto intro!: rd64_wr64_apart simp: A)
  show "rd64 (slab_cache_move_up m alloc cache) (cache + 24) = cache" if "rd64 m (cache + 24) = q"
    using that assms(4) by (simp add: slab_cache_move_up_def Let_def ca cq)
  show "rd64 (slab_cache_move_down m alloc cache) (cache + 32) = cache" if "rd64 m (cache + 32) = q"
    using that assms(4) by (simp add: slab_cache_move_down_def Let_def ca cq)
qed

theorem slab_cache_moves_self_loop_witness:
  "rd64 (slab_cache_move_up (wr64 (\<lambda>_. 0) 8216 4096) 16 8192) 8216 = 8192"
  using slab_cache_moves_self_loop [of 8192 4096 16 "wr64 (\<lambda>_. 0) 8216 4096"] by simp

end
