(* ===== verification/Buddy_Init.thy ===== *)
theory Buddy_Init
  imports Buddy_Correct
begin

section \<open>Initialisation of the buddy allocator\<close>

text \<open>
  \<open>buddy_init\<close> lays the struct, the heads and the bitmap out at the start of its memory and
  leaves one free block, the whole pool. The bitmap it reserves has one bit per page where the
  layers need two, so that the initial state is the one of the abstract machine only when the number
  of pages is at most seven short of a power of two.
\<close>

subsection \<open>Fields of the struct\<close>

lemma load_buddy_same:
  assumes "unat alloc + 48 \<le> 18446744073709551616" "same_on alloc 48 m' m"
  shows "load_buddy m' alloc = load_buddy m alloc"
proof -
  have "rd64 m' y = rd64 m y" if "unat alloc \<le> unat y" "unat y + 8 \<le> unat alloc + 48" for y
    using that assms by (intro rd64_same_on) (auto simp: same_on_def in_region_def)
  moreover have "unat (alloc + 8) = unat alloc + 8" "unat (alloc + 16) = unat alloc + 16"
    "unat (alloc + 24) = unat alloc + 24" "unat (alloc + 32) = unat alloc + 32"
    "unat (alloc + 40) = unat alloc + 40"
    using assms(1) by (auto intro!: unat_add_numeral)
  ultimately show ?thesis by (simp add: load_buddy_def)
qed

lemma load_buddy_fields:
  assumes "unat alloc + 48 \<le> 18446744073709551616"
  shows "load_buddy (wr64 m alloc v) alloc = (load_buddy m alloc)\<lparr>bitmap := v\<rparr>"
    "load_buddy (wr64 m (alloc + 8) v) alloc = (load_buddy m alloc)\<lparr>freelist := v\<rparr>"
    "load_buddy (wr64 m (alloc + 16) v) alloc = (load_buddy m alloc)\<lparr>buddy_layers := v\<rparr>"
    "load_buddy (wr64 m (alloc + 24) v) alloc = (load_buddy m alloc)\<lparr>blocks_count := v\<rparr>"
    "load_buddy (wr64 m (alloc + 32) v) alloc = (load_buddy m alloc)\<lparr>root_block_size := v\<rparr>"
    "load_buddy (wr64 m (alloc + 40) v) alloc = (load_buddy m alloc)\<lparr>pool_begin := v\<rparr>"
proof -
  have "unat (alloc + 8) = unat alloc + 8" "unat (alloc + 16) = unat alloc + 16"
    "unat (alloc + 24) = unat alloc + 24" "unat (alloc + 32) = unat alloc + 32"
    "unat (alloc + 40) = unat alloc + 40"
    using assms by (auto intro!: unat_add_numeral)
  note [simp] = this and [simp] = rd64_wr64_apart
  show "load_buddy (wr64 m alloc v) alloc = (load_buddy m alloc)\<lparr>bitmap := v\<rparr>"
    "load_buddy (wr64 m (alloc + 8) v) alloc = (load_buddy m alloc)\<lparr>freelist := v\<rparr>"
    "load_buddy (wr64 m (alloc + 16) v) alloc = (load_buddy m alloc)\<lparr>buddy_layers := v\<rparr>"
    "load_buddy (wr64 m (alloc + 24) v) alloc = (load_buddy m alloc)\<lparr>blocks_count := v\<rparr>"
    "load_buddy (wr64 m (alloc + 32) v) alloc = (load_buddy m alloc)\<lparr>root_block_size := v\<rparr>"
    "load_buddy (wr64 m (alloc + 40) v) alloc = (load_buddy m alloc)\<lparr>pool_begin := v\<rparr>"
    using assms by (simp_all add: load_buddy_def)
qed

subsection \<open>Page counts in natural numbers\<close>

lemma mod_4096_eq: "n - n mod 4096 = n div 4096 * (4096 :: nat)"
  by (simp add: minus_mod_eq_div_mult)

lemma pages_count_pages:
  assumes "unat e < 9223372036854775808" "unat p div 4096 + 1 \<le> unat e div 4096"
  shows "pages_count p e = of_nat (unat e div 4096 - (unat p div 4096 + 1))"
proof -
  let ?E = "unat e div 4096" and ?P = "unat p div 4096"
  have "unat p \<le> unat e" using assms(2) div_le_mono [of "unat e" "unat p" 4096] by linarith
  then have "unat (pages_count p e) = (?E * 4096 - (?P * 4096 + 4096)) div 4096"
    using assms by (subst pages_count_eq) (simp_all add: mod_4096_eq)
  also have "?E * 4096 - (?P * 4096 + 4096) = (?E - (?P + 1)) * 4096" by (simp add: diff_mult_distrib)
  finally have "unat (pages_count p e) = ?E - (?P + 1)" by simp
  then show ?thesis by (metis of_nat_unat ucast_id)
qed

lemma update_params_eq:
  assumes "unat e < 9223372036854775808" "unat p div 4096 + 1 \<le> unat e div 4096"
    and "n = unat e div 4096 - (unat p div 4096 + 1)" "2 ^ j \<le> n" "n < 2 ^ Suc j"
    and "2 ^ (r - 1) < n" "n \<le> 2 ^ r" "0 < r"
    and "unat alloc + 48 \<le> 18446744073709551616"
  shows "buddy_update_params m alloc p e
    = Some (wr64 (wr64 (wr64 m (alloc + 24) (of_nat n)) (alloc + 32) (2 ^ j)) (alloc + 16) (of_nat r))"
proof -
  have nE: "n < 2251799813685248" using assms(1,3) by linarith
  have un: "unat (of_nat n :: u64) = n" using nE by (intro unat_of_nat64) simp
  have less51: "x < 51" if "(2::nat) ^ x \<le> n" for x
  proof -
    have "(2::nat) ^ x < 2 ^ 51" using that nE by simp
    then show ?thesis by (rule power_less_imp_less_exp [rotated]) simp
  qed
  have jr: "j < 51" "r - 1 < 51" using less51 assms(4,6) by simp_all
  have "max_lower_power_of_2 (of_nat n) = Some (2 ^ j)"
    using assms(4,5) jr by (intro max_lower_power_of_2_eq) (simp_all add: un)
  moreover have "log2_upper (of_nat n) = Some (of_nat r)"
    using assms(6,7) jr by (intro log2_upper_eq) (simp_all add: un)
  ultimately show ?thesis
    using pages_count_pages [OF assms(1,2)]
    unfolding assms(3) [symmetric] by (simp add: buddy_update_params_def Let_def load_buddy_fields [OF assms(9)])
qed

subsection \<open>The initial state\<close>

lemma rd64_memset_zero:
  assumes "unat a + n \<le> 18446744073709551616" "unat a \<le> unat x" "unat x + 8 \<le> unat a + n"
  shows "rd64 (memset m a 0 n) x = 0"
proof -
  have "rd64 (memset m a 0 n) x = rd64 (\<lambda>_. 0) x"
    using assms by (intro rd64_same_on) (auto simp: same_on_def in_region_def memset_in)
  also have "\<dots> = 0" by (simp add: rd64_def)
  finally show ?thesis .
qed

lemma bit_0xFF: "b < 8 \<Longrightarrow> bit (0xFF :: u8) b"
proof -
  assume "b < 8"
  then have "b = 0 \<or> b = 1 \<or> b = 2 \<or> b = 3 \<or> b = 4 \<or> b = 5 \<or> b = 6 \<or> b = 7" by linarith
  then show ?thesis by auto
qed

text \<open>
  The memory after the layout has been written: the heads are cleared, the bitmap is filled, the
  pool is pushed and the bit of the root is cleared.
\<close>

definition fill :: "mem \<Rightarrow> ptr \<Rightarrow> ptr \<Rightarrow> ptr \<Rightarrow> ptr \<Rightarrow> nat \<Rightarrow> nat \<Rightarrow> mem" where
  "fill m alloc fl bm pb h n =
     wr64 (buddy_unset (freelist_push (memset (memset m fl 0 h) bm 0xFF n) fl pb) bm 0 0) (alloc + 40) pb"

lemma fill_rep:
  assumes a: "load_buddy m alloc = \<lparr>bitmap = bm, freelist = fl, buddy_layers = of_nat (Suc k),
      blocks_count = bc, root_block_size = 2 ^ k, pool_begin = x0\<rparr>"
    and "alloc \<noteq> NULL" "unat alloc + 48 = unat fl" "unat fl + 8 * Suc k \<le> unat bm"
    and "2 ^ (k - 2) \<le> n" "unat bm + n \<le> unat pb" "2 \<le> k" "pool pb k (2 ^ k)" "h = 8 * Suc k"
  shows "buddy_rep (fill m alloc fl bm pb h n) alloc k init_abs"
    and "load_buddy (fill m alloc fl bm pb h n) alloc = (load_buddy m alloc)\<lparr>pool_begin := pb\<rparr>"
proof -
  let ?m6 = "memset (memset m fl 0 h) bm 0xFF n"
  let ?m7 = "freelist_push ?m6 fl pb"
  let ?m8 = "buddy_unset ?m7 bm 0 0"
  let ?M = "fill m alloc fl bm pb h n"
  have p: "unat pb + 4096 \<le> 18446744073709551616"
    using assms(8) zero_less_power [of "2::nat" k] unfolding pool_def by linarith
  have fh: "unat fl + 8 \<le> unat bm" "unat fl + h \<le> unat bm" using assms(4,9) by simp_all
  have ends: "unat alloc + 48 \<le> 18446744073709551616" "unat fl + h \<le> 18446744073709551616"
    "unat bm + n \<le> 18446744073709551616"
    using assms(3,4,6,9) p by linarith+
  have nz: "fl \<noteq> NULL" "pb \<noteq> NULL"
  proof -
    have "unat alloc \<noteq> 0" using assms(2) by (simp add: unat_eq_0)
    then have "unat fl \<noteq> 0" "unat pb \<noteq> 0" using assms(3,4,6) by linarith+
    then show "fl \<noteq> NULL" "pb \<noteq> NULL" by auto
  qed
  have c: "cell fl" "cell pb" "apart fl pb" "cell (alloc + 40)" "unat (alloc + 40) = unat alloc + 40"
  proof -
    show u: "unat (alloc + 40) = unat alloc + 40" using ends(1) by (intro unat_add_numeral) simp
    then have "alloc + 40 \<noteq> NULL" by (auto simp flip: unat_eq_0)
    then show "cell fl" "cell pb" "apart fl pb" "cell (alloc + 40)"
      using nz p ends assms(3,4,6) u by (auto simp: cell_def apart_def)
  qed
  have m7: "?m7 = wr64 (wr64 ?m6 pb (rd64 ?m6 fl)) fl pb" using c by (simp add: freelist_push_eq)
  obtain v where m8: "?m8 = ?m7(bm := v)"
    by (simp add: buddy_unset_def mask_index_def Let_def)
  have M: "?M = wr64 (?m7(bm := v)) (alloc + 40) pb" unfolding fill_def m8 ..
  have "same_on alloc 48 (?m7(bm := v)) m"
    unfolding same_on_def m7 using c assms(3-6,9) ends p
    by (auto simp: in_region_def wr64_out memset_out cell_def)
  then have "load_buddy (?m7(bm := v)) alloc = load_buddy m alloc"
    using ends(1) by (intro load_buddy_same) simp_all
  then show ld: "load_buddy ?M alloc = (load_buddy m alloc)\<lparr>pool_begin := pb\<rparr>"
    unfolding M by (simp add: load_buddy_fields(6) [OF ends(1)])
  have lay: "buddy_layout ?M alloc k"
    using assms(2-8) by (simp add: buddy_layout_def ld a Let_def)
  have hc: "unat (head_cell ?M alloc (of_nat l)) = unat fl + 8 * l" if "l \<le> k" for l
    using unat_head_cell [OF lay that] by (simp add: ld a)
  have h0: "head_cell ?M alloc (of_nat 0) = fl" by (simp add: head_cell_def ld a)
  have zero: "rd64 ?m6 x = 0" if "unat fl \<le> unat x" "unat x + 8 \<le> unat fl + h" for x
  proof -
    have "rd64 ?m6 x = rd64 (memset m fl 0 h) x"
      using that assms(4,9) ends by (intro rd64_same_on) (auto simp: same_on_def in_region_def memset_out)
    then show ?thesis using that ends by (simp add: rd64_memset_zero)
  qed
  have out: "rd64 ?M x = rd64 ?m7 x" if "unat fl \<le> unat x" "unat x + 8 \<le> unat bm \<or> unat bm < unat x"
    "unat x + 8 \<le> 18446744073709551616" for x
    using that assms(3) c ends unfolding M
    by (auto simp: rd64_wr64_apart rd64_upd_apart in_region_def)
  have heads: "rd64 ?M (head_cell ?M alloc (of_nat l)) = (if l = 0 then pb else 0)" if "l \<le> k" for l
  proof -
    let ?h = "head_cell ?M alloc (of_nat l)"
    have hb: "unat ?h + 8 \<le> unat bm" using hc [OF that] assms(4) that by simp
    then have "rd64 ?M ?h = rd64 ?m7 ?h" using hc [OF that] ends(3) by (intro out) auto
    moreover have "rd64 ?m7 ?h = rd64 ?m6 ?h" if "l \<noteq> 0"
      unfolding m7 using c hc [OF \<open>l \<le> k\<close>] that hb assms(6) ends
      by (simp add: rd64_wr64_apart cell_def)
    moreover have "rd64 ?m6 ?h = 0" using hc [OF that] that assms(9) by (intro zero) auto
    moreover have "l = 0 \<Longrightarrow> rd64 ?m7 ?h = pb" using h0 by (simp add: m7)
    ultimately show ?thesis by simp
  qed
  have bp: "bptr ?M alloc 0 0 = pb" by (simp add: bptr_def to_pointer_def ld)
  have node: "rd64 ?M pb = 0"
  proof -
    have "(0::nat) < 2 ^ (k - 2)" by simp
    then have "unat bm < unat pb" using assms(5,6) by linarith
    then have "rd64 ?M pb = rd64 ?m7 pb" using assms(4) p by (intro out) auto
    also have "\<dots> = rd64 ?m6 fl" using c by (simp add: m7 rd64_wr64_cells)
    also have "\<dots> = 0" using assms(9) by (intro zero) auto
    finally show ?thesis .
  qed
  have "chain ?M (rd64 ?M (head_cell ?M alloc (of_nat l))) (map (bptr ?M alloc l) (free_of init_abs l))"
    if "l \<le> k" for l
    using nz(2) node by (simp add: heads [OF that] init_abs_def bp)
  then have inv: "buddy_inv ?M alloc k (free_of init_abs)"
    using lay tree_inv_free_ok [OF tree_inv_init] by (simp add: buddy_inv_def)
  have bits: "buddy_get ?M bm (of_nat l) (of_nat i) \<longleftrightarrow> (l, i) \<noteq> (0, 0)" if li: "l \<le> k" "i < 2 ^ l" for l i
  proof -
    have l60: "l < 60" using layoutD(7) [OF lay] li(1) by simp
    have ba: "unat bm \<le> unat (bm + mask_index (of_nat l) (of_nat i))"
      "unat (bm + mask_index (of_nat l) (of_nat i)) < unat bm + n"
      using bit_address [OF lay li] assms(5) by (simp_all add: ld a)
    have "?m7 (bm + mask_index (of_nat l) (of_nat i)) = 0xFF"
      unfolding m7 using ba assms(4,6) fh c ends p by (simp add: wr64_out in_region_def memset_in cell_def)
    then have "buddy_get ?m7 bm (of_nat l) (of_nat i)"
      using bit_0xFF l60 li(2)
      by (simp add: buddy_get_bitn bitn_def mask_index_of_nat)
    moreover have "buddy_get ?M bm (of_nat l) (of_nat i) = buddy_get ?m8 bm (of_nat l) (of_nat i)"
      unfolding fill_def buddy_get_def using ba assms(3,4) c(4,5) ends
      by (subst wr64_out) (auto simp: in_region_def)
    ultimately show ?thesis using buddy_get_unset [of 0 0 l i ?m7 bm] l60 li(2) by auto
  qed
  then show "buddy_rep ?M alloc k init_abs"
    using inv bits unfolding buddy_rep_def by (auto simp: ld a init_abs_def)
qed

text \<open>
  The arithmetic of the layout: \<open>n1\<close> pages after the struct with \<open>k1\<close> layers decide where the
  bitmap and the pool begin, \<open>n2\<close> pages are left for the pool, which gets \<open>2 ^ k\<close> of them.
\<close>

definition init_layout :: "ptr \<Rightarrow> ptr \<Rightarrow> nat \<Rightarrow> nat \<Rightarrow> nat \<Rightarrow> nat \<Rightarrow> nat \<Rightarrow> bool" where
  "init_layout b e n1 k1 f n2 k \<longleftrightarrow>
     b \<noteq> NULL \<and> unat e < 9223372036854775808 \<and>
     (unat b + 48) div 4096 + 1 + n1 = unat e div 4096 \<and>
     2 ^ (k1 - 1) < n1 \<and> n1 \<le> 2 ^ k1 \<and>
     f = (unat b + 48 + 8 * k1 + (n1 + 7) div 8) div 4096 + 1 \<and>
     f + 1 + n2 = unat e div 4096 \<and>
     2 ^ k < n2 \<and> n2 < 2 ^ (k + 1) \<and> 4 \<le> k"

definition init_freelist :: "ptr \<Rightarrow> ptr" where "init_freelist b = b + 48"

definition init_bitmap :: "ptr \<Rightarrow> nat \<Rightarrow> ptr" where "init_bitmap b k1 = b + 48 + of_nat (8 * k1)"

lemma init_layoutD:
  assumes "init_layout b e n1 k1 f n2 k"
  shows "b \<noteq> NULL" "unat e < 9223372036854775808" "(unat b + 48) div 4096 + 1 + n1 = unat e div 4096"
    "2 ^ (k1 - 1) < n1" "n1 \<le> 2 ^ k1"
    "f = (unat b + 48 + 8 * k1 + (n1 + 7) div 8) div 4096 + 1" "f + 1 + n2 = unat e div 4096"
    "2 ^ k < n2" "n2 < 2 ^ Suc k" "4 \<le> k"
  using assms by (simp_all add: init_layout_def)

lemma below_next_page: "n < (n div 4096 + 1) * (4096 :: nat)"
proof -
  have "n mod 4096 < 4096" by simp
  moreover have "n div 4096 * 4096 + n mod 4096 = n" by (rule div_mult_mod_eq)
  ultimately show ?thesis unfolding distrib_right mult_1 by linarith
qed

lemma init_layout_facts:
  assumes "init_layout b e n1 k1 f n2 k"
  shows "n2 < n1" "k < k1" "k1 < 52" "k < 51" "16 \<le> n2"
    "unat b + 48 + 8 * k1 + (n1 + 7) div 8 < f * 4096" "f * 4096 + n2 * 4096 < 9223372036854775808"
    "(n2 + 7) div 8 \<le> (n1 + 7) div 8"
proof -
  note A = init_layoutD [OF assms]
  have "(unat b + 48) div 4096 \<le> (unat b + 48 + 8 * k1 + (n1 + 7) div 8) div 4096" by (intro div_le_mono) simp
  then show n: "n2 < n1" using A(3,6,7) by linarith
  then show "(n2 + 7) div 8 \<le> (n1 + 7) div 8" by (intro div_le_mono) simp
  have "(2::nat) ^ k < 2 ^ k1" using n A(5,8) by linarith
  then show kk: "k < k1" by (rule power_less_imp_less_exp [rotated]) simp
  have nE: "n1 < 2251799813685248" using A(2,3) by linarith
  have less51: "x < 51" if "(2::nat) ^ x \<le> n1" for x
  proof -
    have "(2::nat) ^ x < 2 ^ 51" using that nE by simp
    then show ?thesis by (rule power_less_imp_less_exp [rotated]) simp
  qed
  have "k1 - 1 < 51" using A(4) by (intro less51) simp
  then show "k1 < 52" by simp
  show "k < 51" using A(8) n by (intro less51) simp
  have "(2::nat) ^ 4 \<le> 2 ^ k" using A(10) by (intro power_increasing) auto
  then show "16 \<le> n2" using A(8) by simp
  show "unat b + 48 + 8 * k1 + (n1 + 7) div 8 < f * 4096" unfolding A(6)
    by (rule below_next_page)
  have "(f + n2) * 4096 < unat e div 4096 * 4096" using A(7) by simp
  also have "\<dots> \<le> unat e" by simp
  finally show "f * 4096 + n2 * 4096 < 9223372036854775808" using A(2) by (simp add: algebra_simps)
qed

lemma init_addresses:
  assumes "init_layout b e n1 k1 f n2 k"
  shows "unat (init_freelist b) = unat b + 48" "unat (init_bitmap b k1) = unat b + 48 + 8 * k1"
    "unat (init_bitmap b k1 + buddy_bitmap_size (of_nat n1)) = unat b + 48 + 8 * k1 + (n1 + 7) div 8"
    "align_addr_to_page_size_up (init_bitmap b k1 + buddy_bitmap_size (of_nat n1)) = of_nat (f * 4096)"
    "unat (of_nat (f * 4096) :: u64) = f * 4096" "unat (buddy_bitmap_size (of_nat n)) = (n + 7) div 8 \<or> \<not> n \<le> n1"
proof -
  note F = init_layout_facts [OF assms] and A = init_layoutD [OF assms]
  have n1: "n1 < 2251799813685248" using A(2,3) by linarith
  have bs: "unat (buddy_bitmap_size (of_nat n)) = (n + 7) div 8" if "n \<le> n1" for n
  proof -
    have "unat (of_nat n + 7 :: u64) = n + 7"
      using that n1 by (subst unat_add_numeral) (simp_all add: unat_of_nat64)
    then show ?thesis by (simp add: buddy_bitmap_size_def unat_div)
  qed
  then show "unat (buddy_bitmap_size (of_nat n)) = (n + 7) div 8 \<or> \<not> n \<le> n1" by blast
  show fl: "unat (init_freelist b) = unat b + 48"
    unfolding init_freelist_def using F(6,7) by (intro unat_add_numeral) linarith
  show bm: "unat (init_bitmap b k1) = unat b + 48 + 8 * k1"
    using fl F(6,7) unfolding init_bitmap_def init_freelist_def by (subst unat_add_of_nat) simp_all
  show b3: "unat (init_bitmap b k1 + buddy_bitmap_size (of_nat n1)) = unat b + 48 + 8 * k1 + (n1 + 7) div 8"
    using F(6,7) by (subst unat_add64) (simp_all add: bm bs)
  show f: "unat (of_nat (f * 4096) :: u64) = f * 4096" using F(7) by (intro unat_of_nat64) linarith
  have "unat (align_addr_to_page_size_up (init_bitmap b k1 + buddy_bitmap_size (of_nat n1))) = f * 4096"
  proof (subst unat_align_up)
    show "unat (init_bitmap b k1 + buddy_bitmap_size (of_nat n1)) < 18446744073709547520"
      unfolding b3 using F(6,7) by linarith
    show "unat (init_bitmap b k1 + buddy_bitmap_size (of_nat n1))
        - unat (init_bitmap b k1 + buddy_bitmap_size (of_nat n1)) mod 4096 + 4096 = f * 4096"
      unfolding b3 mod_4096_eq A(6) by simp
  qed
  then show "align_addr_to_page_size_up (init_bitmap b k1 + buddy_bitmap_size (of_nat n1)) = of_nat (f * 4096)"
    unfolding u64_eq_iff f .
qed

lemma layers_size: "k < 51 \<Longrightarrow> unat (of_nat (Suc k) * sizeof_freelist_t) = 8 * Suc k"
proof -
  assume "k < 51"
  then have "unat (of_nat (8 * Suc k) :: u64) = 8 * Suc k" by (intro unat_of_nat64) simp
  moreover have "of_nat (Suc k) * sizeof_freelist_t = of_nat (8 * Suc k)"
    by (simp add: sizeof_freelist_t_def algebra_simps)
  ultimately show ?thesis by simp
qed

text \<open>The result of \<open>buddy_init\<close> for every such layout.\<close>

lemma buddy_init_eq:
  assumes "init_layout b e n1 k1 f n2 k"
  obtains m4 where
    "buddy_init m b e = Some (b, fill m4 b (init_freelist b) (init_bitmap b k1) (of_nat (f * 4096)) (8 * Suc k) ((n2 + 7) div 8))"
    "\<And>x. unat b + 48 \<le> unat x \<Longrightarrow> m4 x = m x"
    "load_buddy m4 b = \<lparr>bitmap = init_bitmap b k1, freelist = init_freelist b, buddy_layers = of_nat (Suc k),
       blocks_count = of_nat n2, root_block_size = 2 ^ k, pool_begin = pool_begin (load_buddy m b)\<rparr>"
proof -
  note F = init_layout_facts [OF assms] and A = init_layoutD [OF assms] and N = init_addresses [OF assms]
  have b48: "unat b + 48 \<le> 18446744073709551616" using F(6,7) by linarith
  note L = load_buddy_fields [OF b48]
  let ?fl = "init_freelist b" and ?bm = "init_bitmap b k1" and ?pb = "of_nat (f * 4096) :: u64"
  obtain j1 where j1: "2 ^ j1 \<le> n1" "n1 < 2 ^ Suc j1" using power_bracket [of n1] F(1,5) by auto
  define m1 where "m1 = wr64 (wr64 (wr64 m (b + 24) (of_nat n1)) (b + 32) (2 ^ j1)) (b + 16) (of_nat k1)"
  have p1: "buddy_update_params m b ?fl e = Some m1"
    unfolding m1_def
  proof (rule update_params_eq [OF A(2) _ _ j1 A(4,5) _ b48], unfold N(1))
    show "(unat b + 48) div 4096 + 1 \<le> unat e div 4096" "n1 = unat e div 4096 - ((unat b + 48) div 4096 + 1)"
      using A(3) by linarith+
    show "0 < k1" using F(2) by simp
  qed
  define m3 where "m3 = wr64 (wr64 m1 (b + 8) ?fl) b ?bm"
  let ?e = "align_addr_to_page_size_down e"
  have e: "unat ?e = unat e div 4096 * 4096" by (simp add: unat_align_down mod_4096_eq)
  define m4 where "m4 = wr64 (wr64 (wr64 m3 (b + 24) (of_nat n2)) (b + 32) (2 ^ k)) (b + 16) (of_nat (Suc k))"
  have p2: "buddy_update_params m3 b ?pb ?e = Some m4"
    unfolding m4_def
  proof (rule update_params_eq [OF _ _ _ less_imp_le [OF A(8)] A(9) _ _ _ b48], unfold N(5) e)
    show "unat e div 4096 * 4096 < 9223372036854775808"
      using A(2) div_times_less_eq_dividend [of "unat e" 4096] by linarith
    show "f * 4096 div 4096 + 1 \<le> unat e div 4096 * 4096 div 4096"
      "n2 = unat e div 4096 * 4096 div 4096 - (f * 4096 div 4096 + 1)" using A(7) by simp_all
    show "2 ^ (Suc k - 1) < n2" "n2 \<le> 2 ^ Suc k" "0 < Suc k" using A(8,9) by simp_all
  qed
  have ld4: "load_buddy m4 b = \<lparr>bitmap = ?bm, freelist = ?fl, buddy_layers = of_nat (Suc k),
       blocks_count = of_nat n2, root_block_size = 2 ^ k, pool_begin = pool_begin (load_buddy m b)\<rparr>"
    by (simp add: m4_def m3_def m1_def L)
  have out4: "m4 x = m x" if "unat b + 48 \<le> unat x" for x
  proof -
    have "unat (b + 8) = unat b + 8" "unat (b + 16) = unat b + 16" "unat (b + 24) = unat b + 24"
      "unat (b + 32) = unat b + 32" using b48 by (auto intro!: unat_add_numeral)
    then show ?thesis using that b48 by (simp add: m4_def m3_def m1_def wr64_out in_region_def)
  qed
  define h where "h = 8 * Suc k"
  define s where "s = (n2 + 7) div 8"
  have h: "unat (of_nat (Suc k) * sizeof_freelist_t) = h" unfolding h_def by (rule layers_size [OF F(4)])
  have s: "unat (buddy_bitmap_size (of_nat n2)) = s" using N(6) [of n2] F(1) by (simp add: s_def)
  have hs: "unat ?fl + h \<le> unat ?bm" "unat ?bm + s < unat ?pb"
    unfolding N(1,2,5) h_def s_def using Suc_leI [OF F(2)] F(6,8) by simp_all
  let ?m5 = "memset m4 ?fl 0 h" and ?m6 = "memset (memset m4 ?fl 0 h) ?bm 0xFF s"
  let ?m7 = "freelist_push ?m6 ?fl ?pb"
  have pb: "unat ?pb + 8 \<le> 18446744073709551616" using F(5,7) by (simp only: N(5))
  have nz: "?fl \<noteq> NULL" "?pb \<noteq> NULL" using hs(2) N(1) by (auto simp flip: unat_eq_0)
  have l5: "load_buddy ?m5 b = load_buddy m4 b"
    using hs pb N(1) by (intro load_buddy_same [OF b48]) (auto simp: same_on_def in_region_def memset_out)
  have l6: "load_buddy ?m6 b = load_buddy m4 b"
    using hs pb N(1) l5 by (subst load_buddy_same [OF b48, of _ ?m5]) (auto simp: same_on_def in_region_def memset_out)
  have c: "cell ?fl" "cell ?pb" using nz pb hs by (simp_all add: cell_def)
  have l7: "load_buddy ?m7 b = load_buddy m4 b"
    using c hs N(1) l6 by (simp add: freelist_push_eq load_buddy_wr64)
  have enough: "\<not> pages_count b e < 16"
  proof -
    have le: "unat b div 4096 \<le> (unat b + 48) div 4096" by (intro div_le_mono) simp
    have "pages_count b e = of_nat (unat e div 4096 - (unat b div 4096 + 1))"
      using A(2,3) le F(1,5) by (intro pages_count_pages) linarith+
    moreover have "16 \<le> unat e div 4096 - (unat b div 4096 + 1)" using A(3) le F(1,5) by linarith
    ultimately show ?thesis using A(2)
      by (simp add: word_less_nat_alt unat_of_nat64 del: of_nat_diff)
  qed
  have e1: "b + sizeof_buddy_alloc_t = ?fl" by (simp add: init_freelist_def sizeof_buddy_alloc_t_def)
  have e2: "?fl + buddy_layers (load_buddy (wr64 m1 (b + 8) ?fl) b) * sizeof_freelist_t = ?bm"
    by (simp add: m1_def L init_bitmap_def init_freelist_def sizeof_freelist_t_def mult.commute)
  have e3: "blocks_count (load_buddy m3 b) = of_nat n1" by (simp add: m3_def m1_def L)
  have hd: "head_cell ?m6 b 0 = ?fl" by (simp add: head_cell_def l6 ld4)
  have "buddy_init m b e = Some (b, fill m4 b ?fl ?bm ?pb h s)"
    unfolding buddy_init_def Let_def using enough
    by (simp only: if_False e1 p1 option.case e2 m3_def [symmetric] e3 N(4) p2 ld4 buddy_alloc_t.simps
        h l5 s hd l7 fill_def)
  then show ?thesis using that out4 ld4 unfolding h_def s_def by blast
qed

lemma buddy_init_rep:
  assumes "init_layout b e n1 k1 f n2 k" "2 ^ (k + 1) - 8 < n2"
  shows "\<exists>m'. buddy_init m b e = Some (b, m') \<and> buddy_rep m' b k init_abs
    \<and> pool_begin (load_buddy m' b) = of_nat (f * 4096) \<and> blocks_count (load_buddy m' b) = of_nat n2"
proof -
  note F = init_layout_facts [OF assms(1)] and A = init_layoutD [OF assms(1)] and N = init_addresses [OF assms(1)]
  obtain m4 where m4: "buddy_init m b e = Some (b, fill m4 b (init_freelist b) (init_bitmap b k1) (of_nat (f * 4096)) (8 * Suc k) ((n2 + 7) div 8))"
    "load_buddy m4 b = \<lparr>bitmap = init_bitmap b k1, freelist = init_freelist b, buddy_layers = of_nat (Suc k),
       blocks_count = of_nat n2, root_block_size = 2 ^ k, pool_begin = pool_begin (load_buddy m b)\<rparr>"
    by (rule buddy_init_eq [OF assms(1)])
  obtain j where k: "k = j + 2" using A(10) by (metis add.commute le_add_diff_inverse le_trans numeral_le_iff semiring_norm(68,71,72))
  have "(2::nat) ^ (k + 1) = 8 * 2 ^ j" by (simp add: k)
  then have big: "2 ^ (k - 2) \<le> (n2 + 7) div 8" using assms(2) by (simp add: k less_eq_div_iff_mult_less_eq)
  have root: "unat (2 ^ k :: u64) = 2 ^ k" using F(4) by (intro unat_two_power) simp
  have pl: "pool (of_nat (f * 4096)) k (2 ^ k)"
    unfolding pool_def root N(5) using F(4,7) A(8) by simp
  have bmn: "unat (init_bitmap b k1) + (n2 + 7) div 8 \<le> unat (of_nat (f * 4096) :: u64)"
    using F(6,8) by (simp only: N(2,5))
  have heads: "unat (init_freelist b) + 8 * Suc k \<le> unat (init_bitmap b k1)"
    unfolding N(1,2) using Suc_leI [OF F(2)] by simp
  note R = fill_rep [OF m4(2) A(1) N(1) [symmetric] heads big bmn _ pl refl]
  have "2 \<le> k" using A(10) by simp
  from R [OF this] show ?thesis using m4(1) by (auto simp: m4(2))
qed

text \<open>
  C17: \<open>buddy_init\<close> on a region whose pool has at most seven pages less than a power of two
  succeeds and sets up an allocator in its initial state, with the whole pool free, from which every
  state the other properties speak of is reached.
\<close>

theorem buddy_init_correct:
  assumes "init_layout b e n1 k1 f n2 k" "2 ^ (k + 1) - 8 < n2" "k \<le> 31"
  shows "\<exists>m'. buddy_init m b e = Some (b, m') \<and> buddy_reach b k m' {}
    \<and> pool_begin (load_buddy m' b) = of_nat (f * 4096) \<and> blocks_count (load_buddy m' b) = of_nat n2"
  using buddy_init_rep [OF assms(1,2), of m] assms(3) buddy_reach.start by blast

theorem buddy_init_correct_witness:
  "\<exists>m'. buddy_init (\<lambda>_. 0) 4096 139264 = Some (4096, m') \<and> buddy_reach 4096 4 m' {}
    \<and> pool_begin (load_buddy m' 4096) = 8192 \<and> blocks_count (load_buddy m' 4096) = 31"
  using buddy_init_correct [of 4096 139264 32 5 2 31 4 "\<lambda>_. 0"] by (simp add: init_layout_def)

text \<open>
  For every other size the bitmap is too short: the bits of all blocks whose number is at least
  eight times the reserved bytes are never written by \<open>buddy_init\<close>, and hold whatever the memory
  held before, as far as they lie before the pool.
\<close>

theorem buddy_init_bitmap_short:
  assumes "init_layout b e n1 k1 f n2 k" "i < 2 ^ k" "8 * ((n2 + 7) div 8) \<le> 2 ^ k + i"
    and "unat b + 48 + 8 * k1 + (2 ^ k + i) div 8 < f * 4096"
  shows "\<exists>m'. buddy_init m b e = Some (b, m') \<and> bitmap (load_buddy m' b) = init_bitmap b k1
    \<and> buddy_get m' (init_bitmap b k1) (of_nat k) (of_nat i) = buddy_get m (init_bitmap b k1) (of_nat k) (of_nat i)"
proof -
  note F = init_layout_facts [OF assms(1)] and A = init_layoutD [OF assms(1)] and N = init_addresses [OF assms(1)]
  let ?fl = "init_freelist b" and ?bm = "init_bitmap b k1" and ?pb = "of_nat (f * 4096) :: u64"
  obtain m4 where m4: "buddy_init m b e = Some (b, fill m4 b ?fl ?bm ?pb (8 * Suc k) ((n2 + 7) div 8))"
    "\<And>x. unat b + 48 \<le> unat x \<Longrightarrow> m4 x = m x"
    "load_buddy m4 b = \<lparr>bitmap = ?bm, freelist = ?fl, buddy_layers = of_nat (Suc k),
       blocks_count = of_nat n2, root_block_size = 2 ^ k, pool_begin = pool_begin (load_buddy m b)\<rparr>"
    by (rule buddy_init_eq [OF assms(1), of m]) blast
  define x where "x = ?bm + mask_index (of_nat k) (of_nat i)"
  have "k < 60" using F(4) by simp
  then have mi: "unat (mask_index (of_nat k) (of_nat i)) = (2 ^ k + i) div 8" using assms(2) by (rule unat_mask_index)
  have x: "unat x = unat b + 48 + 8 * k1 + (2 ^ k + i) div 8"
    unfolding x_def using assms(4) F(7) by (subst unat_add64) (simp_all add: mi N(2))
  have ge: "(n2 + 7) div 8 \<le> (2 ^ k + i) div 8" using assms(3) by (simp add: less_eq_div_iff_mult_less_eq)
  have "2 \<le> (n2 + 7) div 8" using F(5) by simp
  define h where "h = 8 * Suc k"
  define s where "s = (n2 + 7) div 8"
  have hs: "h \<le> 8 * k1" "s \<le> (2 ^ k + i) div 8" "2 \<le> s" "8 \<le> h" using F(2,5) ge by (auto simp: h_def s_def)
  have b40: "unat (b + 40) = unat b + 40" using F(6,7) by (intro unat_add_numeral) linarith
  have nz: "?fl \<noteq> NULL" "?pb \<noteq> NULL" using N(1,5) F(6) by (auto simp flip: unat_eq_0)
  have c: "cell ?fl" "cell ?pb" using nz F(5-7) N(1,5) by (simp_all add: cell_def)
  have M: "fill m4 b ?fl ?bm ?pb h s x = m x" and ld: "bitmap (load_buddy (fill m4 b ?fl ?bm ?pb h s) b) = ?bm"
  proof -
    let ?m6 = "memset (memset m4 ?fl 0 h) ?bm 0xFF s"
    let ?m7 = "wr64 (wr64 ?m6 ?pb (rd64 ?m6 ?fl)) ?fl ?pb"
    obtain v where v: "buddy_unset ?m7 ?bm 0 0 = ?m7(?bm := v)"
      by (simp add: buddy_unset_def mask_index_def Let_def)
    have e: "fill m4 b ?fl ?bm ?pb h s = wr64 (?m7(?bm := v)) (b + 40) ?pb"
      unfolding fill_def freelist_push_eq [OF c] v ..
    have fl: "unat ?pb + 8 \<le> 18446744073709551616" "unat ?fl + h \<le> 18446744073709551616"
      "unat ?bm + s \<le> 18446744073709551616" unfolding N(1,2,5) using hs F(5,6,7) assms(4) by linarith+
    have "?m7 x = m x"
      using x hs F(6,7) assms(4) N(1,2,5) fl m4(2) [of x]
      by (simp add: wr64_out memset_out in_region_def)
    moreover have "x \<noteq> ?bm" using x hs N(2) by auto
    ultimately show "fill m4 b ?fl ?bm ?pb h s x = m x"
      unfolding e using x b40 F(6,7) by (simp add: wr64_out in_region_def)
    have b48: "unat b + 48 \<le> 18446744073709551616" using F(6,7) by linarith
    have "same_on b 48 (?m7(?bm := v)) m4"
      unfolding same_on_def using fl N(1,2,5) F(6) hs
      by (auto simp: wr64_out memset_out in_region_def)
    then have "load_buddy (?m7(?bm := v)) b = load_buddy m4 b" by (rule load_buddy_same [OF b48])
    then show "bitmap (load_buddy (fill m4 b ?fl ?bm ?pb h s) b) = ?bm"
      unfolding e by (simp add: load_buddy_fields(6) [OF b48] m4(3))
  qed
  then show ?thesis
    using m4(1) unfolding h_def [symmetric] s_def [symmetric] by (auto simp: buddy_get_def x_def)
qed

theorem buddy_init_bitmap_short_witness:
  "\<exists>m'. buddy_init (\<lambda>_. 0) 4096 94208 = Some (4096, m') \<and> bitmap (load_buddy m' 4096) = init_bitmap 4096 5
    \<and> buddy_get m' (init_bitmap 4096 5) 4 8 = buddy_get (\<lambda>_. 0) (init_bitmap 4096 5) 4 8"
  using buddy_init_bitmap_short [of 4096 94208 21 5 2 20 4 8 "\<lambda>_. 0"] by (simp add: init_layout_def)

end
