(* ===== verification/Slab_Destroy.thy ===== *)
theory Slab_Destroy
  imports Slab_Props Buddy_Init
begin

section \<open>Destroying a slab with more than one cache\<close>

text \<open>
  What \<open>buddy_free\<close> may write whatever the bits of the allocator are, and its consequence for
  \<open>slab_destroy\<close>: the second cache keeps its \<open>prev_cache\<close>, so that \<open>first_cache\<close> never
  becomes \<open>NULL\<close> and the loop releases the second cache for ever.
\<close>

subsection \<open>The footprint of a release\<close>

definition bitmap_only :: "mem \<Rightarrow> mem \<Rightarrow> ptr \<Rightarrow> nat \<Rightarrow> bool" where
  "bitmap_only m m' alloc k \<longleftrightarrow>
     load_buddy m' alloc = load_buddy m alloc \<and>
     (\<forall>x. \<not> (unat (bitmap (load_buddy m alloc)) \<le> unat x
              \<and> unat x < unat (bitmap (load_buddy m alloc)) + 2 ^ (k - 2)) \<longrightarrow> m' x = m x)"

lemma bitmap_only_refl: "bitmap_only m m alloc k"
  by (simp add: bitmap_only_def)

lemma bitmap_only_trans:
  assumes "bitmap_only m m' alloc k" "bitmap_only m' m'' alloc k"
  shows "bitmap_only m m'' alloc k"
proof -
  have ld: "load_buddy m' alloc = load_buddy m alloc" using assms(1) by (simp only: bitmap_only_def)
  show ?thesis using assms unfolding bitmap_only_def ld by metis
qed

lemma bitmap_only_layout: "bitmap_only m m' alloc k \<Longrightarrow> buddy_layout m alloc k \<Longrightarrow> buddy_layout m' alloc k"
  unfolding bitmap_only_def using layout_cong by blast

lemma bit_write_only:
  assumes "buddy_layout m alloc k" "l \<le> k" "i < 2 ^ l"
  shows "bitmap_only m (buddy_set m (bitmap (load_buddy m alloc)) (of_nat l) (of_nat i)) alloc k"
    and "bitmap_only m (buddy_unset m (bitmap (load_buddy m alloc)) (of_nat l) (of_nat i)) alloc k"
proof -
  let ?x = "bitmap (load_buddy m alloc) + mask_index (of_nat l) (of_nat i)"
  have "bitmap_only m (m(?x := c)) alloc k" for c
    using bit_address [OF assms] layoutD(3,4) [OF assms(1)] load_buddy_upd [of alloc ?x m c]
    by (auto simp: bitmap_only_def)
  then show "bitmap_only m (buddy_set m (bitmap (load_buddy m alloc)) (of_nat l) (of_nat i)) alloc k"
    and "bitmap_only m (buddy_unset m (bitmap (load_buddy m alloc)) (of_nat l) (of_nat i)) alloc k"
    by (simp_all add: buddy_set_def buddy_unset_def Let_def)
qed

lemma climb_loop_valid:
  "i < 2 ^ l \<Longrightarrow> \<exists>l' i'. climb_loop m alloc (int l) (int i) = (int l', int i') \<and> l' \<le> l \<and> i' < 2 ^ l'"
proof (induction l arbitrary: i)
  case 0
  then show ?case by (subst climb_loop.simps) auto
next
  case (Suc l)
  have h: "int i sdiv 2 = int (i div 2)" using int_sdiv_int [of i 2] by simp
  obtain l' i' where "climb_loop m alloc (int l) (int (i div 2)) = (int l', int i')" "l' \<le> l" "i' < 2 ^ l'"
    using Suc.IH [OF half_less [OF Suc.prems]] by blast
  then show ?case
    using Suc.prems by (subst climb_loop.simps) (auto simp: h simp del: of_nat_div intro: exI [of _ "Suc l"])
qed

lemma merge_loop_valid:
  "buddy_layout m alloc k \<Longrightarrow> l \<le> k \<Longrightarrow> i < 2 ^ l \<Longrightarrow>
     \<exists>m' l' i'. merge_loop m alloc (int l) (int i) = (m', int l', int i') \<and> l' \<le> l \<and> i' < 2 ^ l'
       \<and> bitmap_only m m' alloc k"
proof (induction l arbitrary: m i)
  case 0
  then show ?case by (subst merge_loop.simps) (auto intro: bitmap_only_refl)
next
  case (Suc l)
  have lk: "l \<le> k" using Suc.prems(2) by simp
  have x: "i XOR 1 < 2 ^ Suc l" using Suc.prems(3) by (rule bb.xor_one_less)
  have h: "int i sdiv 2 = int (i div 2)" using int_sdiv_int [of i 2] by simp
  define m1 where "m1 = buddy_set m (bitmap (load_buddy m alloc)) (of_nat (Suc l)) (of_nat i)"
  define m2 where "m2 = buddy_set m1 (bitmap (load_buddy m1 alloc)) (of_nat (Suc l)) (of_nat (i XOR 1))"
  define m3 where "m3 = buddy_unset m2 (bitmap (load_buddy m2 alloc)) (of_nat l) (of_nat (i div 2))"
  have b1: "bitmap_only m m1 alloc k" unfolding m1_def by (rule bit_write_only(1) [OF Suc.prems])
  note l1 = bitmap_only_layout [OF b1 Suc.prems(1)]
  have b2: "bitmap_only m1 m2 alloc k" unfolding m2_def by (rule bit_write_only(1) [OF l1 Suc.prems(2) x])
  note l2 = bitmap_only_layout [OF b2 l1]
  have b3: "bitmap_only m2 m3 alloc k" unfolding m3_def by (rule bit_write_only(2) [OF l2 lk half_less [OF Suc.prems(3)]])
  note l3 = bitmap_only_layout [OF b3 l2]
  show ?case
  proof (cases "buddy_get m (bitmap (load_buddy m alloc)) (size_of_int (int (Suc l))) (size_of_int (int i XOR 1))")
    case True
    then show ?thesis using Suc.prems(3)
      by (subst merge_loop.simps) (auto intro!: exI [of _ "Suc l"] bitmap_only_refl)
  next
    case False
    obtain m' l' i' where r: "merge_loop m3 alloc (int l) (int (i div 2)) = (m', int l', int i')" "l' \<le> l"
      "i' < 2 ^ l'" "bitmap_only m3 m' alloc k"
      using Suc.IH [OF l3 lk half_less [OF Suc.prems(3)]] by blast
    have "merge_loop m alloc (int (Suc l)) (int i) = merge_loop m3 alloc (int l) (int (i div 2))"
      using False
      by (subst merge_loop.simps)
         (simp add: Let_def h int_xor_one size_of_int_small m3_def m2_def m1_def del: of_nat_Suc of_nat_div,
          simp add: size_of_int_small)
    then show ?thesis
      using r bitmap_only_trans [OF bitmap_only_trans [OF bitmap_only_trans [OF b1 b2] b3] r(4)]
      by (metis le_SucI)
  qed
qed

text \<open>
  A cell outside the allocator, or inside a page of the pool but behind its first eight bytes, is not
  written by any release.
\<close>

definition quiet :: "mem \<Rightarrow> ptr \<Rightarrow> nat \<Rightarrow> ptr \<Rightarrow> bool" where
  "quiet m alloc k x \<longleftrightarrow>
     unat x < unat alloc
     \<or> unat (pool_begin (load_buddy m alloc)) + 2 ^ k * 4096 \<le> unat x
     \<or> unat (pool_begin (load_buddy m alloc)) \<le> unat x
       \<and> 8 \<le> (unat x - unat (pool_begin (load_buddy m alloc))) mod 4096"

lemma quiet_push:
  assumes "buddy_layout m alloc k" "l \<le> k" "i < 2 ^ l" "quiet m alloc k x"
  shows "freelist_push m (head_cell m alloc (of_nat l)) (bptr m alloc l i) x = m x"
    and "load_buddy (freelist_push m (head_cell m alloc (of_nat l)) (bptr m alloc l i)) alloc = load_buddy m alloc"
proof -
  let ?L = "head_cell m alloc (of_nat l)" and ?b = "bptr m alloc l i" and ?p = "unat (pool_begin (load_buddy m alloc))"
  note L = head_cell_cell [OF assms(1,2)] and b = bptr_cell [OF assms(1-3)]
  have e: "freelist_push m ?L ?b = wr64 (wr64 m ?b (rd64 m ?L)) ?L ?b" using L b by (simp add: freelist_push_eq)
  have "\<not> in_region ?L 8 x"
    using assms(4) head_above [OF assms(1,2)] head_below [OF assms(1,2)] layoutD(5) [OF assms(1)]
    by (auto simp: quiet_def in_region_def)
  moreover have "\<not> in_region ?b 8 x"
  proof
    assume r: "in_region ?b 8 x"
    have u: "unat ?b = ?p + i * 2 ^ (k - l) * 4096" using unat_bptr [OF assms(1-3)] by (simp add: block_addr_def)
    have B: "unat ?b + 4096 \<le> ?p + 2 ^ k * 4096" by (rule bptr_bounds(2) [OF assms(1-3)])
    obtain d where d: "unat x = ?p + i * 2 ^ (k - l) * 4096 + d" "d < 8"
      using r u unfolding in_region_def by (metis add_less_cancel_left le_Suc_ex)
    have ab: "unat alloc \<le> ?p" using layoutD(3-5) [OF assms(1)] by linarith
    from assms(4) show False
      unfolding quiet_def
    proof (elim disjE conjE)
      assume "unat x < unat alloc"
      then show False using d ab by simp
    next
      assume "?p + 2 ^ k * 4096 \<le> unat x"
      then show False using d u B by linarith
    next
      assume "8 \<le> (unat x - ?p) mod 4096"
      then show False using d by (simp add: add.commute)
    qed
  qed
  ultimately show "freelist_push m ?L ?b x = m x"
    using L b unfolding e by (simp add: wr64_out cell_def)
  show "load_buddy (freelist_push m ?L ?b) alloc = load_buddy m alloc"
    unfolding e using head_above [OF assms(1,2)] bptr_above [OF assms(1-3)] L b by (simp add: load_buddy_wr64)
qed

lemma buddy_free_footprint:
  assumes "buddy_layout m alloc k" "buddy_layers (load_buddy m alloc) = of_nat (Suc k)" "k \<le> 31" "j < 2 ^ k"
  obtains m' where "buddy_free m alloc (bptr m alloc k j) = Some m'" "load_buddy m' alloc = load_buddy m alloc"
    "\<And>x. quiet m alloc k x \<Longrightarrow> m' x = m x"
proof -
  have ki: "int_of_size (buddy_layers (load_buddy m alloc) - 1) = int k"
    using assms(2,3) by (simp add: int_of_size_small unat_of_nat64)
  have "(2::nat) ^ k \<le> 2 ^ 31" using assms(3) by (intro power_increasing) auto
  then have ji: "int_of_size (of_nat j) = int j"
    using assms(4) by (simp add: int_of_size_small unat_of_nat64)
  obtain l i where c: "climb_loop m alloc (int k) (int j) = (int l, int i)" "l \<le> k" "i < 2 ^ l"
    using climb_loop_valid [OF assms(4)] by blast
  define m1 where "m1 = buddy_unset m (bitmap (load_buddy m alloc)) (of_nat l) (of_nat i)"
  have b1: "bitmap_only m m1 alloc k" unfolding m1_def by (rule bit_write_only(2) [OF assms(1) c(2,3)])
  note l1 = bitmap_only_layout [OF b1 assms(1)]
  obtain m2 l' i' where g: "merge_loop m1 alloc (int l) (int i) = (m2, int l', int i')" "l' \<le> l" "i' < 2 ^ l'"
    "bitmap_only m1 m2 alloc k"
    using merge_loop_valid [OF l1 c(2,3)] by blast
  note l2 = bitmap_only_layout [OF g(4) l1]
  have b2: "bitmap_only m m2 alloc k" by (rule bitmap_only_trans [OF b1 g(4)])
  have l'k: "l' \<le> k" using g(2) c(2) by simp
  let ?m' = "freelist_push m2 (head_cell m2 alloc (of_nat l')) (bptr m2 alloc l' i')"
  have ld2: "load_buddy m2 alloc = load_buddy m alloc" using b2 by (simp add: bitmap_only_def)
  have "buddy_free m alloc (bptr m alloc k j) = Some ?m'"
    using bptr_index [OF assms(1) order_refl assms(4)] g(1)
    by (simp add: buddy_free_def ki ji size_of_int_small c(1) Let_def bptr_def flip: m1_def)
  moreover have "?m' x = m x" if q: "quiet m alloc k x" for x
  proof -
    have "quiet m2 alloc k x" using q by (simp add: quiet_def ld2)
    then have "?m' x = m2 x" by (rule quiet_push(1) [OF l2 l'k g(3)])
    also have "m2 x = m x"
      using b2 q layoutD(3-5) [OF assms(1)] unfolding bitmap_only_def quiet_def by auto
    finally show ?thesis .
  qed
  moreover have "load_buddy ?m' alloc = load_buddy m alloc"
  proof -
    have q: "quiet m2 alloc k (alloc - 1)"
      using layoutD(2) [OF l2] unat_sub_one [of alloc] by (auto simp: quiet_def unat_gt_0)
    show ?thesis using quiet_push(2) [OF l2 l'k g(3) q] ld2 by simp
  qed
  ultimately show ?thesis using that by blast
qed

subsection \<open>The loop of \<open>slab_destroy\<close>\<close>

lemma quiet_rd64:
  assumes "\<And>x. quiet m alloc k x \<Longrightarrow> m' x = m x" "unat a + 8 \<le> 18446744073709551616"
    and "\<And>x. in_region a 8 x \<Longrightarrow> quiet m alloc k x"
  shows "rd64 m' a = rd64 m a"
  using assms by (intro rd64_same_on) (auto simp: same_on_def)

text \<open>The local copy of the struct lies outside the allocator and its pool.\<close>

definition outside :: "mem \<Rightarrow> ptr \<Rightarrow> nat \<Rightarrow> ptr \<Rightarrow> bool" where
  "outside m bd k copy \<longleftrightarrow> copy \<noteq> NULL \<and>
     (unat copy + 48 \<le> unat bd
      \<or> unat (pool_begin (load_buddy m bd)) + 2 ^ k * 4096 \<le> unat copy \<and> unat copy + 48 \<le> 18446744073709551616)"

lemma outside_quiet: "outside m bd k copy \<Longrightarrow> in_region copy 48 x \<Longrightarrow> quiet m bd k x"
  by (auto simp: outside_def quiet_def in_region_def)

lemma outside_bound: "outside m bd k copy \<Longrightarrow> unat copy + 48 \<le> 18446744073709551616"
  unfolding outside_def using unat_lt64 [of bd] by linarith

lemma copy_fields:
  fixes copy :: ptr
  assumes "unat copy + 48 \<le> 18446744073709551616"
  shows "unat (copy + 8) = unat copy + 8" "unat (copy + 16) = unat copy + 16" "unat (copy + 24) = unat copy + 24"
    "unat (copy + 32) = unat copy + 32" "unat (copy + 40) = unat copy + 40"
  using assms by (simp_all add: unat_add_numeral)

lemma page_quiet:
  assumes "buddy_layout m bd k" "j < 2 ^ k" "in_region (bptr m bd k j) 4096 x" "8 \<le> unat x - unat (bptr m bd k j)"
  shows "quiet m bd k x"
proof -
  have u: "unat (bptr m bd k j) = unat (pool_begin (load_buddy m bd)) + j * 4096"
    using unat_bptr [OF assms(1) order_refl assms(2)] by (simp add: block_addr_def)
  define d where "d = unat x - unat (bptr m bd k j)"
  have d: "unat x - unat (pool_begin (load_buddy m bd)) = d + j * 4096" "d < 4096" "8 \<le> d"
    using assms(3,4) u by (auto simp: in_region_def d_def)
  have "(d + j * 4096) mod 4096 = d" using d(2) by simp
  then show ?thesis using d assms(3) u unfolding quiet_def in_region_def d(1) by simp
qed

text \<open>
  The state from the second round of the loop on: \<open>first_cache\<close> is the last cache \<open>b\<close>, which
  still points back to its destroyed predecessor.
\<close>

definition stuck :: "ptr \<Rightarrow> nat \<Rightarrow> ptr \<Rightarrow> nat \<Rightarrow> mem \<Rightarrow> bool" where
  "stuck bd k copy j m \<longleftrightarrow>
     buddy_layout m bd k \<and> buddy_layers (load_buddy m bd) = of_nat (Suc k) \<and> k \<le> 31 \<and> j < 2 ^ k
     \<and> outside m bd k copy \<and> rd64 m copy = bd
     \<and> (let b = bptr m bd k j in
          rd64 m (copy + 8) = b \<and> rd64 m (b + 24) \<noteq> NULL \<and> rd64 m (b + 32) = NULL \<and> m (b + 64) = 0)"

lemma copy_write:
  assumes "buddy_layout m bd k" "outside m bd k copy" "unat copy \<le> unat a" "unat a + 8 \<le> unat copy + 48"
  shows "load_buddy (wr64 m a v) bd = load_buddy m bd"
    and "j < 2 ^ k \<Longrightarrow> in_region (bptr m bd k j) 4096 x \<Longrightarrow> wr64 m a v x = m x"
proof -
  note L = layoutD [OF assms(1)]
  have a: "unat a + 8 \<le> 18446744073709551616" using outside_bound [OF assms(2)] assms(4) by linarith
  have bd: "unat bd + 48 \<le> unat (pool_begin (load_buddy m bd))" using L(3-5) by linarith
  have "same_on bd 48 (wr64 m a v) m"
    using assms(2-4) a bd unfolding same_on_def outside_def in_region_def
    by (intro allI impI wr64_out) (auto simp: in_region_def)
  then show "load_buddy (wr64 m a v) bd = load_buddy m bd"
    by (intro load_buddy_same) (use bd unat_lt64 [of "pool_begin (load_buddy m bd)"] in linarith)
  show "wr64 m a v x = m x" if "j < 2 ^ k" "in_region (bptr m bd k j) 4096 x"
    using assms(2-4) bptr_bounds [OF assms(1) order_refl that(1)] that(2) bd
    unfolding outside_def in_region_def by (intro wr64_out [OF a]) (auto simp: in_region_def)
qed

lemma page_cells:
  assumes "buddy_layout m bd k" "j < 2 ^ k"
  shows "unat (bptr m bd k j) + 4096 \<le> 18446744073709551616" "unat (bptr m bd k j + 24) = unat (bptr m bd k j) + 24"
    "unat (bptr m bd k j + 32) = unat (bptr m bd k j) + 32" "unat (bptr m bd k j + 64) = unat (bptr m bd k j) + 64"
proof -
  show b: "unat (bptr m bd k j) + 4096 \<le> 18446744073709551616"
    using bptr_bounds(2) [OF assms(1) order_refl assms(2)] layoutD(6) [OF assms(1)] by (simp add: pool_def)
  show "unat (bptr m bd k j + 24) = unat (bptr m bd k j) + 24"
    "unat (bptr m bd k j + 32) = unat (bptr m bd k j) + 32" "unat (bptr m bd k j + 64) = unat (bptr m bd k j) + 64"
    using b by (auto intro!: unat_add_numeral)
qed

text \<open>Memories that agree on the second cache behind its first eight bytes and on the copy.\<close>

lemma stuck_transfer:
  assumes "stuck bd k copy j m" "load_buddy m' bd = load_buddy m bd"
    and "\<And>x. in_region (bptr m bd k j) 4096 x \<Longrightarrow> 8 \<le> unat x - unat (bptr m bd k j) \<Longrightarrow> m' x = m x"
    and "\<And>x. in_region copy 16 x \<Longrightarrow> m' x = m x"
  shows "stuck bd k copy j m'"
proof -
  have S: "buddy_layout m bd k" "j < 2 ^ k" "outside m bd k copy" using assms(1) by (auto simp: stuck_def)
  note P = page_cells [OF S(1,2)]
  have ub: "unat copy + 48 \<le> 18446744073709551616" by (rule outside_bound [OF S(3)])
  have r1: "rd64 m' y = rd64 m y"
    if "unat y = unat (bptr m bd k j) + 24 \<or> unat y = unat (bptr m bd k j) + 32" for y
    using that P(1) assms(3) by (intro rd64_same_on) (auto simp: same_on_def in_region_def)
  have r2: "rd64 m' y = rd64 m y" if "y = copy \<or> y = copy + 8" for y
    using that ub copy_fields(1) [OF ub] assms(4) by (intro rd64_same_on) (auto simp: same_on_def in_region_def)
  have r3: "m' (bptr m bd k j + 64) = m (bptr m bd k j + 64)"
    using P(1,4) by (intro assms(3)) (auto simp: in_region_def)
  show ?thesis
    using assms(1) r1 r2 r3 P
    by (simp add: stuck_def layout_cong [OF assms(2)] bptr_cong [OF assms(2)] assms(2) outside_def Let_def)
qed

lemma destroy_second:
  assumes "stuck bd k copy j m"
  shows "rd64 m (copy + 8) \<noteq> NULL"
    and "\<exists>m'. slab_cache_destroy m copy (rd64 m (copy + 8)) = Some m' \<and> stuck bd k copy j m'"
proof -
  let ?b = "bptr m bd k j"
  have S: "buddy_layout m bd k" "buddy_layers (load_buddy m bd) = of_nat (Suc k)" "k \<le> 31" "j < 2 ^ k"
    "outside m bd k copy" "rd64 m copy = bd" "rd64 m (copy + 8) = ?b" "rd64 m (?b + 24) \<noteq> NULL"
    "rd64 m (?b + 32) = NULL" "m (?b + 64) = 0"
    using assms by (auto simp: stuck_def Let_def)
  show "rd64 m (copy + 8) \<noteq> NULL" using bptr_cell(2) [OF S(1) order_refl S(4)] S(7) by simp
  have ub: "unat copy + 48 \<le> 18446744073709551616" by (rule outside_bound [OF S(5)])
  note C = copy_fields [OF ub] and P = page_cells [OF S(1,4)]
  define m2 where "m2 = wr64 m (copy + 24) (rd64 m (?b + 24))"
  have a: "unat copy \<le> unat (copy + 24)" "unat (copy + 24) + 8 \<le> unat copy + 48" using C by simp_all
  have st2: "stuck bd k copy j m2"
    unfolding m2_def
  proof (rule stuck_transfer [OF assms])
    show "load_buddy (wr64 m (copy + 24) (rd64 m (?b + 24))) bd = load_buddy m bd"
      by (rule copy_write(1) [OF S(1,5) a])
    show "wr64 m (copy + 24) (rd64 m (?b + 24)) x = m x" if "in_region ?b 4096 x" for x
      by (rule copy_write(2) [OF S(1,5) a S(4) that])
    show "wr64 m (copy + 24) (rd64 m (?b + 24)) x = m x" if "in_region copy 16 x" for x
      using that C ub by (intro wr64_out) (auto simp: in_region_def)
  qed
  then have T: "buddy_layout m2 bd k" "buddy_layers (load_buddy m2 bd) = of_nat (Suc k)"
    "outside m2 bd k copy" "rd64 m2 copy = bd" "rd64 m2 (bptr m2 bd k j + 32) = NULL"
    "m2 (bptr m2 bd k j + 64) = 0"
    by (auto simp: stuck_def Let_def)
  have b2: "bptr m2 bd k j = ?b" unfolding m2_def by (rule bptr_cong [OF copy_write(1) [OF S(1,5) a]])
  obtain m' where m': "buddy_free m2 bd (bptr m2 bd k j) = Some m'" "load_buddy m' bd = load_buddy m2 bd"
    "\<And>x. quiet m2 bd k x \<Longrightarrow> m' x = m2 x"
    by (rule buddy_free_footprint [OF T(1,2) S(3,4)]) blast
  have "slab_cache_destroy m copy ?b = Some m'"
    using S(8,9,10) T(4-6) m'(1)
    by (simp add: slab_cache_destroy_def Let_def b2 flip: m2_def)
  moreover have "stuck bd k copy j m'"
  proof (rule stuck_transfer [OF st2 m'(2)])
    show "m' x = m2 x" if "in_region (bptr m2 bd k j) 4096 x" "8 \<le> unat x - unat (bptr m2 bd k j)" for x
      by (rule m'(3), rule page_quiet [OF T(1) S(4) that])
    show "m' x = m2 x" if "in_region copy 16 x" for x
      using that by (intro m'(3) outside_quiet [OF T(3)]) (auto simp: in_region_def)
  qed
  ultimately show "\<exists>m'. slab_cache_destroy m copy (rd64 m (copy + 8)) = Some m' \<and> stuck bd k copy j m'"
    using S(7) by auto
qed

lemma destroy_loop_stuck:
  assumes "stuck bd k copy j m"
  shows "destroy_loop m copy = None"
proof (rule ccontr)
  assume "destroy_loop m copy \<noteq> None"
  then obtain y where "destroy_loop m copy = Some y" by blast
  then have "\<not> stuck bd k copy j m"
  proof (rule destroy_loop.raw_induct [where P = "\<lambda>m copy y. \<not> stuck bd k copy j m", rotated])
    fix loop :: "mem \<Rightarrow> ptr \<Rightarrow> mem option" and m copy y
    assume IH: "\<And>m copy y. loop m copy = Some y \<Longrightarrow> \<not> stuck bd k copy j m"
      and body: "(if rd64 m (copy + 8) \<noteq> NULL
          then case slab_cache_destroy m copy (rd64 m (copy + 8)) of None \<Rightarrow> None | Some m' \<Rightarrow> loop m' copy
          else Some m) = Some y"
    show "\<not> stuck bd k copy j m"
    proof
      assume s: "stuck bd k copy j m"
      obtain m' where m': "slab_cache_destroy m copy (rd64 m (copy + 8)) = Some m'" "stuck bd k copy j m'"
        using destroy_second(2) [OF s] by blast
      have "loop m' copy = Some y" using body m'(1) destroy_second(1) [OF s] by simp
      from IH [OF this] m'(2) show False by simp
    qed
  qed
  with assms show False by simp
qed

text \<open>The copy of the struct.\<close>

definition copied :: "mem \<Rightarrow> ptr \<Rightarrow> ptr \<Rightarrow> mem" where
  "copied m alloc copy =
     (let m = wr64 m copy (rd64 m alloc);
          m = wr64 m (copy + 8) (rd64 m (alloc + 8));
          m = wr64 m (copy + 16) (rd64 m (alloc + 16));
          m = wr64 m (copy + 24) (rd64 m (alloc + 24));
          m = wr64 m (copy + 32) (rd64 m (alloc + 32))
      in wr64 m (copy + 40) (rd64 m (alloc + 40)))"

lemma slab_destroy_copied: "slab_destroy m alloc copy = destroy_loop (copied m alloc copy) copy"
  by (simp add: slab_destroy_def copied_def Let_def)

lemma copied_out:
  assumes "unat copy + 48 \<le> 18446744073709551616" "\<not> in_region copy 48 x"
  shows "copied m alloc copy x = m x"
proof -
  have "wr64 m0 a v x = m0 x" if "unat copy \<le> unat a" "unat a + 8 \<le> unat copy + 48" for m0 a v
    using that assms by (intro wr64_out) (auto simp: in_region_def)
  then show ?thesis by (simp add: copied_def Let_def copy_fields [OF assms(1)])
qed

lemma copied_reads:
  assumes "unat copy + 48 \<le> 18446744073709551616" "unat alloc + 48 \<le> 18446744073709551616"
    and "unat copy + 48 \<le> unat alloc \<or> unat alloc + 48 \<le> unat copy"
  shows "rd64 (copied m alloc copy) copy = rd64 m alloc"
    and "rd64 (copied m alloc copy) (copy + 8) = rd64 m (alloc + 8)"
proof -
  note C = copy_fields [OF assms(1)] and A = copy_fields [OF assms(2)]
  have f: "rd64 (wr64 m0 copy v) (alloc + 8) = rd64 m0 (alloc + 8)" for m0 v
    using assms by (intro rd64_wr64_apart) (auto simp: A)
  show "rd64 (copied m alloc copy) copy = rd64 m alloc"
    and "rd64 (copied m alloc copy) (copy + 8) = rd64 m (alloc + 8)"
    using assms(1) by (simp_all add: copied_def Let_def rd64_wr64_apart C f)
qed

text \<open>A slab whose root cache, in page \<open>ja\<close> of the pool, is followed by one more cache in page \<open>jb\<close>.\<close>

definition two_caches :: "mem \<Rightarrow> ptr \<Rightarrow> nat \<Rightarrow> nat \<Rightarrow> nat \<Rightarrow> bool" where
  "two_caches m bd k ja jb \<longleftrightarrow>
     (let alloc = bptr m bd k ja; a = alloc + 48; b = bptr m bd k jb in
      ja < 2 ^ k \<and> jb < 2 ^ k \<and> ja \<noteq> jb
      \<and> rd64 m (s_buddy alloc) = bd \<and> rd64 m (s_first_cache alloc) = a
      \<and> rd64 m (c_prev_cache a) = NULL \<and> rd64 m (c_next_cache a) = b \<and> m (c_root_cache a) \<noteq> 0
      \<and> rd64 m (c_prev_cache b) = a \<and> rd64 m (c_next_cache b) = NULL \<and> m (c_root_cache b) = 0)"

lemma slab_destroy_first:
  assumes "buddy_layout m bd k" "buddy_layers (load_buddy m bd) = of_nat (Suc k)" "k \<le> 31"
    and "outside m bd k copy" "two_caches m bd k ja jb"
  shows "\<exists>m'. stuck bd k copy jb m' \<and> slab_destroy m (bptr m bd k ja) copy = destroy_loop m' copy"
proof -
  define alloc where "alloc = bptr m bd k ja"
  define a where "a = alloc + 48"
  define b where "b = bptr m bd k jb"
  have W: "ja < 2 ^ k" "jb < 2 ^ k" "ja \<noteq> jb" "rd64 m alloc = bd" "rd64 m (alloc + 8) = a"
    "rd64 m (a + 24) = NULL" "rd64 m (a + 32) = b" "m (a + 64) \<noteq> 0" "rd64 m (b + 24) = a"
    "rd64 m (b + 32) = NULL" "m (b + 64) = 0"
    using assms(5) by (auto simp: two_caches_def Let_def alloc_def a_def b_def)
  have ub: "unat copy + 48 \<le> 18446744073709551616" by (rule outside_bound [OF assms(4)])
  note C = copy_fields [OF ub]
  note Pa = page_cells [OF assms(1) W(1), folded alloc_def] and Pb = page_cells [OF assms(1) W(2), folded b_def]
  note Ba = bptr_bounds [OF assms(1) order_refl W(1), folded alloc_def]
    and Bb = bptr_bounds [OF assms(1) order_refl W(2), folded b_def]
  have bdp: "unat bd + 48 \<le> unat (pool_begin (load_buddy m bd))" using layoutD(3-5) [OF assms(1)] by linarith
  have ua: "unat a = unat alloc + 48" "unat (a + 24) = unat alloc + 72" "unat (a + 32) = unat alloc + 80"
    "unat (a + 64) = unat alloc + 112"
    using Pa(1) unfolding a_def by (simp_all add: add.assoc unat_add_numeral)
  have sep: "unat copy + 48 \<le> unat alloc \<or> unat alloc + 4096 \<le> unat copy"
    "unat copy + 48 \<le> unat b \<or> unat b + 4096 \<le> unat copy"
    using assms(4) Ba Bb bdp unfolding outside_def by linarith+
  let ?m0 = "copied m alloc copy"
  have out: "?m0 x = m x" if "\<not> in_region copy 48 x" for x by (rule copied_out [OF ub that])
  have rd: "rd64 ?m0 copy = bd" "rd64 ?m0 (copy + 8) = a"
    using copied_reads [OF ub, of alloc m] Pa(1) sep(1) W(4,5) by auto
  have cell0: "rd64 ?m0 y = rd64 m y"
    if "unat alloc \<le> unat y \<and> unat y + 8 \<le> unat alloc + 4096 \<or> unat b \<le> unat y \<and> unat y + 8 \<le> unat b + 4096" for y
    using that sep Pa(1) Pb(1) out by (intro rd64_same_on) (auto simp: same_on_def in_region_def)
  have byte0: "?m0 y = m y"
    if "unat alloc \<le> unat y \<and> unat y < unat alloc + 4096 \<or> unat b \<le> unat y \<and> unat y < unat b + 4096" for y
    using that sep by (intro out) (auto simp: in_region_def)
  define m1 where "m1 = wr64 ?m0 (copy + 8) b"
  have out1: "m1 x = m x" if "\<not> in_region copy 48 x" for x
  proof -
    have "wr64 ?m0 (copy + 8) b x = ?m0 x" using that C ub by (intro wr64_out) (auto simp: in_region_def)
    then show ?thesis using out [OF that] by (simp add: m1_def)
  qed
  have "same_on bd 48 m1 m"
    using assms(4) bdp out1 unfolding same_on_def outside_def in_region_def by auto
  then have ld1: "load_buddy m1 bd = load_buddy m bd"
    by (intro load_buddy_same) (use bdp unat_lt64 [of "pool_begin (load_buddy m bd)"] in linarith)
  have cell1: "rd64 m1 y = rd64 m y"
    if "unat alloc \<le> unat y \<and> unat y + 8 \<le> unat alloc + 4096 \<or> unat b \<le> unat y \<and> unat y + 8 \<le> unat b + 4096" for y
    using that sep Pa(1) Pb(1) out1 by (intro rd64_same_on) (auto simp: same_on_def in_region_def)
  have byte1: "m1 y = m y"
    if "unat alloc \<le> unat y \<and> unat y < unat alloc + 4096 \<or> unat b \<le> unat y \<and> unat y < unat b + 4096" for y
    using that sep by (intro out1) (auto simp: in_region_def)
  have rd1: "rd64 m1 copy = bd" "rd64 m1 (copy + 8) = b"
    using rd C ub by (simp_all add: m1_def rd64_wr64_apart)
  have bn: "b \<noteq> NULL" "a \<noteq> NULL" using bptr_cell(2) [OF assms(1) order_refl W(2)] ua(1) by (auto simp: b_def)
  have B1: "bptr m1 bd k j = bptr m bd k j" for j by (rule bptr_cong [OF ld1])
  have lay1: "buddy_layout m1 bd k" by (simp add: layout_cong [OF ld1] assms(1))
  have "outside m1 bd k copy" using assms(4) by (simp add: outside_def ld1)
  then have st: "stuck bd k copy jb m1"
    unfolding stuck_def B1 Let_def b_def [symmetric] ld1
    using lay1 assms(2,3) W(2,9-11) rd1 bn(2) cell1 byte1 Pb by simp
  obtain m' where m': "buddy_free m1 bd alloc = Some m'" "load_buddy m' bd = load_buddy m1 bd"
    "\<And>x. quiet m1 bd k x \<Longrightarrow> m' x = m1 x"
    using buddy_free_footprint [OF lay1 _ assms(3) W(1)] assms(2) unfolding ld1 B1 alloc_def by metis
  have "slab_cache_destroy ?m0 copy a = Some m'"
  proof -
    have r0: "rd64 ?m0 (a + 24) = NULL" "rd64 ?m0 (a + 32) = b" using cell0 ua W(6,7) by simp_all
    have r1: "rd64 m1 (a + 24) = NULL" "rd64 m1 (a + 32) = b" "m1 (a + 64) \<noteq> 0"
      using cell1 byte1 ua W(6-8) by simp_all
    have "a - sizeof_slab_alloc_t = alloc" by (simp add: a_def sizeof_slab_alloc_t_def)
    then show ?thesis using r0 r1 bn(1) rd1(1) m'(1) by (simp add: slab_cache_destroy_def Let_def flip: m1_def)
  qed
  then have "slab_destroy m alloc copy = destroy_loop m' copy"
    using bn(2) rd(2) by (simp add: slab_destroy_copied) (subst destroy_loop.simps, simp)
  moreover have "stuck bd k copy jb m'"
  proof (rule stuck_transfer [OF st m'(2)])
    show "m' x = m1 x" if "in_region (bptr m1 bd k jb) 4096 x" "8 \<le> unat x - unat (bptr m1 bd k jb)" for x
      by (rule m'(3), rule page_quiet [OF lay1 W(2) that])
    show "m' x = m1 x" if "in_region copy 16 x" for x
      using that \<open>outside m1 bd k copy\<close> by (intro m'(3) outside_quiet [of _ _ _ copy]) (auto simp: in_region_def)
  qed
  ultimately show ?thesis unfolding alloc_def by blast
qed

text \<open>Such a slab on the small allocator.\<close>

definition demo_two :: mem where
  "demo_two = (wr64 (wr64 (wr64 (wr64 demo_mem 8192 8) 8200 8240) 8272 12288) 12312 8240)(8304 := 1)"

lemma demo_high: "8192 \<le> unat x \<Longrightarrow> unat x < 1000000 \<Longrightarrow> demo_mem x = 0"
  by (auto simp: demo_mem_def wr64_out in_region_def demo_bytes_def)

lemma demo_high_rd64: "8192 \<le> unat x \<Longrightarrow> unat x < 900000 \<Longrightarrow> rd64 demo_mem x = 0"
proof -
  assume x: "8192 \<le> unat x" "unat x < 900000"
  then have "rd64 demo_mem x = rd64 (\<lambda>_. 0) x"
    by (intro rd64_same_on) (auto simp: same_on_def in_region_def demo_high)
  then show ?thesis by (simp add: rd64_def)
qed

lemma demo_two_load: "load_buddy demo_two 8 = load_buddy demo_mem 8"
proof (rule load_buddy_same)
  show "same_on 8 48 demo_two demo_mem"
    by (auto simp: same_on_def in_region_def demo_two_def wr64_out)
qed simp

lemma demo_two_caches: "two_caches demo_two 8 4 0 1"
proof -
  have p: "bptr demo_two 8 4 0 = 8192" "bptr demo_two 8 4 1 = 12288"
    by (simp_all add: bptr_def demo_two_load demo_load to_pointer_def block_size_def PAGE_SIZE_def)
  show ?thesis
    unfolding two_caches_def p Let_def
    by (simp add: demo_two_def rd64_upd_apart rd64_wr64_apart wr64_out in_region_def demo_high demo_high_rd64)
qed

text \<open>
  C38: \<open>slab_destroy\<close> of a slab with exactly two caches, the root cache \<open>a\<close> and one further
  cache \<open>b\<close>, never returns: every release in its loop succeeds, but \<open>first_cache\<close> stays \<open>b\<close>,
  because \<open>slab_cache_destroy\<close> does not clear the \<open>prev_cache\<close> of the successor of the cache it
  removes from the head of the list.
\<close>

theorem slab_destroy_diverges:
  assumes "buddy_layout m bd k" "buddy_layers (load_buddy m bd) = of_nat (Suc k)" "k \<le> 31"
    and "outside m bd k copy" "two_caches m bd k ja jb"
  shows "slab_destroy m (bptr m bd k ja) copy = None"
  using slab_destroy_first [OF assms] destroy_loop_stuck by auto

theorem slab_destroy_diverges_witness:
  "slab_destroy demo_two (bptr demo_two 8 4 0) 1048576 = None"
proof (rule slab_destroy_diverges)
  show "buddy_layout demo_two 8 4" by (simp add: layout_cong [OF demo_two_load] demo_layout)
  show "buddy_layers (load_buddy demo_two 8) = of_nat (Suc 4)" by (simp add: demo_two_load demo_load)
  show "outside demo_two 8 4 1048576" by (simp add: outside_def demo_two_load demo_load)
qed (simp, rule demo_two_caches)

end
