(* ===== verification/Penguin_Malloc.thy ===== *)
theory Penguin_Malloc
  imports Slab_Props
begin

section \<open>The heap (penguin\_malloc.c, new.cpp)\<close>

text \<open>
  \<open>malloc\<close> over eight slabs of doubling object sizes and the buddy allocator. The two static
  variables are fields of \<open>pm_state\<close> next to the memory. A result \<open>None\<close> is undefined
  behaviour: what the allocators below leave undefined, an index outside \<open>global_slabs\<close>, and a
  \<open>slab_alloc\<close> or \<open>slab_free\<close> through a slab that could not be set up (a null pointer). The
  operators of \<open>new.cpp\<close> are the same calls after the one-time initialisation and under the mutex;
  the address that \<open>mmap\<close> returns is a parameter.
\<close>

record pm_state =
  pmem :: mem
  global_buddy :: ptr
  global_slabs :: "ptr list"

definition PENGUIN_MALLOC_SLABS :: nat where "PENGUIN_MALLOC_SLABS = 8"
definition BUDDY_INDEX :: u64 where "BUDDY_INDEX = 8"
definition sizeof_malloc_header :: u64 where "sizeof_malloc_header = 8"

subsection \<open>Sizes\<close>

text \<open>\<open>16 << (index + 1)\<close>; the index is at most 8.\<close>

definition slab_size_by_index :: "u64 \<Rightarrow> u64" where
  "slab_size_by_index index = push_bit (unat (index + 1)) 16"

definition to_pages_count :: "u64 \<Rightarrow> u64" where
  "to_pages_count sz = (sz + PAGE_SIZE - 1) div PAGE_SIZE"

function best_fit_loop :: "u64 \<Rightarrow> u64 \<Rightarrow> u64" where
  "best_fit_loop sz i =
     (if i < BUDDY_INDEX then (if sz < slab_size_by_index i then i else best_fit_loop sz (i + 1))
      else BUDDY_INDEX)"
  by pat_completeness auto
termination
proof (relation "measure (\<lambda>(sz, i). 8 - unat i)", goal_cases)
  case (2 sz i)
  then have i: "unat i < 8" by (simp add: BUDDY_INDEX_def word_less_nat_alt)
  then have "unat (i + 1) = unat i + 1" by (intro unat_add_one) simp
  then show ?case using i by simp
qed simp

declare best_fit_loop.simps [simp del]

definition best_fit_slab_index :: "u64 \<Rightarrow> u64" where
  "best_fit_slab_index sz = best_fit_loop sz 0"

subsection \<open>The interface\<close>

fun init_slabs :: "mem \<Rightarrow> ptr \<Rightarrow> nat \<Rightarrow> nat \<Rightarrow> (ptr list \<times> mem) option" where
  "init_slabs m buddy i 0 = Some ([], m)"
| "init_slabs m buddy i (Suc n) =
     (case slab_init m buddy (slab_size_by_index (of_nat i)) of
        None \<Rightarrow> None
      | Some (slab, m1) \<Rightarrow>
          (case init_slabs m1 buddy (Suc i) n of
             None \<Rightarrow> None
           | Some (slabs, m2) \<Rightarrow> Some (slab # slabs, m2)))"

definition penguin_malloc_init :: "pm_state \<Rightarrow> ptr \<Rightarrow> pm_state option" where
  "penguin_malloc_init s alloc =
     map_option (\<lambda>(slabs, m). \<lparr>pmem = m, global_buddy = alloc, global_slabs = slabs\<rparr>)
       (init_slabs (pmem s) alloc 0 PENGUIN_MALLOC_SLABS)"

definition penguin_malloc :: "pm_state \<Rightarrow> u64 \<Rightarrow> (ptr \<times> pm_state) option" where
  "penguin_malloc s sz =
     (let sz = sz + sizeof_malloc_header;
          index = best_fit_slab_index sz
      in case (if index \<noteq> BUDDY_INDEX
               then (if unat index < length (global_slabs s) \<and> global_slabs s ! unat index \<noteq> NULL
                     then slab_alloc (pmem s) (global_slabs s ! unat index) else None)
               else Some (NULL, pmem s)) of
           None \<Rightarrow> None
         | Some (p, m) \<Rightarrow>
             (case (if p = NULL
                    then map_option (\<lambda>(p, m). (BUDDY_INDEX, p, m)) (buddy_alloc m (global_buddy s) (to_pages_count sz))
                    else Some (index, p, m)) of
                None \<Rightarrow> None
              | Some (index, p, m) \<Rightarrow>
                  if p = NULL then Some (NULL, s\<lparr>pmem := m\<rparr>)
                  else Some (p + sizeof_malloc_header, s\<lparr>pmem := wr64 m p index\<rparr>)))"

definition penguin_free :: "pm_state \<Rightarrow> ptr \<Rightarrow> pm_state option" where
  "penguin_free s p =
     (if p = NULL then Some s
      else
        let p = p - sizeof_malloc_header;
            index = rd64 (pmem s) p
        in map_option (\<lambda>m. s\<lparr>pmem := m\<rparr>)
             (if index = BUDDY_INDEX then buddy_free (pmem s) (global_buddy s) p
              else if unat index < length (global_slabs s) \<and> global_slabs s ! unat index \<noteq> NULL
              then slab_free (pmem s) (global_slabs s ! unat index) p
              else None))"

subsection \<open>The C++ operators\<close>

text \<open>
  The state of \<open>new.cpp\<close>: whether \<open>pthread_once\<close> has run, and the heap. \<open>init_allocator\<close>
  aborts when \<open>mmap\<close> fails, which ends the process: there is no state after it.
\<close>

record heap_state =
  initialised :: bool
  heap :: pm_state

datatype new_error = Bad_alloc | Aborted

definition kPenguinMallocSize :: u64 where "kPenguinMallocSize = 134217728"

definition init_allocator :: "ptr option \<Rightarrow> heap_state \<Rightarrow> (new_error + heap_state) option" where
  "init_allocator mmap_result st =
     (case mmap_result of
        None \<Rightarrow> Some (Inl Aborted)
      | Some base \<Rightarrow>
          (case buddy_init (pmem (heap st)) base (base + kPenguinMallocSize) of
             None \<Rightarrow> None
           | Some (a, m) \<Rightarrow>
               map_option (\<lambda>h. Inr \<lparr>initialised = True, heap = h\<rparr>)
                 (penguin_malloc_init ((heap st)\<lparr>pmem := m\<rparr>) a)))"

text \<open>\<open>pthread_once (&g_init_once, init_allocator)\<close>\<close>

definition init_once :: "ptr option \<Rightarrow> heap_state \<Rightarrow> (new_error + heap_state) option" where
  "init_once mmap_result st = (if initialised st then Some (Inr st) else init_allocator mmap_result st)"

definition operator_new_nothrow :: "ptr option \<Rightarrow> heap_state \<Rightarrow> u64 \<Rightarrow> (new_error + (ptr \<times> heap_state)) option" where
  "operator_new_nothrow mmap_result st sz =
     (case init_once mmap_result st of
        None \<Rightarrow> None
      | Some (Inl e) \<Rightarrow> Some (Inl e)
      | Some (Inr st1) \<Rightarrow>
          map_option (\<lambda>(p, h). Inr (p, st1\<lparr>heap := h\<rparr>)) (penguin_malloc (heap st1) sz))"

definition operator_new :: "ptr option \<Rightarrow> heap_state \<Rightarrow> u64 \<Rightarrow> (new_error + (ptr \<times> heap_state)) option" where
  "operator_new mmap_result st sz =
     (case init_once mmap_result st of
        None \<Rightarrow> None
      | Some (Inl e) \<Rightarrow> Some (Inl e)
      | Some (Inr st1) \<Rightarrow>
          map_option (\<lambda>(p, h). if p = NULL then Inl Bad_alloc else Inr (p, st1\<lparr>heap := h\<rparr>))
            (penguin_malloc (heap st1) sz))"

definition operator_delete :: "heap_state \<Rightarrow> ptr \<Rightarrow> heap_state option" where
  "operator_delete st p = map_option (\<lambda>h. st\<lparr>heap := h\<rparr>) (penguin_free (heap st) p)"

text \<open>The \<open>nothrow\<close> and the sized variants ignore their second argument.\<close>

definition operator_delete_nothrow :: "heap_state \<Rightarrow> ptr \<Rightarrow> heap_state option" where
  "operator_delete_nothrow st p = map_option (\<lambda>h. st\<lparr>heap := h\<rparr>) (penguin_free (heap st) p)"

definition operator_delete_sized :: "heap_state \<Rightarrow> ptr \<Rightarrow> u64 \<Rightarrow> heap_state option" where
  "operator_delete_sized st p sz = map_option (\<lambda>h. st\<lparr>heap := h\<rparr>) (penguin_free (heap st) p)"

subsection \<open>Sizes\<close>

lemma unat_slab_size:
  assumes "i < 8"
  shows "unat (slab_size_by_index (of_nat i)) = 32 * 2 ^ i"
proof -
  have "i = 0 \<or> i = 1 \<or> i = 2 \<or> i = 3 \<or> i = 4 \<or> i = 5 \<or> i = 6 \<or> i = 7" using assms by linarith
  then show ?thesis by (elim disjE) (simp_all add: slab_size_by_index_def push_bit_eq_mult)
qed

lemma best_fit_loop_spec:
  assumes "i \<le> 8" "\<And>j. j < i \<Longrightarrow> 32 * 2 ^ j \<le> unat sz"
  shows "\<exists>r\<le>8. best_fit_loop sz (of_nat i) = of_nat r \<and> (r < 8 \<longrightarrow> unat sz < 32 * 2 ^ r)
    \<and> (\<forall>j<r. 32 * 2 ^ j \<le> unat sz)"
  using assms
proof (induction "8 - i" arbitrary: i)
  case 0
  then have "i = 8" by simp
  then show ?case using 0(3) by (subst best_fit_loop.simps) (auto simp: BUDDY_INDEX_def intro!: exI [of _ 8])
next
  case (Suc n)
  then have i: "i < 8" by simp
  then have lt: "(of_nat i :: u64) < BUDDY_INDEX" by (simp add: BUDDY_INDEX_def word_less_nat_alt unat_of_nat64)
  have c: "sz < slab_size_by_index (of_nat i) \<longleftrightarrow> unat sz < 32 * 2 ^ i"
    by (simp add: word_less_nat_alt unat_slab_size [OF i])
  show ?case
  proof (cases "unat sz < 32 * 2 ^ i")
    case True
    then show ?thesis using lt c Suc.prems i by (subst best_fit_loop.simps) (auto intro!: exI [of _ i])
  next
    case False
    have "\<And>j. j < Suc i \<Longrightarrow> 32 * 2 ^ j \<le> unat sz" using Suc.prems(2) False by (auto simp: less_Suc_eq)
    moreover have "n = 8 - Suc i" "Suc i \<le> 8" using Suc.hyps(2) i by auto
    ultimately have "\<exists>r\<le>8. best_fit_loop sz (of_nat (Suc i)) = of_nat r \<and> (r < 8 \<longrightarrow> unat sz < 32 * 2 ^ r)
      \<and> (\<forall>j<r. 32 * 2 ^ j \<le> unat sz)" using Suc.hyps(1) by blast
    moreover have "best_fit_loop sz (of_nat i) = best_fit_loop sz (of_nat (Suc i))"
      using False lt c by (subst best_fit_loop.simps) (simp add: add.commute)
    ultimately show ?thesis by simp
  qed
qed

lemma best_fit_slab_index_range:
  "\<exists>r\<le>8. best_fit_slab_index sz = of_nat r
    \<and> (r < 8 \<longrightarrow> unat sz < unat (slab_size_by_index (of_nat r)))
    \<and> (\<forall>j<r. unat (slab_size_by_index (of_nat j)) \<le> unat sz)
    \<and> (r = 8 \<longleftrightarrow> 4096 \<le> unat sz)"
proof -
  obtain r where r: "r \<le> 8" "best_fit_slab_index sz = of_nat r" "r < 8 \<longrightarrow> unat sz < 32 * 2 ^ r"
    "\<forall>j<r. 32 * 2 ^ j \<le> unat sz"
    using best_fit_loop_spec [of 0 sz] by (auto simp: best_fit_slab_index_def)
  have "r = 8 \<longleftrightarrow> 4096 \<le> unat sz"
  proof
    assume "r = 8"
    then show "4096 \<le> unat sz" using r(4) [rule_format, of 7] by simp
  next
    assume big: "4096 \<le> unat sz"
    show "r = 8"
    proof (rule ccontr)
      assume "r \<noteq> 8"
      then have "r < 8" using r(1) by simp
      then have "(2::nat) ^ r \<le> 2 ^ 7" by (intro power_increasing) auto
      with big r(3) \<open>r < 8\<close> show False by simp
    qed
  qed
  moreover have "\<forall>j<r. unat (slab_size_by_index (of_nat j)) \<le> unat sz"
    using r(1,4) by (auto simp: unat_slab_size)
  moreover have "r < 8 \<longrightarrow> unat sz < unat (slab_size_by_index (of_nat r))"
    using r(3) by (auto simp: unat_slab_size)
  ultimately show ?thesis using r(1,2) by blast
qed

text \<open>
  \<open>best_fit_slab_index\<close> returns the first slab whose objects are larger than the size, or 8,
  the index of the buddy allocator, exactly when the size is at least a page.
\<close>

theorem best_fit_slab_index_least:
  "\<exists>r\<le>8. best_fit_slab_index sz = of_nat r
    \<and> (r < 8 \<longrightarrow> unat sz < unat (slab_size_by_index (of_nat r)))
    \<and> (\<forall>j<r. unat (slab_size_by_index (of_nat j)) \<le> unat sz)
    \<and> (r = 8 \<longleftrightarrow> 4096 \<le> unat sz)"
  by (rule best_fit_slab_index_range)

theorem best_fit_slab_index_least_witness:
  "\<exists>r<8. best_fit_slab_index 60 = of_nat r \<and> 60 < unat (slab_size_by_index (of_nat r))"
  using best_fit_slab_index_least [of 60] by (auto simp: le_less)

text \<open>
  \<open>to_pages_count\<close> is the least number of pages that hold the size, for every size that does
  not wrap around when it is rounded up.
\<close>

theorem to_pages_count_least:
  assumes "unat sz < 18446744073709547521"
  shows "unat sz \<le> unat (to_pages_count sz) * 4096
    \<and> (\<forall>n. unat sz \<le> n * 4096 \<longrightarrow> unat (to_pages_count sz) \<le> n)"
proof -
  have "unat (sz + 4096 - 1) = unat sz + 4095"
  proof -
    have "sz + 4096 - 1 = sz + 4095" by simp
    also have "unat \<dots> = unat sz + 4095" using assms by (intro unat_add_numeral) simp
    finally show ?thesis .
  qed
  then have u: "unat (to_pages_count sz) = (unat sz + 4095) div 4096"
    by (simp add: to_pages_count_def PAGE_SIZE_def unat_div)
  show ?thesis unfolding u by auto
qed

theorem to_pages_count_least_witness:
  "(8200::nat) \<le> unat (to_pages_count 8200) * 4096 \<and> unat (to_pages_count 8200) \<le> 3"
  using to_pages_count_least [of 8200] by simp

end
