(* ===== verification/Penguin_Props.thy ===== *)
theory Penguin_Props
  imports Penguin_Malloc
begin

section \<open>What the heap guarantees\<close>

text \<open>
  \<open>malloc\<close> and \<open>free\<close> over a slab with a root cache, and the sizes for which \<open>malloc\<close> returns
  less memory than was asked for.
\<close>

subsection \<open>Small sizes\<close>

text \<open>A change of the user part of an object in use keeps the slab.\<close>

lemma slab_user_change:
  assumes "slab_rep m alloc c N s n fs ff" "i \<in> live n fs"
    and out: "\<And>x. unat x < unat (slot c s i) + 8 \<or> unat (slot c s i) + s \<le> unat x \<Longrightarrow> m' x = m x"
  shows "slab_rep m' alloc c N s n fs ff"
proof -
  note R = slab_repD [OF assms(1)]
  have i: "i < n" "i < N" using assms(2) R(2) by (auto simp: live_def)
  note U = unat_slot(1,2) [OF R(1)] and F = fields [OF R(1)] and A = slab_addresses [OF R(1)]
  have fld: "rd64 m' x = rd64 m x" if "field alloc x" for x
    using that U [OF i(2)] out by (intro rd64_same_on) (auto simp: field_def same_on_def in_region_def)
  have root: "m' (c + 64) = m (c + 64)" using A(10) U [OF i(2)] by (intro out) simp
  have slt: "rd64 m' (slot c s j) = rd64 m (slot c s j)" if "j < N" for j
  proof (rule rd64_same_on)
    have s: "8 \<le> s" using R(1) by (simp add: slab_geometry_def)
    show "same_on (slot c s j) 8 m' m"
      using slots_apart [OF R(1) that i(2)] out s by (cases "j = i") (auto simp: same_on_def in_region_def)
  qed (rule slot_cell [OF R(1) that])
  have "chain m' (rd64 m (c + 40)) (map (slot c s) fs)"
  proof (subst chain_cong [of _ _ m])
    fix x assume "x \<in> set (map (slot c s) fs)"
    then obtain l where "l \<in> set fs" "x = slot c s l" by auto
    moreover from this have "l < N" using subsetD [OF R(4), of l] R(2) by auto
    ultimately show "rd64 m' x = rd64 m x" using slt by simp
  qed (fact R(6))
  moreover have "slab_geometry m' alloc c N s"
    using R(1) fld F root by (simp add: slab_geometry_def)
  moreover have "rd64 m' (slot c s j) = c" if "j \<in> live n fs" for j
    using that R(2,11) slt by (auto simp: live_def)
  ultimately show ?thesis using R fld F unfolding slab_rep_def by simp
qed

lemma slab_user_write:
  assumes "slab_rep m alloc c N s n fs ff" "i \<in> live n fs" "16 \<le> s"
    and "unat a = unat (slot c s i) + 8"
  shows "slab_rep (wr64 m a v) alloc c N s n fs ff"
proof (rule slab_user_change [OF assms(1,2)])
  note R = slab_repD [OF assms(1)]
  have i: "i < N" using assms(2) R(2) by (auto simp: live_def)
  fix x :: u64 assume "unat x < unat (slot c s i) + 8 \<or> unat (slot c s i) + s \<le> unat x"
  then show "wr64 m a v x = m x"
    using unat_slot(1,2) [OF R(1) i] assms(3,4) by (intro wr64_out) (auto simp: in_region_def)
qed

text \<open>
  The slab that serves a size: its root cache has a free slot, and the two headers and the size fit
  its objects.
\<close>

definition serves :: "pm_state \<Rightarrow> u64 \<Rightarrow> nat \<Rightarrow> ptr \<Rightarrow> nat \<Rightarrow> nat \<Rightarrow> nat \<Rightarrow> nat list \<Rightarrow> bool \<Rightarrow> bool" where
  "serves h sz r c N s n fs ff \<longleftrightarrow>
     r < length (global_slabs h) \<and> r < 8 \<and> best_fit_slab_index (sz + 8) = of_nat r
     \<and> s = unat (slab_size_by_index (of_nat r)) + 8
     \<and> slab_rep (pmem h) (global_slabs h ! r) c N s n fs ff"

text \<open>One call of \<open>malloc\<close> and of \<open>free\<close>, as writes.\<close>

lemma malloc_small_eq:
  assumes "serves h sz r c N s n fs True" "unat sz < 4088"
  shows "penguin_malloc h sz = Some (slot c s (next_slot n fs) + 16,
      h\<lparr>pmem := wr64 (after_alloc (pmem h) (global_slabs h ! r) c N s n fs) (slot c s (next_slot n fs) + 8) (of_nat r)\<rparr>)"
    and "16 + unat sz \<le> s"
proof -
  let ?slab = "global_slabs h ! r" and ?i = "next_slot n fs"
  have S: "r < length (global_slabs h)" "r < 8" "best_fit_slab_index (sz + 8) = of_nat r"
    "s = unat (slab_size_by_index (of_nat r)) + 8" "slab_rep (pmem h) ?slab c N s n fs True"
    using assms(1) by (auto simp: serves_def)
  note R = slab_repD [OF S(5)]
  have ur: "unat (of_nat r :: u64) = r" using S(2) by (intro unat_of_nat64) simp
  have rb: "(of_nat r :: u64) \<noteq> BUDDY_INDEX" using S(2) ur by (auto simp: BUDDY_INDEX_def)
  have "unat (sz + 8) = unat sz + 8" using assms(2) by (intro unat_add_numeral) simp
  moreover have "unat (sz + 8) < unat (slab_size_by_index (of_nat r))"
  proof -
    obtain r' where r': "r' \<le> 8" "best_fit_slab_index (sz + 8) = of_nat r'"
      "r' < 8 \<longrightarrow> unat (sz + 8) < unat (slab_size_by_index (of_nat r'))"
      using best_fit_slab_index_range [of "sz + 8"] by blast
    have "unat (of_nat r' :: u64) = r'" using r'(1) by (intro unat_of_nat64) simp
    then have "r' = r" using r'(2) S(3) ur by metis
    then show ?thesis using r'(3) S(2) by simp
  qed
  ultimately show fit: "16 + unat sz \<le> s" using S(4) by linarith
  have i: "?i < N" by (rule next_slot_less [OF S(5)])
  note U = unat_slot(1,2) [OF R(1) i]
  let ?p = "slot c s ?i + 8"
  have pn: "?p \<noteq> NULL"
  proof -
    have "unat ?p = unat (slot c s ?i) + 8" using U fit by (intro unat_add_numeral) linarith
    then show ?thesis by (auto simp flip: unat_eq_0)
  qed
  have sn: "?slab \<noteq> NULL" using R(1) by (simp add: slab_geometry_def)
  show "penguin_malloc h sz = Some (slot c s ?i + 16, h\<lparr>pmem := wr64 (after_alloc (pmem h) ?slab c N s n fs) ?p (of_nat r)\<rparr>)"
    using S(1) ur rb sn slab_alloc_eq [OF S(5)] pn
    by (simp add: penguin_malloc_def Let_def sizeof_malloc_header_def S(3) add.assoc)
qed

lemma free_small_eq:
  assumes "slab_rep (pmem h) (global_slabs h ! r) c N s n fs ff" "i \<in> live n fs" "16 \<le> s"
    and "r < length (global_slabs h)" "r < 8" "rd64 (pmem h) (slot c s i + 8) = of_nat r"
  shows "penguin_free h (slot c s i + 16) = Some (h\<lparr>pmem := after_free (pmem h) c s i\<rparr>)"
proof -
  note R = slab_repD [OF assms(1)]
  have i: "i < N" using assms(2) R(2) by (simp add: live_def)
  have ur: "unat (of_nat r :: u64) = r" using assms(5) by (intro unat_of_nat64) simp
  have rb: "(of_nat r :: u64) \<noteq> BUDDY_INDEX" using assms(5) ur by (auto simp: BUDDY_INDEX_def)
  have "unat (slot c s i + 16) = unat (slot c s i) + 16"
    using unat_slot(1,2) [OF R(1) i] assms(3) by (intro unat_add_numeral) linarith
  then have nz: "slot c s i + 16 \<noteq> NULL" by (auto simp flip: unat_eq_0)
  have sn: "global_slabs h ! r \<noteq> NULL" using R(1) by (simp add: slab_geometry_def)
  have undo: "slot c s i + 16 - 8 = slot c s i + 8" by simp
  show ?thesis
    using nz ur rb sn assms(4,6) slab_free_eq [OF assms(1,2)]
    unfolding penguin_free_def Let_def sizeof_malloc_header_def undo by simp
qed

text \<open>A store into the second header of a slot in use, seen from the other slots.\<close>

lemma keeps_header_write:
  assumes "slab_rep m alloc c N s n fs ff" "i \<in> live n fs" "i \<notin> L" "L \<subseteq> live n fs" "16 \<le> s"
  shows "keeps_slots m (wr64 m (slot c s i + 8) v) c s L"
  unfolding keeps_slots_def
proof (intro ballI allI impI)
  note R = slab_repD [OF assms(1)]
  fix j x assume j: "j \<in> L" "in_region (slot c s j) s x"
  then have jn: "j < N" "i < N" "j \<noteq> i" using assms(2-4) R(2) by (auto simp: live_def)
  have "unat (slot c s i + 8) = unat (slot c s i) + 8"
    using unat_slot(1,2) [OF R(1) jn(2)] assms(5) by (intro unat_add_numeral) linarith
  then show "wr64 m (slot c s i + 8) v x = m x"
    using slots_apart [OF R(1) jn] j(2) unat_slot(1,2) [OF R(1) jn(2)] assms(5)
    by (intro wr64_out) (auto simp: in_region_def)
qed

text \<open>
  \<open>malloc\<close> of a size below a page minus its header, when the slab of that size has a free
  slot, returns the address behind the two headers of a slot that was not in use; the size fits
  between it and the end of the slot, the slots in use keep their bytes, and \<open>free\<close> of the
  address returns and leaves exactly the objects in use that were in use before.
\<close>

theorem malloc_free_roundtrip:
  assumes "serves h sz r c N s n fs True" "unat sz < 4088"
  shows "\<exists>p h' i n' fs' ff. penguin_malloc h sz = Some (p, h') \<and> i < N \<and> i \<notin> live n fs
    \<and> p = slot c s i + 8 + 8 \<and> 16 + unat sz \<le> s
    \<and> keeps_slots (pmem h) (pmem h') c s (live n fs)
    \<and> serves h' sz r c N s n' fs' ff \<and> live n' fs' = insert i (live n fs)
    \<and> (\<exists>h''. penguin_free h' p = Some h'' \<and> serves h'' sz r c N s n' (i # fs') ff
         \<and> live n' (i # fs') = live n fs
         \<and> keeps_slots (pmem h) (pmem h'') c s (live n fs))"
proof -
  let ?slab = "global_slabs h ! r" and ?i = "next_slot n fs"
  have S: "r < length (global_slabs h)" "r < 8" "slab_rep (pmem h) ?slab c N s n fs True"
    using assms(1) by (auto simp: serves_def)
  note R = slab_repD [OF S(3)] and E = malloc_small_eq [OF assms]
  have s16: "16 \<le> s" using E(2) by simp
  have i: "?i < N" by (rule next_slot_less [OF S(3)])
  note rep = slab_alloc_rep [OF S(3)]
  let ?n = "next_carved n fs" and ?fs = "tl fs" and ?ff = "Suc (n - length fs) \<noteq> N"
  have il: "?i \<in> live ?n ?fs" using rep(2) by simp
  let ?m1 = "after_alloc (pmem h) ?slab c N s n fs" and ?p = "slot c s ?i + 8"
  have up: "unat ?p = unat (slot c s ?i) + 8"
    using unat_slot(1,2) [OF R(1) i] s16 by (intro unat_add_numeral) linarith
  define h' where "h' = h\<lparr>pmem := wr64 ?m1 ?p (of_nat r)\<rparr>"
  have rep2: "slab_rep (pmem h') (global_slabs h' ! r) c N s ?n ?fs ?ff"
    using slab_user_write [OF rep(1) il s16 up] by (simp add: h'_def)
  have "keeps_slots ?m1 (pmem h') c s (live n fs)"
    using rep(3) keeps_header_write [OF rep(1) il _ _ s16, of "live n fs"] by (auto simp: h'_def rep(2))
  then have k: "keeps_slots (pmem h) (pmem h') c s (live n fs)"
    using slab_alloc_keeps [OF S(3)] by (simp add: keeps_slots_def)
  define h'' where "h'' = h'\<lparr>pmem := after_free (pmem h') c s ?i\<rparr>"
  have f: "penguin_free h' (slot c s ?i + 16) = Some h''"
    unfolding h''_def using S(1,2) by (intro free_small_eq [OF rep2 il s16]) (simp_all add: h'_def)
  note rep3 = slab_free_rep [OF rep2 il]
  have lv: "live ?n (?i # ?fs) = live n fs" using rep3(2) rep(2,3) by auto
  have k3: "keeps_slots (pmem h) (pmem h'') c s (live n fs)"
    using rep3(3) rep(2,3) k by (simp add: keeps_slots_def h''_def)
  have "serves h' sz r c N s ?n ?fs ?ff" "serves h'' sz r c N s ?n (?i # ?fs) ?ff"
    using assms(1) rep2 rep3(1) by (auto simp: serves_def h'_def h''_def)
  then show ?thesis
    using E(1) i rep(2,3) E(2) k f lv k3
    by (intro exI [of _ "slot c s ?i + 16"] exI [of _ h'] exI [of _ ?i] exI [of _ ?n] exI [of _ ?fs] exI [of _ ?ff])
      (auto simp: h'_def add.assoc)
qed

lemma demo_heap_slab:
  obtains m where "slab_rep m 4096 4144 10 40 0 [] True"
proof -
  have "rd64 (wr64 (\<lambda>_. 0) 4128 40) x = 0" if "unat x \<le> 4120" for x
  proof -
    have "rd64 (wr64 (\<lambda>_. 0) 4128 40) x = rd64 (\<lambda>_. 0) x" using that by (intro rd64_wr64_apart) auto
    then show ?thesis by (simp add: rd64_def)
  qed
  then have "\<exists>m'. slab_cache_init (wr64 (\<lambda>_. 0) 4128 40) 4096 (4096 + 48) (4096 + 120 + of_nat 400) = Some m'
    \<and> slab_rep m' 4096 (4096 + 48) 10 40 0 [] True \<and> (\<forall>x. \<not> in_region 4096 120 x \<longrightarrow> m' x = wr64 (\<lambda>_. 0) 4128 40 x)"
    by (intro slab_cache_init_root [where r = 400]) simp_all
  then show ?thesis using that by auto
qed

theorem malloc_free_roundtrip_witness:
  "\<exists>h p h' h''. penguin_malloc h 20 = Some (p, h') \<and> penguin_free h' p = Some h''
    \<and> serves h 20 0 4144 10 40 0 [] True \<and> (\<exists>n fs ff. serves h'' 20 0 4144 10 40 n fs ff \<and> live n fs = {})"
proof -
  obtain m where m: "slab_rep m 4096 4144 10 40 0 [] True" by (rule demo_heap_slab)
  define h where "h = \<lparr>pmem = m, global_buddy = 0, global_slabs = [4096]\<rparr>"
  have "best_fit_slab_index 28 = 0"
    by (simp add: best_fit_slab_index_def best_fit_loop.simps BUDDY_INDEX_def slab_size_by_index_def push_bit_eq_mult
        word_less_nat_alt)
  then have s: "serves h 20 0 4144 10 40 0 [] True"
    using m by (simp add: serves_def h_def slab_size_by_index_def push_bit_eq_mult)
  moreover have "live 0 [] = {}" by (simp add: live_def)
  ultimately show ?thesis using malloc_free_roundtrip [OF s] by fastforce
qed

subsection \<open>Large sizes\<close>

text \<open>
  C39: \<open>malloc\<close> of two pages does not have the memory it promises: in every reachable state of a
  buddy allocator with at least 16 pages, a request for 8192 bytes, which with its header needs three pages, is served with
  a block of two pages, whose end lies eight bytes before the end of the memory asked for.
\<close>

theorem malloc_two_pages_too_small:
  assumes "buddy_reach (global_buddy h) k (pmem h) A" "4 \<le> k"
    and "penguin_malloc h 8192 = Some (p, h')" "p \<noteq> NULL"
  shows "\<exists>i<2 ^ (k - 1). p = bptr (pmem h) (global_buddy h) (k - 1) i + 8
    \<and> unat p + 8192 = block_addr (pool_begin (load_buddy (pmem h) (global_buddy h))) k (k - 1) i
        + 4096 * unat (block_size (of_nat (k - 1)) (root_block_size (load_buddy (pmem h) (global_buddy h)))) + 8"
proof -
  let ?a = "global_buddy h" and ?m = "pmem h"
  obtain s where s: "buddy_rep ?m ?a k s" "tree_inv k s A" by (rule buddy_reachE [OF assms(1)])
  note lay = rep_layout [OF s(1)]
  note pl = layoutD(6) [OF lay]
  note small = best_fit_layer_too_small [OF pl assms(2)]
  obtain r where r: "r \<le> 8" "best_fit_slab_index 8200 = of_nat r" "r = 8 \<longleftrightarrow> (4096::nat) \<le> unat (8200 :: u64)"
    using best_fit_slab_index_range [of 8200] by blast
  then have idx: "best_fit_slab_index 8200 = BUDDY_INDEX" by (simp add: BUDDY_INDEX_def)
  have pc: "to_pages_count 8200 = 3" by (simp add: to_pages_count_def PAGE_SIZE_def)
  have nz: "(3 :: u64) \<noteq> 0" by simp
  obtain q m' where q: "buddy_alloc ?m ?a 3 = Some (q, m')" "q \<noteq> NULL" "p = q + 8"
    using assms(3,4) by (auto simp: penguin_malloc_def Let_def sizeof_malloc_header_def idx pc split: option.splits if_splits)
  from s nz show ?thesis
  proof (cases rule: buddy_alloc_cases)
    case (full bf)
    with q show ?thesis by simp
  next
    case (served bf i m'' s')
    have "of_nat bf = (of_nat (k - 1) :: u64)" using served(1) small by simp
    moreover have "unat (of_nat bf :: u64) = bf" "unat (of_nat (k - 1) :: u64) = k - 1"
      using served(2) layoutD(7) [OF lay] by (auto simp: unat_of_nat64)
    ultimately have bf: "bf = k - 1" by metis
    have qp: "q = bptr ?m ?a (k - 1) i" using served(4) q(1) bf by simp
    have i: "i < 2 ^ (k - 1)" using served(3) bf by simp
    note B = bptr_bounds(2) [OF lay diff_le_self i] and ub = unat_bptr [OF lay diff_le_self i]
    have "unat q + 4096 \<le> 18446744073709551616" using B pl qp by (simp add: pool_def)
    then have "unat p = unat q + 8" unfolding q(3) by (intro unat_add_numeral) simp
    then show ?thesis using small i qp q(3) ub by auto
  qed
qed

lemma demo_alloc3: "\<exists>p h'. penguin_malloc \<lparr>pmem = demo_mem, global_buddy = 8, global_slabs = []\<rparr> 8192 = Some (p, h') \<and> p \<noteq> NULL"
proof -
  have idx: "best_fit_slab_index 8200 = BUDDY_INDEX"
    using best_fit_slab_index_range [of 8200] by (auto simp: BUDDY_INDEX_def)
  have pc: "to_pages_count 8200 = 3" by (simp add: to_pages_count_def PAGE_SIZE_def)
  have nz: "(3 :: u64) \<noteq> 0" by simp
  have "\<exists>p m'. buddy_alloc demo_mem 8 3 = Some (p, m') \<and> p \<noteq> NULL \<and> p + 8 \<noteq> NULL"
    using demo_rep tree_inv_init nz
  proof (cases rule: buddy_alloc_cases)
    case (full l)
    then show ?thesis by (auto simp: init_abs_def)
  next
    case (served l i m' s')
    have "unat (bptr demo_mem 8 l i) + 4096 \<le> 8192 + 2 ^ 4 * 4096"
      using bptr_bounds(2) [OF demo_layout served(2,3)] by (simp add: demo_load)
    then have "unat (bptr demo_mem 8 l i + 8) = unat (bptr demo_mem 8 l i) + 8" by (intro unat_add_numeral) simp
    then have "bptr demo_mem 8 l i + 8 \<noteq> NULL" by (auto simp flip: unat_eq_0)
    then show ?thesis using served(4,5) by blast
  qed
  then show ?thesis by (auto simp: penguin_malloc_def Let_def sizeof_malloc_header_def idx pc)
qed

theorem malloc_two_pages_too_small_witness:
  "\<exists>p h' i. penguin_malloc \<lparr>pmem = demo_mem, global_buddy = 8, global_slabs = []\<rparr> 8192 = Some (p, h')
    \<and> p = bptr demo_mem 8 3 i + 8"
proof -
  obtain p h' where p: "penguin_malloc \<lparr>pmem = demo_mem, global_buddy = 8, global_slabs = []\<rparr> 8192 = Some (p, h')"
    "p \<noteq> NULL" using demo_alloc3 by blast
  show ?thesis
    using malloc_two_pages_too_small [of "\<lparr>pmem = demo_mem, global_buddy = 8, global_slabs = []\<rparr>" 4 "{}" p h']
      p demo_reach by auto
qed

lemma mod_nat_wrap: "18446744073709551608 \<le> (n::nat) \<Longrightarrow> n < 18446744073709551616
    \<Longrightarrow> (n + 8) mod 18446744073709551616 = n - 18446744073709551608"
  by (simp add: le_mod_geq)

text \<open>
  A size within eight bytes of \<open>SIZE_MAX\<close> wraps around when the header is added: the request
  is treated like one of less than eight bytes and served, with an object of 32 bytes, by the first
  slab whenever that has a free slot.
\<close>

theorem malloc_size_wraps:
  assumes "18446744073709551608 \<le> unat sz" "0 < length (global_slabs h)"
    and "slab_rep (pmem h) (global_slabs h ! 0) c N 40 n fs True"
  shows "\<exists>h' i. penguin_malloc h sz = Some (slot c 40 i + 16, h') \<and> i < N \<and> i \<notin> live n fs"
proof -
  let ?slab = "global_slabs h ! 0"
  note R = slab_repD [OF assms(3)]
  have "unat (sz + 8) < 8"
  proof -
    have "unat (sz + 8) = unat sz + 8 - 18446744073709551616"
      using assms(1) unat_lt64 [of sz] by (simp add: unat_word_ariths mod_nat_wrap)
    then show ?thesis using unat_lt64 [of sz] by linarith
  qed
  then have "sz + 8 < slab_size_by_index 0"
    by (simp add: word_less_nat_alt slab_size_by_index_def push_bit_eq_mult)
  then have idx: "best_fit_slab_index (sz + 8) = 0"
    by (simp add: best_fit_slab_index_def best_fit_loop.simps BUDDY_INDEX_def)
  have i: "next_slot n fs < N" by (rule next_slot_less [OF assms(3)])
  have sn: "?slab \<noteq> NULL" using R(1) by (simp add: slab_geometry_def)
  have "unat (slot c 40 (next_slot n fs) + 8) = unat (slot c 40 (next_slot n fs)) + 8"
    using unat_slot(1,2) [OF R(1) i] by (intro unat_add_numeral) linarith
  then have pn: "slot c 40 (next_slot n fs) + 8 \<noteq> NULL" by (auto simp flip: unat_eq_0)
  have "penguin_malloc h sz = Some (slot c 40 (next_slot n fs) + 16,
      h\<lparr>pmem := wr64 (after_alloc (pmem h) ?slab c N 40 n fs) (slot c 40 (next_slot n fs) + 8) 0\<rparr>)"
    using assms(2) sn pn slab_alloc_eq [OF assms(3)]
    by (simp add: penguin_malloc_def Let_def sizeof_malloc_header_def idx BUDDY_INDEX_def)
  then show ?thesis using i slab_alloc_rep(3) [OF assms(3)] by blast
qed

theorem malloc_size_wraps_witness:
  "\<exists>h h' i. penguin_malloc h 18446744073709551615 = Some (slot 4144 40 i + 16, h') \<and> i < 10"
proof -
  obtain m where m: "slab_rep m 4096 4144 10 40 0 [] True" by (rule demo_heap_slab)
  show ?thesis
    using malloc_size_wraps [of 18446744073709551615 "\<lparr>pmem = m, global_buddy = 0, global_slabs = [4096]\<rparr>" 4144 10 0 "[]"] m
    by auto
qed

end
