(* ===== verification/Penguin_Heap.thy ===== *)
theory Penguin_Heap
  imports Penguin_Props Buddy_Init
begin

section \<open>The heap as one system\<close>

text \<open>
  The composition of the eight slabs with the buddy allocator below them. A state of the heap is
  related to the set of the objects in use: small objects, slots of the root caches of the slabs, and
  large objects, blocks of the buddy allocator. The caches of the slabs are themselves blocks in use
  of the buddy allocator, so that everything a slab does is, for the buddy allocator, a write of a
  user into its own block.
\<close>

subsection \<open>Memory that changes inside one block or one cache\<close>

text \<open>A change of the memory is a sequence of changes of single bytes.\<close>

lemma bytewise_induct:
  fixes m m' :: mem
  assumes "P m" "\<And>m1 x. P m1 \<Longrightarrow> m' x \<noteq> m x \<Longrightarrow> P (m1(x := m' x))"
  shows "P m'"
proof -
  define ov where "ov D = (\<lambda>x. if x \<in> D then m' x else m x)" for D
  have fin: "finite {x. m' x \<noteq> m x}" by (rule finite_subset [OF subset_UNIV finite])
  have all: "D \<subseteq> {x. m' x \<noteq> m x} \<Longrightarrow> P (ov D)" if "finite D" for D
    using that
  proof (induction D)
    case empty
    then show ?case using assms(1) by (simp add: ov_def)
  next
    case (insert x D)
    have e: "ov (insert x D) = (ov D)(x := m' x)" by (auto simp: ov_def)
    show ?case unfolding e using insert by (intro assms(2)) auto
  qed
  have "ov {x. m' x \<noteq> m x} = m'" by (auto simp: ov_def)
  then show ?thesis using all [OF fin order_refl] by simp
qed

lemma reach_writes:
  assumes "buddy_reach alloc k m A" "b \<in> A"
    and "\<And>x. \<not> in_block (pool_begin (load_buddy m alloc)) k b x \<Longrightarrow> m' x = m x"
  shows "buddy_reach alloc k m' A \<and> load_buddy m' alloc = load_buddy m alloc"
proof (rule bytewise_induct [where m = m and m' = m'])
  fix m1 x
  assume IH: "buddy_reach alloc k m1 A \<and> load_buddy m1 alloc = load_buddy m alloc" and "m' x \<noteq> m x"
  then have x: "in_block (pool_begin (load_buddy m1 alloc)) k b x" using assms(3) by metis
  have st: "buddy_step alloc k (m1, A) (m1(x := m' x), A)" by (rule buddy_step.user_write [OF assms(2) x])
  obtain s where s: "buddy_rep m1 alloc k s" using IH buddy_reachE by blast
  have "unat alloc + 48 \<le> unat x"
    using layoutD(3-5) [OF rep_layout [OF s]] in_block_pool [OF x] by linarith
  then have "load_buddy (m1(x := m' x)) alloc = load_buddy m1 alloc" by (rule load_buddy_upd)
  then show "buddy_reach alloc k (m1(x := m' x)) A \<and> load_buddy (m1(x := m' x)) alloc = load_buddy m alloc"
    using buddy_reach.step [OF conjunct1 [OF IH] st] IH by (simp del: fun_upd_apply)
qed (simp add: assms(1))

lemma rep_writes:
  assumes "buddy_rep m alloc k s" "tree_inv k s A" "b \<in> A"
    and "\<And>x. \<not> in_block (pool_begin (load_buddy m alloc)) k b x \<Longrightarrow> m' x = m x"
  shows "buddy_rep m' alloc k s"
proof -
  have "buddy_rep m' alloc k s \<and> load_buddy m' alloc = load_buddy m alloc"
  proof (rule bytewise_induct [where m = m and m' = m'])
    fix m1 x
    assume IH: "buddy_rep m1 alloc k s \<and> load_buddy m1 alloc = load_buddy m alloc" and "m' x \<noteq> m x"
    then have x: "in_block (pool_begin (load_buddy m1 alloc)) k b x" using assms(4) by metis
    have "unat alloc + 48 \<le> unat x"
      using layoutD(3-5) [OF rep_layout [OF conjunct1 [OF IH]]] in_block_pool [OF x] by linarith
    then have "load_buddy (m1(x := m' x)) alloc = load_buddy m1 alloc" by (rule load_buddy_upd)
    then show "buddy_rep (m1(x := m' x)) alloc k s \<and> load_buddy (m1(x := m' x)) alloc = load_buddy m alloc"
      using rep_user_write [OF conjunct1 [OF IH] assms(2,3) x] IH by (simp del: fun_upd_apply)
  qed (simp add: assms(1))
  then show ?thesis by blast
qed

text \<open>The memory of a slab: its two structs and its slots.\<close>

lemma slab_rep_same:
  assumes "slab_rep m alloc c N s n fs ff" "\<And>x. in_region alloc (120 + N * s) x \<Longrightarrow> m' x = m x"
  shows "slab_rep m' alloc c N s n fs ff"
proof -
  note R = slab_repD [OF assms(1)]
  note F = fields [OF R(1)] and A = slab_addresses [OF R(1)]
  have g: "unat alloc + 120 + N * s < 18446744073709551616" "8 \<le> s" using R(1) by (simp_all add: slab_geometry_def)
  have fld: "rd64 m' x = rd64 m x" if "field alloc x" for x
    using that g assms(2) by (intro rd64_same_on) (auto simp: field_def same_on_def in_region_def)
  have slt: "rd64 m' (slot c s i) = rd64 m (slot c s i)" if "i < N" for i
  proof (rule rd64_same_on)
    have "Suc i * s \<le> N * s" using that by (intro mult_right_mono) auto
    then show "same_on (slot c s i) 8 m' m"
      using unat_slot(1) [OF R(1) that] g(2) assms(2) by (auto simp: same_on_def in_region_def)
  qed (rule slot_cell [OF R(1) that])
  have root: "m' (c + 64) = m (c + 64)" using assms(2) A(10) by (simp add: in_region_def)
  have "chain m' (rd64 m (c + 40)) (map (slot c s) fs)"
  proof (subst chain_cong [of _ _ m])
    fix x assume "x \<in> set (map (slot c s) fs)"
    then obtain l where "l \<in> set fs" "x = slot c s l" by auto
    moreover from this have "l < N" using subsetD [OF R(4), of l] R(2) by auto
    ultimately show "rd64 m' x = rd64 m x" using slt by simp
  qed (fact R(6))
  moreover have "slab_geometry m' alloc c N s" using R(1) fld F root by (simp add: slab_geometry_def)
  moreover have "rd64 m' (slot c s j) = c" if "j \<in> live n fs" for j
    using that R(2,11) slt by (auto simp: live_def)
  ultimately show ?thesis using R fld F unfolding slab_rep_def by simp
qed

lemma slab_write_out:
  assumes "slab_geometry m alloc c N s" "\<not> in_region alloc (120 + N * s) x"
    and "field alloc a \<or> (\<exists>i<N. a = slot c s i)"
  shows "wr64 m' a v x = m' x"
proof (rule wr64_out)
  have s: "8 \<le> s" using assms(1) by (simp add: slab_geometry_def)
  show "unat a + 8 \<le> 18446744073709551616"
    using assms(1,3) slot_cell [OF assms(1)] by (auto simp: field_def slab_geometry_def)
  have "unat alloc \<le> unat a \<and> unat a + 8 \<le> unat alloc + (120 + N * s)"
    using assms(3)
  proof
    assume "\<exists>i<N. a = slot c s i"
    then obtain i where i: "i < N" "a = slot c s i" by blast
    then have "Suc i * s \<le> N * s" by (intro mult_right_mono) auto
    then show ?thesis using unat_slot(1) [OF assms(1) i(1)] s i(2) by auto
  qed (auto simp: field_def)
  then show "\<not> in_region a 8 x" using assms(2) by (auto simp: in_region_def)
qed

lemma after_alloc_out:
  assumes "slab_rep m alloc c N s n fs True" "\<not> in_region alloc (120 + N * s) x"
  shows "after_alloc m alloc c N s n fs x = m x"
proof -
  note g = slab_repD(1) [OF assms(1)]
  have "wr64 m' (slot c s (next_slot n fs)) c x = m' x" for m'
    using next_slot_less [OF assms(1)] by (intro slab_write_out [OF g assms(2)]) blast
  then show ?thesis
    using fields [OF g] slab_write_out [OF g assms(2)]
    by (simp add: after_alloc_def after_count_def Let_def split: list.split)
qed

lemma after_free_out:
  assumes "slab_rep m alloc c N s n fs ff" "i \<in> live n fs" "\<not> in_region alloc (120 + N * s) x"
  shows "after_free m c s i x = m x"
proof -
  note R = slab_repD [OF assms(1)]
  have "i < N" using assms(2) R(2) by (simp add: live_def)
  then have "wr64 m' (slot c s i) v x = m' x" for m' v by (intro slab_write_out [OF R(1) assms(3)]) blast
  then show ?thesis using fields [OF R(1)] slab_write_out [OF R(1) assms(3)] by (simp add: after_free_def)
qed

subsection \<open>The objects in use\<close>

text \<open>A slot \<open>i\<close> of the slab \<open>r\<close>, or the block \<open>i\<close> of layer \<open>l\<close>.\<close>

datatype heap_object = Small nat nat | Large nat nat

text \<open>The size of a slot of slab \<open>r\<close> and the number of slots of its root cache of 64 pages.\<close>

definition osize :: "nat \<Rightarrow> nat" where "osize r = 32 * 2 ^ r + 8"
definition ocount :: "nat \<Rightarrow> nat" where "ocount r = 262024 div osize r"

definition slab_blocks :: "nat \<Rightarrow> nat list \<Rightarrow> block set" where
  "slab_blocks k js = (\<lambda>j. (k - 6, j)) ` set js"

definition large_blocks :: "heap_object set \<Rightarrow> block set" where
  "large_blocks U = {(l, i). Large l i \<in> U}"

text \<open>
  What the user of an object gets: an address and a number of bytes; and the object that \<open>malloc\<close>
  of \<open>sz\<close> bytes has returned at \<open>p\<close>.
\<close>

fun obj_addr :: "pm_state \<Rightarrow> heap_object \<Rightarrow> ptr" where
  "obj_addr h (Small r i) = slot (global_slabs h ! r + 48) (osize r) i + 16"
| "obj_addr h (Large l i) = bptr (pmem h) (global_buddy h) l i + 8"

fun obj_size :: "nat \<Rightarrow> heap_object \<Rightarrow> nat" where
  "obj_size k (Small r i) = osize r - 16"
| "obj_size k (Large l i) = 2 ^ (k - l) * 4096 - 8"

definition malloc_object :: "pm_state \<Rightarrow> u64 \<Rightarrow> ptr \<Rightarrow> heap_object" where
  "malloc_object h sz p =
     (let r = unat (best_fit_slab_index (sz + 8)) in
      if r < 8 then Small r ((unat p - unat (global_slabs h ! r) - 136) div osize r)
      else case served_block (pmem h) (global_buddy h) (to_pages_count (sz + 8)) (p - 8) of (l, i) \<Rightarrow> Large l i)"

definition in_object :: "nat \<Rightarrow> pm_state \<Rightarrow> heap_object \<Rightarrow> ptr \<Rightarrow> bool" where
  "in_object k h ob x \<longleftrightarrow> in_region (obj_addr h ob) (obj_size k ob) x"

text \<open>
  The slabs lie at the starts of the blocks \<open>js\<close> of 64 pages; these and the large objects are the
  blocks in use of the buddy allocator; the small objects are the live slots of the root caches; and
  every object has its slab, or the number of the buddy allocator, in its header.
\<close>

definition slab_state :: "mem \<Rightarrow> ptr \<Rightarrow> nat \<Rightarrow> nat set \<Rightarrow> bool" where
  "slab_state m slab r L \<longleftrightarrow>
     (\<exists>n fs ff. slab_rep m slab (slab + 48) (ocount r) (osize r) n fs ff \<and> live n fs = L)
     \<and> (\<forall>i\<in>L. rd64 m (slot (slab + 48) (osize r) i + 8) = of_nat r)"

definition heap_rep :: "nat \<Rightarrow> pm_state \<Rightarrow> nat list \<Rightarrow> heap_object set \<Rightarrow> bool" where
  "heap_rep k h js U \<longleftrightarrow>
     6 \<le> k \<and> length js = 8 \<and> distinct js \<and> slab_blocks k js \<inter> large_blocks U = {}
     \<and> buddy_reach (global_buddy h) k (pmem h) (slab_blocks k js \<union> large_blocks U)
     \<and> global_slabs h = map (bptr (pmem h) (global_buddy h) (k - 6)) js
     \<and> (\<forall>r<8. slab_state (pmem h) (global_slabs h ! r) r {i. Small r i \<in> U})
     \<and> (\<forall>r i. Small r i \<in> U \<longrightarrow> r < 8)
     \<and> (\<forall>l i. Large l i \<in> U \<longrightarrow> rd64 (pmem h) (bptr (pmem h) (global_buddy h) l i) = BUDDY_INDEX)"

lemma heap_repD:
  assumes "heap_rep k h js U"
  shows "6 \<le> k" "length js = 8" "distinct js" "slab_blocks k js \<inter> large_blocks U = {}"
    "buddy_reach (global_buddy h) k (pmem h) (slab_blocks k js \<union> large_blocks U)"
    "global_slabs h = map (bptr (pmem h) (global_buddy h) (k - 6)) js"
    "\<And>r. r < 8 \<Longrightarrow> slab_state (pmem h) (global_slabs h ! r) r {i. Small r i \<in> U}"
    "\<And>r i. Small r i \<in> U \<Longrightarrow> r < 8"
    "\<And>l i. Large l i \<in> U \<Longrightarrow> rd64 (pmem h) (bptr (pmem h) (global_buddy h) l i) = BUDDY_INDEX"
  using assms by (auto simp: heap_rep_def)

lemma reach_layout:
  assumes "buddy_reach alloc k m A"
  shows "buddy_layout m alloc k" "\<And>l i. (l, i) \<in> A \<Longrightarrow> l \<le> k \<and> i < 2 ^ l"
proof -
  obtain s where s: "buddy_rep m alloc k s" "tree_inv k s A" by (rule buddy_reachE [OF assms])
  show "buddy_layout m alloc k" by (rule rep_layout [OF s(1)])
  show "\<And>l i. (l, i) \<in> A \<Longrightarrow> l \<le> k \<and> i < 2 ^ l" using partition_valid [OF tree_invD(3) [OF s(2)]] by blast
qed

lemma blocks_apart:
  assumes "buddy_reach alloc k m A" "b \<in> A" "c \<in> A" "b \<noteq> c" "in_block begin k b x"
  shows "\<not> in_block begin k c x"
  using reach_disjoint [OF assms(1,2,3,4)] in_block_page [OF assms(5)] in_block_page [of "begin" k c x]
  by (auto simp: disjoint_blocks_def)

lemma region_block:
  assumes "buddy_layout m alloc k" "l \<le> k" "i < 2 ^ l"
  shows "in_region (bptr m alloc l i) n x \<Longrightarrow> n \<le> 2 ^ (k - l) * 4096 \<Longrightarrow> in_block (pool_begin (load_buddy m alloc)) k (l, i) x"
    and "unat (bptr m alloc l i) + 2 ^ (k - l) * 4096 \<le> 18446744073709551616"
    and "in_block (pool_begin (load_buddy m alloc)) k (l, i) x \<longleftrightarrow> in_region (bptr m alloc l i) (2 ^ (k - l) * 4096) x"
proof -
  note u = unat_bptr [OF assms]
  show "in_region (bptr m alloc l i) n x \<Longrightarrow> n \<le> 2 ^ (k - l) * 4096 \<Longrightarrow> in_block (pool_begin (load_buddy m alloc)) k (l, i) x"
    using u by (simp add: in_region_def in_block_def)
  show "in_block (pool_begin (load_buddy m alloc)) k (l, i) x \<longleftrightarrow> in_region (bptr m alloc l i) (2 ^ (k - l) * 4096) x"
    using u by (simp add: in_region_def in_block_def)
  have "(i * 2 ^ (k - l) + 2 ^ (k - l)) * 4096 \<le> 2 ^ k * (4096 :: nat)"
    using block_inside [OF assms(2,3)] by (intro mult_le_mono1) simp
  moreover have "unat (pool_begin (load_buddy m alloc)) + 2 ^ k * 4096 \<le> 18446744073709551616"
    using layoutD(6) [OF assms(1)] by (simp add: pool_def)
  ultimately show "unat (bptr m alloc l i) + 2 ^ (k - l) * 4096 \<le> 18446744073709551616"
    unfolding u block_addr_def by (simp add: algebra_simps)
qed

lemma osize_bounds: "r < 8 \<Longrightarrow> 40 \<le> osize r \<and> osize r \<le> 4104 \<and> 120 + ocount r * osize r \<le> 262144 \<and> 1 \<le> ocount r"
proof -
  assume r: "r < 8"
  have "(2::nat) ^ r \<le> 2 ^ 7" using r by (intro power_increasing) auto
  then have o: "40 \<le> osize r" "osize r \<le> 4104" by (simp_all add: osize_def)
  have "ocount r * osize r \<le> 262024" unfolding ocount_def by (rule div_times_less_eq_dividend)
  moreover have "1 \<le> ocount r" using o div_le_mono2 [of "osize r" 4104 262024] by (simp add: ocount_def)
  ultimately show ?thesis using o by simp
qed

lemma slab_region:
  assumes "heap_rep k h js U" "r < 8"
  shows "(k - 6, js ! r) \<in> slab_blocks k js"
    "\<And>x. in_region (global_slabs h ! r) (120 + ocount r * osize r) x
      \<Longrightarrow> in_block (pool_begin (load_buddy (pmem h) (global_buddy h))) k (k - 6, js ! r) x"
    "global_slabs h ! r = bptr (pmem h) (global_buddy h) (k - 6) (js ! r)"
proof -
  note H = heap_repD [OF assms(1)]
  show b: "(k - 6, js ! r) \<in> slab_blocks k js" using assms(2) H(2) by (simp add: slab_blocks_def)
  show s: "global_slabs h ! r = bptr (pmem h) (global_buddy h) (k - 6) (js ! r)" using assms(2) H(2,6) by simp
  have v: "js ! r < 2 ^ (k - 6)" using reach_layout(2) [OF H(5)] b by blast
  have "2 ^ (k - (k - 6)) = (64 :: nat)" using H(1) by simp
  then show "in_block (pool_begin (load_buddy (pmem h) (global_buddy h))) k (k - 6, js ! r) x"
    if "in_region (global_slabs h ! r) (120 + ocount r * osize r) x" for x
    using that osize_bounds [OF assms(2)] unfolding s
    by (intro region_block(1) [OF reach_layout(1) [OF H(5)] diff_le_self v]) auto
qed

subsection \<open>Changes inside one slab\<close>

lemma live_slot:
  assumes "slab_rep m alloc c N s n fs ff" "i \<in> live n fs" "16 \<le> s"
  shows "i < N" "unat (slot c s i) = unat alloc + 120 + i * s" "unat alloc + 120 + i * s + s \<le> unat alloc + (120 + N * s)"
    "unat alloc + (120 + N * s) < 18446744073709551616" "unat (slot c s i + 8) = unat alloc + 120 + i * s + 8"
    "unat (slot c s i + 16) = unat alloc + 120 + i * s + 16"
proof -
  note R = slab_repD [OF assms(1)]
  show i: "i < N" using assms(2) R(2) by (simp add: live_def)
  show u: "unat (slot c s i) = unat alloc + 120 + i * s" by (rule unat_slot(1) [OF R(1) i])
  have "Suc i * s \<le> N * s" using i by (intro mult_right_mono) auto
  then show le: "unat alloc + 120 + i * s + s \<le> unat alloc + (120 + N * s)" by simp
  show g: "unat alloc + (120 + N * s) < 18446744073709551616" using R(1) by (simp add: slab_geometry_def)
  show "unat (slot c s i + 8) = unat alloc + 120 + i * s + 8" "unat (slot c s i + 16) = unat alloc + 120 + i * s + 16"
    using u le g assms(3) by (simp_all add: unat_add_numeral)
qed

lemma slab_state_same:
  assumes "slab_state m slab r L" "r < 8" "\<And>x. in_region slab (120 + ocount r * osize r) x \<Longrightarrow> m' x = m x"
  shows "slab_state m' slab r L"
proof -
  obtain n fs ff where R: "slab_rep m slab (slab + 48) (ocount r) (osize r) n fs ff" "live n fs = L"
    using assms(1) by (auto simp: slab_state_def)
  have s: "16 \<le> osize r" using osize_bounds [OF assms(2)] by simp
  have "rd64 m' (slot (slab + 48) (osize r) i + 8) = rd64 m (slot (slab + 48) (osize r) i + 8)" if "i \<in> L" for i
  proof (rule rd64_same_on)
    note V = live_slot [OF R(1), of i] and T = that [folded R(2)] s
    show "same_on (slot (slab + 48) (osize r) i + 8) 8 m' m"
      using V [OF T] s assms(3) by (auto simp: same_on_def in_region_def)
    show "unat (slot (slab + 48) (osize r) i + 8) + 8 \<le> 18446744073709551616"
      using V [OF T] s by linarith
  qed
  then show ?thesis using assms(1) slab_rep_same [OF R(1) assms(3)] R(2) unfolding slab_state_def by auto
qed

definition small_in :: "heap_object set \<Rightarrow> nat \<Rightarrow> nat set" where
  "small_in U r = {i. Small r i \<in> U}"

definition with_smalls :: "heap_object set \<Rightarrow> nat \<Rightarrow> nat set \<Rightarrow> heap_object set" where
  "with_smalls U r L = (U - range (Small r)) \<union> Small r ` L"

lemma with_smalls [simp]:
  "large_blocks (with_smalls U r L) = large_blocks U"
  "Small r' i \<in> with_smalls U r L \<longleftrightarrow> (if r' = r then i \<in> L else Small r' i \<in> U)"
  "Large l i \<in> with_smalls U r L \<longleftrightarrow> Large l i \<in> U"
  by (auto simp: with_smalls_def large_blocks_def)

lemma heap_slab_change:
  assumes "heap_rep k h js U" "r < 8"
    and out: "\<And>x. \<not> in_region (global_slabs h ! r) (120 + ocount r * osize r) x \<Longrightarrow> m' x = pmem h x"
    and st: "slab_state m' (global_slabs h ! r) r L"
  shows "heap_rep k (h\<lparr>pmem := m'\<rparr>) js (with_smalls U r L)"
    and "load_buddy m' (global_buddy h) = load_buddy (pmem h) (global_buddy h)"
proof -
  note H = heap_repD [OF assms(1)] and S = slab_region [OF assms(1,2)]
  let ?a = "global_buddy h" and ?A = "slab_blocks k js \<union> large_blocks U"
  let ?pb = "pool_begin (load_buddy (pmem h) ?a)"
  have bA: "(k - 6, js ! r) \<in> ?A" using S(1) by simp
  have "\<not> in_block ?pb k (k - 6, js ! r) x \<Longrightarrow> m' x = pmem h x" for x using S(2) out by blast
  from reach_writes [OF H(5) bA this]
  have reach: "buddy_reach ?a k m' ?A" and ld: "load_buddy m' ?a = load_buddy (pmem h) ?a" by blast+
  show "load_buddy m' ?a = load_buddy (pmem h) ?a" by (rule ld)
  have same: "m' x = pmem h x" if "b \<in> ?A" "b \<noteq> (k - 6, js ! r)" "in_block ?pb k b x" for b x
    using blocks_apart [OF H(5) that(1) bA that(2,3)] S(2) out by blast
  have other: "slab_state m' (global_slabs h ! r') r' {i. Small r' i \<in> U}" if "r' < 8" "r' \<noteq> r" for r'
  proof (rule slab_state_same [OF H(7) [OF that(1)] that(1)])
    fix x assume x: "in_region (global_slabs h ! r') (120 + ocount r' * osize r') x"
    note S' = slab_region [OF assms(1) that(1)]
    have "js ! r' \<noteq> js ! r" using H(2,3) that assms(2) by (simp add: nth_eq_iff_index_eq)
    then show "m' x = pmem h x" using S'(1) S'(2) [OF x] by (intro same) auto
  qed
  have hdr: "rd64 m' (bptr m' ?a l i) = BUDDY_INDEX" if "Large l i \<in> U" for l i
  proof -
    have b: "(l, i) \<in> large_blocks U" using that by (simp add: large_blocks_def)
    then have V: "l \<le> k" "i < 2 ^ l" using reach_layout(2) [OF H(5)] by auto
    have "(l, i) \<noteq> (k - 6, js ! r)" using b S(1) H(4) by blast
    then have "m' x = pmem h x" if "in_region (bptr (pmem h) ?a l i) 8 x" for x
    proof (rule same [rotated])
      have "(1::nat) \<le> 2 ^ (k - l)" by simp
      then have "(8::nat) \<le> 2 ^ (k - l) * 4096" by linarith
      then show "in_block ?pb k (l, i) x" by (rule region_block(1) [OF reach_layout(1) [OF H(5)] V that])
    qed (use b in simp)
    then have "rd64 m' (bptr (pmem h) ?a l i) = rd64 (pmem h) (bptr (pmem h) ?a l i)"
      using bptr_cell(1) [OF reach_layout(1) [OF H(5)] V] by (intro rd64_same_on) (auto simp: same_on_def cell_def in_region_def)
    then show ?thesis using H(9) [OF that] by (simp add: bptr_cong [OF ld])
  qed
  have "slab_state m' (global_slabs h ! r') r' {i. Small r' i \<in> with_smalls U r L}" if "r' < 8" for r'
    using other [OF that] st by (cases "r' = r") simp_all
  then show "heap_rep k (h\<lparr>pmem := m'\<rparr>) js (with_smalls U r L)"
    using H(1-4,6,8) reach hdr assms(2)
    by (auto simp: heap_rep_def bptr_cong [OF ld])
qed

subsection \<open>Objects are disjoint\<close>

text \<open>The block an object lies in.\<close>

fun oblock :: "nat \<Rightarrow> nat list \<Rightarrow> heap_object \<Rightarrow> block" where
  "oblock k js (Small r i) = (k - 6, js ! r)"
| "oblock k js (Large l i) = (l, i)"

lemma small_in_slot:
  assumes "heap_rep k h js U" "Small r i \<in> U"
  shows "\<exists>n fs ff. slab_rep (pmem h) (global_slabs h ! r) (global_slabs h ! r + 48) (ocount r) (osize r) n fs ff
      \<and> live n fs = small_in U r \<and> i \<in> live n fs"
    and "in_object k h (Small r i) x \<Longrightarrow> in_region (slot (global_slabs h ! r + 48) (osize r) i) (osize r) x"
    and "in_object k h (Small r i) x \<Longrightarrow> in_region (global_slabs h ! r) (120 + ocount r * osize r) x"
proof -
  have r: "r < 8" using heap_repD(8) [OF assms] .
  obtain n fs ff where R: "slab_rep (pmem h) (global_slabs h ! r) (global_slabs h ! r + 48) (ocount r) (osize r) n fs ff"
    "live n fs = small_in U r"
    using heap_repD(7) [OF assms(1) r] by (auto simp: slab_state_def small_in_def)
  then show "\<exists>n fs ff. slab_rep (pmem h) (global_slabs h ! r) (global_slabs h ! r + 48) (ocount r) (osize r) n fs ff
      \<and> live n fs = small_in U r \<and> i \<in> live n fs"
    using assms(2) by (auto simp: small_in_def)
  have s: "16 \<le> osize r" using osize_bounds [OF r] by simp
  note V = live_slot [OF R(1) _ s, of i]
  have i: "i \<in> live n fs" using R(2) assms(2) by (simp add: small_in_def)
  show "in_object k h (Small r i) x \<Longrightarrow> in_region (slot (global_slabs h ! r + 48) (osize r) i) (osize r) x"
    using V(2,6) [OF i] s by (auto simp: in_object_def in_region_def)
  show "in_object k h (Small r i) x \<Longrightarrow> in_region (global_slabs h ! r) (120 + ocount r * osize r) x"
    using V(3,6) [OF i] s by (auto simp: in_object_def in_region_def)
qed

lemma object_in_block:
  assumes "heap_rep k h js U" "ob \<in> U"
  shows "oblock k js ob \<in> slab_blocks k js \<union> large_blocks U"
    and "in_object k h ob x \<Longrightarrow> in_block (pool_begin (load_buddy (pmem h) (global_buddy h))) k (oblock k js ob) x"
proof -
  note H = heap_repD [OF assms(1)]
  show A: "oblock k js ob \<in> slab_blocks k js \<union> large_blocks U"
  proof (cases ob)
    case (Small r i)
    then show ?thesis using slab_region(1) [OF assms(1) H(8)] assms(2) by auto
  next
    case (Large l i)
    then show ?thesis using assms(2) by (simp add: large_blocks_def)
  qed
  assume x: "in_object k h ob x"
  show "in_block (pool_begin (load_buddy (pmem h) (global_buddy h))) k (oblock k js ob) x"
  proof (cases ob)
    case (Small r i)
    then have U: "Small r i \<in> U" using assms(2) by simp
    have "in_region (global_slabs h ! r) (120 + ocount r * osize r) x"
      using small_in_slot(3) [OF assms(1) U] x Small by simp
    then show ?thesis using slab_region(2) [OF assms(1) H(8) [OF U]] Small by simp
  next
    case (Large l i)
    then have V: "l \<le> k" "i < 2 ^ l" using A reach_layout(2) [OF H(5)] by auto
    have le: "(8::nat) \<le> 2 ^ (k - l) * 4096"
    proof -
      have "(1::nat) \<le> 2 ^ (k - l)" by simp
      then show ?thesis by linarith
    qed
    note lay = reach_layout(1) [OF H(5)]
    let ?p = "bptr (pmem h) (global_buddy h) l i"
    have "unat ?p + 4096 \<le> 18446744073709551616"
      using bptr_bounds(2) [OF lay V] layoutD(6) [OF lay] unfolding pool_def by linarith
    then have "unat (?p + 8) = unat ?p + 8" by (intro unat_add_numeral) simp
    then have "in_region ?p (2 ^ (k - l) * 4096) x"
      using x le by (simp add: Large in_object_def in_region_def)
    then show ?thesis using region_block(1) [OF lay V] by (simp add: Large)
  qed
qed

lemma object_in_pool:
  assumes "heap_rep k h js U" "ob \<in> U" "in_object k h ob x"
  shows "unat (pool_begin (load_buddy (pmem h) (global_buddy h))) \<le> unat x"
    "unat x < unat (pool_begin (load_buddy (pmem h) (global_buddy h))) + 2 ^ k * 4096"
proof -
  note B = object_in_block [OF assms(1,2)]
  obtain l i where li: "oblock k js ob = (l, i)" by fastforce
  then have V: "l \<le> k" "i < 2 ^ l" using reach_layout(2) [OF heap_repD(5) [OF assms(1)]] B(1) by auto
  have "(i * 2 ^ (k - l) + 2 ^ (k - l)) * 4096 \<le> 2 ^ k * 4096"
    using block_inside [OF V] by (intro mult_le_mono1) simp
  then show "unat (pool_begin (load_buddy (pmem h) (global_buddy h))) \<le> unat x"
    "unat x < unat (pool_begin (load_buddy (pmem h) (global_buddy h))) + 2 ^ k * 4096"
    using B(2) [OF assms(3)] by (simp_all add: li in_block_def block_addr_def algebra_simps)
qed

lemma objects_apart:
  assumes "heap_rep k h js U" "a \<in> U" "b \<in> U" "a \<noteq> b" "in_object k h a x"
  shows "\<not> in_object k h b x"
proof (cases "oblock k js a = oblock k js b")
  case False
  then show ?thesis
    using blocks_apart [OF heap_repD(5) [OF assms(1)] object_in_block(1) [OF assms(1,2)] object_in_block(1) [OF assms(1,3)]]
      object_in_block(2) [OF assms(1,2,5)] object_in_block(2) [OF assms(1,3)] by blast
next
  case True
  note H = heap_repD [OF assms(1)]
  have lg: "(l, i) \<notin> slab_blocks k js" if "Large l i \<in> U" for l i
    using that H(4) by (auto simp: large_blocks_def)
  have sm: "(k - 6, js ! r) \<in> slab_blocks k js" if "Small r i \<in> U" for r i
    using slab_region(1) [OF assms(1) H(8) [OF that]] .
  obtain r i j where ab: "a = Small r i" "b = Small r j" "i \<noteq> j"
  proof (cases a)
    case (Small r i)
    then obtain r' j where b: "b = Small r' j" using True lg sm assms(2,3) by (cases b) auto
    have "r = r'" using True Small b H(2,3) H(8) assms(2,3) by (simp add: nth_eq_iff_index_eq)
    then show ?thesis using that Small b assms(4) by simp
  next
    case (Large l i)
    then show ?thesis using True lg sm assms(2-4) by (cases b) auto
  qed
  obtain n fs ff where R: "slab_rep (pmem h) (global_slabs h ! r) (global_slabs h ! r + 48) (ocount r) (osize r) n fs ff"
    "live n fs = small_in U r" using small_in_slot(1) [OF assms(1)] assms(2) ab by blast
  have U: "Small r i \<in> U" "Small r j \<in> U" using assms(2,3) ab by simp_all
  then have "i \<in> live n fs" "j \<in> live n fs" unfolding R(2) by (simp_all add: small_in_def)
  then have "i < ocount r" "j < ocount r" using slab_repD(2) [OF R(1)] by (auto simp: live_def)
  note sl = slots_apart [OF slab_repD(1) [OF R(1)] this ab(3)]
  have "in_region (slot (global_slabs h ! r + 48) (osize r) i) (osize r) x"
    using small_in_slot(2) [OF assms(1) U(1)] assms(5) ab by simp
  moreover have "in_region (slot (global_slabs h ! r + 48) (osize r) j) (osize r) x" if "in_object k h b x"
    using small_in_slot(2) [OF assms(1) U(2)] that ab by simp
  ultimately show ?thesis using sl unfolding in_region_def by linarith
qed

subsection \<open>Small objects\<close>

text \<open>
  A slab has room when it has a first free cache: then \<open>malloc\<close> does not ask the buddy allocator
  for a further cache.
\<close>

definition slab_room :: "pm_state \<Rightarrow> nat \<Rightarrow> bool" where
  "slab_room h r \<longleftrightarrow> rd64 (pmem h) (global_slabs h ! r + 16) \<noteq> NULL"

text \<open>Nothing is written into the objects \<open>U\<close> and the struct of the buddy allocator, and nothing moves.\<close>

definition keeps_objects :: "nat \<Rightarrow> pm_state \<Rightarrow> pm_state \<Rightarrow> heap_object set \<Rightarrow> bool" where
  "keeps_objects k h h' U \<longleftrightarrow>
     global_buddy h' = global_buddy h \<and> global_slabs h' = global_slabs h
     \<and> load_buddy (pmem h') (global_buddy h) = load_buddy (pmem h) (global_buddy h)
     \<and> (\<forall>ob\<in>U. obj_addr h' ob = obj_addr h ob \<and> (\<forall>x. in_object k h ob x \<longrightarrow> pmem h' x = pmem h x))"

lemma heap_serves:
  assumes "heap_rep k h js U" "r < 8" "best_fit_slab_index (sz + 8) = of_nat r" "slab_room h r"
  shows "\<exists>n fs. serves h sz r (global_slabs h ! r + 48) (ocount r) (osize r) n fs True \<and> live n fs = small_in U r"
proof -
  note H = heap_repD [OF assms(1)]
  obtain n fs ff where R: "slab_rep (pmem h) (global_slabs h ! r) (global_slabs h ! r + 48) (ocount r) (osize r) n fs ff"
    "live n fs = small_in U r" using H(7) [OF assms(2)] by (auto simp: slab_state_def small_in_def)
  have "ff" using slab_repD(8) [OF R(1)] assms(4) by (simp add: slab_room_def split: if_splits)
  moreover have "r < length (global_slabs h)" using H(2,6) assms(2) by simp
  ultimately show ?thesis
    using R assms(2,3) by (auto simp: serves_def unat_slab_size osize_def)
qed

lemma small_objects_kept:
  assumes "heap_rep k h js U" "r < 8" "V \<subseteq> U"
    and out: "\<And>x. \<not> in_region (global_slabs h ! r) (120 + ocount r * osize r) x \<Longrightarrow> m' x = pmem h x"
    and slots: "keeps_slots (pmem h) m' (global_slabs h ! r + 48) (osize r) (small_in V r)"
    and ld: "load_buddy m' (global_buddy h) = load_buddy (pmem h) (global_buddy h)"
  shows "keeps_objects k h (h\<lparr>pmem := m'\<rparr>) V"
  unfolding keeps_objects_def
proof (intro conjI ballI allI impI)
  show "global_buddy (h\<lparr>pmem := m'\<rparr>) = global_buddy h" "global_slabs (h\<lparr>pmem := m'\<rparr>) = global_slabs h"
    by simp_all
  show "load_buddy (pmem (h\<lparr>pmem := m'\<rparr>)) (global_buddy h) = load_buddy (pmem h) (global_buddy h)"
    using ld by simp
  fix ob assume ob: "ob \<in> V"
  show "obj_addr (h\<lparr>pmem := m'\<rparr>) ob = obj_addr h ob" by (cases ob) (simp_all add: bptr_cong [OF ld])
  fix x assume x: "in_object k h ob x"
  note H = heap_repD [OF assms(1)]
  have U: "ob \<in> U" using ob assms(3) by blast
  show "pmem (h\<lparr>pmem := m'\<rparr>) x = pmem h x"
  proof (cases "\<exists>i. ob = Small r i")
    case True
    then obtain i where i: "ob = Small r i" by blast
    then have "in_region (slot (global_slabs h ! r + 48) (osize r) i) (osize r) x"
      using small_in_slot(2) [OF assms(1)] U x by simp
    then show ?thesis using slots ob i by (simp add: keeps_slots_def small_in_def)
  next
    case False
    have "oblock k js ob \<noteq> (k - 6, js ! r)"
    proof (cases ob)
      case (Small r' i)
      then have "r' < 8" "r' \<noteq> r" using H(8) U False by auto
      then show ?thesis using Small H(2,3) assms(2) by (simp add: nth_eq_iff_index_eq)
    next
      case (Large l i)
      then show ?thesis using slab_region(1) [OF assms(1,2)] H(4) U by (auto simp: large_blocks_def)
    qed
    then have "\<not> in_block (pool_begin (load_buddy (pmem h) (global_buddy h))) k (k - 6, js ! r) x"
      using slab_region(1) [OF assms(1,2)]
      by (intro blocks_apart [OF H(5) object_in_block(1) [OF assms(1) U] _ _ object_in_block(2) [OF assms(1) U x]]) auto
    then show ?thesis using slab_region(2) [OF assms(1,2)] out by auto
  qed
qed

lemma keep_slot_headers:
  assumes "slab_state m slab r L" "r < 8" "L' \<subseteq> L" "keeps_slots m m' (slab + 48) (osize r) L'"
    and "i \<in> L'"
  shows "rd64 m' (slot (slab + 48) (osize r) i + 8) = of_nat r"
proof -
  obtain n fs ff where R: "slab_rep m slab (slab + 48) (ocount r) (osize r) n fs ff" "live n fs = L"
    using assms(1) by (auto simp: slab_state_def)
  have s16: "16 \<le> osize r" using osize_bounds [OF assms(2)] by simp
  have il: "i \<in> live n fs" using assms(3,5) R(2) by blast
  note W = live_slot [OF R(1) il s16]
  have "rd64 m' (slot (slab + 48) (osize r) i + 8) = rd64 m (slot (slab + 48) (osize r) i + 8)"
    using assms(4,5) W(2,5) W(3,4) s16 by (intro rd64_same_on) (auto simp: keeps_slots_def same_on_def in_region_def)
  then show ?thesis using assms(1,3,5) by (auto simp: slab_state_def)
qed

lemma heap_malloc_small:
  assumes "heap_rep k h js U" "unat sz < 4088" "r < 8" "best_fit_slab_index (sz + 8) = of_nat r" "slab_room h r"
  shows "\<exists>i h'. penguin_malloc h sz = Some (obj_addr h' (Small r i), h') \<and> Small r i \<notin> U
    \<and> heap_rep k h' js (insert (Small r i) U) \<and> unat sz \<le> obj_size k (Small r i) \<and> keeps_objects k h h' U
    \<and> malloc_object h sz (obj_addr h' (Small r i)) = Small r i"
proof -
  let ?slab = "global_slabs h ! r" and ?N = "ocount r" and ?s = "osize r"
  note H = heap_repD [OF assms(1)]
  obtain n fs where S: "serves h sz r (?slab + 48) ?N ?s n fs True" "live n fs = small_in U r"
    using heap_serves [OF assms(1,3,4,5)] by blast
  have R: "slab_rep (pmem h) ?slab (?slab + 48) ?N ?s n fs True" using S(1) unfolding serves_def by blast
  note E = malloc_small_eq [OF S(1) assms(2)] and rep = slab_alloc_rep [OF R]
  let ?i = "next_slot n fs"
  let ?m1 = "after_alloc (pmem h) ?slab (?slab + 48) ?N ?s n fs" and ?p = "slot (?slab + 48) ?s ?i + 8"
  let ?m' = "wr64 ?m1 ?p (of_nat r)"
  have s16: "16 \<le> ?s" using osize_bounds [OF assms(3)] by simp
  have il: "?i \<in> live (next_carved n fs) (tl fs)" using rep(2) by simp
  note V = live_slot [OF rep(1) il s16]
  have up: "unat ?p = unat (slot (?slab + 48) ?s ?i) + 8" using V(2,5) by simp
  have rep': "slab_rep ?m' ?slab (?slab + 48) ?N ?s (next_carved n fs) (tl fs) (Suc (n - length fs) \<noteq> ?N)"
    by (rule slab_user_write [OF rep(1) il s16 up])
  have p8: "unat ?p + 8 \<le> 18446744073709551616" using V(3-5) s16 by linarith
  have out: "?m' x = pmem h x" if "\<not> in_region ?slab (120 + ?N * ?s) x" for x
  proof -
    have "?m' x = ?m1 x" using that p8 V(3-5) s16 by (intro wr64_out) (auto simp: in_region_def)
    then show ?thesis using after_alloc_out [OF R that] by simp
  qed
  have k: "keeps_slots (pmem h) ?m' (?slab + 48) ?s (small_in U r)"
  proof -
    have "keeps_slots ?m1 ?m' (?slab + 48) ?s (live n fs)"
      using rep(2,3) by (intro keeps_header_write [OF rep(1) il _ _ s16]) auto
    then show ?thesis using slab_alloc_keeps [OF R] by (simp add: keeps_slots_def S(2))
  qed
  have "rd64 ?m' (slot (?slab + 48) ?s j + 8) = of_nat r" if "j \<in> small_in U r" for j
    using H(7) [OF assms(3)] by (intro keep_slot_headers [OF _ assms(3) _ k that]) (auto simp: small_in_def)
  then have hdr: "rd64 ?m' (slot (?slab + 48) ?s j + 8) = of_nat r" if "j \<in> insert ?i (small_in U r)" for j
    using that by auto
  have st: "slab_state ?m' ?slab r (insert ?i (small_in U r))"
    unfolding slab_state_def using rep' rep(2) S(2) hdr by blast
  have eq: "with_smalls U r (insert ?i (small_in U r)) = insert (Small r ?i) U"
    by (auto simp: with_smalls_def small_in_def)
  let ?h' = "h\<lparr>pmem := ?m'\<rparr>"
  have C: "heap_rep k ?h' js (insert (Small r ?i) U)" "load_buddy ?m' (global_buddy h) = load_buddy (pmem h) (global_buddy h)"
    unfolding eq [symmetric] by (rule heap_slab_change [OF assms(1,3) _ st], erule out)+
  have "penguin_malloc h sz = Some (obj_addr ?h' (Small r ?i), ?h')" using E(1) by simp
  moreover have "Small r ?i \<notin> U" using rep(3) by (simp add: S(2) small_in_def)
  moreover have "heap_rep k ?h' js (insert (Small r ?i) U)" by (rule C(1))
  moreover have "unat sz \<le> obj_size k (Small r ?i)" using E(2) by simp
  moreover have "keeps_objects k h ?h' U" by (rule small_objects_kept [OF assms(1,3) order_refl _ k C(2)], erule out)
  moreover have "malloc_object h sz (obj_addr ?h' (Small r ?i)) = Small r ?i"
    using assms(3) s16 V(6) by (simp add: malloc_object_def assms(4) unat_of_nat64)
  ultimately show ?thesis by blast
qed

lemma heap_free_small:
  assumes "heap_rep k h js U" "Small r i \<in> U"
  shows "\<exists>h'. penguin_free h (obj_addr h (Small r i)) = Some h' \<and> heap_rep k h' js (U - {Small r i})
    \<and> keeps_objects k h h' (U - {Small r i})"
proof -
  let ?slab = "global_slabs h ! r" and ?N = "ocount r" and ?s = "osize r"
  note H = heap_repD [OF assms(1)]
  have r: "r < 8" by (rule H(8) [OF assms(2)])
  obtain n fs ff where R: "slab_rep (pmem h) ?slab (?slab + 48) ?N ?s n fs ff" "live n fs = small_in U r" "i \<in> live n fs"
    using small_in_slot(1) [OF assms] by blast
  have s16: "16 \<le> ?s" using osize_bounds [OF r] by simp
  have st0: "slab_state (pmem h) ?slab r (small_in U r)" using H(7) [OF r] by (simp add: small_in_def)
  then have hd: "rd64 (pmem h) (slot (?slab + 48) ?s i + 8) = of_nat r" using R(2,3) by (auto simp: slab_state_def)
  have len: "r < length (global_slabs h)" using H(2,6) r by simp
  let ?m' = "after_free (pmem h) (?slab + 48) ?s i"
  have f: "penguin_free h (obj_addr h (Small r i)) = Some (h\<lparr>pmem := ?m'\<rparr>)"
    using free_small_eq [OF R(1,3) s16 len r hd] by simp
  note rep = slab_free_rep [OF R(1,3)]
  have out: "?m' x = pmem h x" if "\<not> in_region ?slab (120 + ?N * ?s) x" for x
    by (rule after_free_out [OF R(1,3) that])
  have kl: "keeps_slots (pmem h) ?m' (?slab + 48) ?s (small_in U r - {i})" using rep(3) R(2) by simp
  have hdr: "rd64 ?m' (slot (?slab + 48) ?s j + 8) = of_nat r" if "j \<in> small_in U r - {i}" for j
    by (rule keep_slot_headers [OF st0 r _ kl that]) auto
  have st: "slab_state ?m' ?slab r (small_in U r - {i})"
    unfolding slab_state_def using rep(1,2) R(2) hdr by blast
  have eq: "with_smalls U r (small_in U r - {i}) = U - {Small r i}"
    by (auto simp: with_smalls_def small_in_def)
  have C: "heap_rep k (h\<lparr>pmem := ?m'\<rparr>) js (U - {Small r i})"
    "load_buddy ?m' (global_buddy h) = load_buddy (pmem h) (global_buddy h)"
    unfolding eq [symmetric] by (rule heap_slab_change [OF assms(1) r _ st], erule out)+
  have "small_in (U - {Small r i}) r = small_in U r - {i}" by (auto simp: small_in_def)
  then have "keeps_objects k h (h\<lparr>pmem := ?m'\<rparr>) (U - {Small r i})"
    using kl by (intro small_objects_kept [OF assms(1) r _ _ _ C(2)] out) auto
  with f C(1) show ?thesis by blast
qed

subsection \<open>Large objects\<close>

text \<open>Any change that keeps the blocks of the slabs.\<close>

lemma heap_large_change:
  assumes "heap_rep k h js U" "small_in U' = small_in U" "slab_blocks k js \<inter> large_blocks U' = {}"
    and reach: "buddy_reach (global_buddy h) k m' (slab_blocks k js \<union> large_blocks U')"
    and kept: "keeps (pmem h) m' (global_buddy h) k (slab_blocks k js)"
    and hdr: "\<And>l i. Large l i \<in> U' \<Longrightarrow> rd64 m' (bptr (pmem h) (global_buddy h) l i) = BUDDY_INDEX"
  shows "heap_rep k (h\<lparr>pmem := m'\<rparr>) js U'"
proof -
  note H = heap_repD [OF assms(1)]
  note ld = keeps_load [OF kept]
  have sm: "Small r i \<in> U' \<longleftrightarrow> Small r i \<in> U" for r i
    using arg_cong [OF assms(2), of "\<lambda>f. i \<in> f r"] by (simp add: small_in_def)
  have "slab_state m' (global_slabs h ! r) r {i. Small r i \<in> U'}" if "r < 8" for r
    unfolding sm
  proof (rule slab_state_same [OF H(7) [OF that] that])
    fix x assume "in_region (global_slabs h ! r) (120 + ocount r * osize r) x"
    then show "m' x = pmem h x"
      using slab_region(1,2) [OF assms(1) that] kept unfolding keeps_def by blast
  qed
  then show ?thesis
    using H(1-3,6,8) assms(3) reach hdr sm by (auto simp: heap_rep_def bptr_cong [OF ld])
qed

lemma keeps_blocks_objects:
  assumes "heap_rep k h js U" "V \<subseteq> U" "keeps (pmem h) m' (global_buddy h) k B"
    and "\<And>ob. ob \<in> V \<Longrightarrow> oblock k js ob \<in> B"
  shows "keeps_objects k h (h\<lparr>pmem := m'\<rparr>) V"
  unfolding keeps_objects_def
proof (intro conjI ballI allI impI)
  show "global_buddy (h\<lparr>pmem := m'\<rparr>) = global_buddy h" "global_slabs (h\<lparr>pmem := m'\<rparr>) = global_slabs h"
    by simp_all
  show "load_buddy (pmem (h\<lparr>pmem := m'\<rparr>)) (global_buddy h) = load_buddy (pmem h) (global_buddy h)"
    using keeps_load [OF assms(3)] by simp
  fix ob assume ob: "ob \<in> V"
  show "obj_addr (h\<lparr>pmem := m'\<rparr>) ob = obj_addr h ob" by (cases ob) (simp_all add: bptr_cong [OF keeps_load [OF assms(3)]])
  fix x assume "in_object k h ob x"
  from object_in_block(2) [OF assms(1) subsetD [OF assms(2) ob] this] assms(4) [OF ob] assms(3)
  show "pmem (h\<lparr>pmem := m'\<rparr>) x = pmem h x" unfolding keeps_def by simp
qed

lemma with_large:
  "large_blocks (insert (Large l i) U) = insert (l, i) (large_blocks U)"
  "large_blocks (U - {Large l i}) = large_blocks U - {(l, i)}"
  "small_in (insert (Large l i) U) = small_in U" "small_in (U - {Large l i}) = small_in U"
  by (auto simp: large_blocks_def small_in_def fun_eq_iff)

lemma keeps_other_header:
  assumes "buddy_reach alloc k m A" "(l, i) \<in> A" "keeps m m' alloc k B" "(l, i) \<in> B"
  shows "rd64 m' (bptr m alloc l i) = rd64 m (bptr m alloc l i)"
proof (rule rd64_same_on)
  note lay = reach_layout(1) [OF assms(1)] and V = reach_layout(2) [OF assms(1,2)]
  have V: "l \<le> k" "i < 2 ^ l" using V by auto
  show "unat (bptr m alloc l i) + 8 \<le> 18446744073709551616"
    using bptr_cell(1) [OF lay V] by (simp add: cell_def)
  have "(1::nat) \<le> 2 ^ (k - l)" by simp
  then have "(8::nat) \<le> 2 ^ (k - l) * 4096" by linarith
  then show "same_on (bptr m alloc l i) 8 m' m"
    using region_block(1) [OF lay V] assms(3,4) unfolding keeps_def same_on_def by blast
qed

lemma large_request:
  assumes "4088 \<le> unat sz" "unat sz < 9223372036854775808"
  shows "best_fit_slab_index (sz + 8) = BUDDY_INDEX" "to_pages_count (sz + 8) \<noteq> 0"
    "unat (to_pages_count (sz + 8)) = (unat sz + 4103) div 4096"
proof -
  have u: "unat (sz + 8) = unat sz + 8" using assms(2) by (intro unat_add_numeral) simp
  show "best_fit_slab_index (sz + 8) = BUDDY_INDEX"
    using best_fit_slab_index_range [of "sz + 8"] assms(1) by (auto simp: u BUDDY_INDEX_def)
  have "sz + 8 + 4096 - 1 = (sz + 8) + 4095" by simp
  also have "unat \<dots> = unat sz + 8 + 4095" using u assms(2) by (subst unat_add_numeral) simp_all
  finally show p: "unat (to_pages_count (sz + 8)) = (unat sz + 4103) div 4096"
    by (simp add: to_pages_count_def PAGE_SIZE_def unat_div)
  have "1 \<le> (unat sz + 4103) div 4096" using assms(1) by (simp add: less_eq_div_iff_mult_less_eq)
  then show "to_pages_count (sz + 8) \<noteq> 0" using p by auto
qed

lemma heap_malloc_large:
  assumes "heap_rep k h js U" "4088 \<le> unat sz" "unat sz < 9223372036854775808"
  shows "penguin_malloc h sz = Some (NULL, h)
    \<or> (\<exists>l i h'. penguin_malloc h sz = Some (obj_addr h' (Large l i), h') \<and> obj_addr h' (Large l i) \<noteq> NULL
         \<and> Large l i \<notin> U \<and> heap_rep k h' js (insert (Large l i) U) \<and> keeps_objects k h h' U
         \<and> malloc_object h sz (obj_addr h' (Large l i)) = Large l i
         \<and> (\<forall>j\<le>k. (unat sz + 4103) div 4096 = 2 ^ j \<longrightarrow> unat sz \<le> obj_size k (Large l i)))"
proof -
  let ?a = "global_buddy h" and ?m = "pmem h" and ?A = "slab_blocks k js \<union> large_blocks U"
  note H = heap_repD [OF assms(1)] and Q = large_request [OF assms(2,3)]
  let ?pages = "to_pages_count (sz + 8)"
  obtain s where s: "buddy_rep ?m ?a k s" "tree_inv k s ?A" by (rule buddy_reachE [OF H(5)])
  note lay = rep_layout [OF s(1)]
  from s Q(2) show ?thesis
  proof (cases rule: buddy_alloc_cases)
    case (full bf)
    then have "penguin_malloc h sz = Some (NULL, h)"
      by (simp add: penguin_malloc_def Let_def sizeof_malloc_header_def Q(1))
    then show ?thesis by blast
  next
    case (served bf i m1 s')
    let ?p = "bptr ?m ?a bf i" and ?b = "(bf, i)"
    note V = served(2,3)
    have ld1: "load_buddy m1 ?a = load_buddy ?m ?a" by (rule keeps_load [OF served(11)])
    have up8: "unat ?p + 4096 \<le> 18446744073709551616"
      using bptr_bounds(2) [OF lay V] layoutD(6) [OF lay] unfolding pool_def by linarith
    have p8: "unat (?p + 8) = unat ?p + 8" using up8 by (intro unat_add_numeral) simp
    then have nn: "?p + 8 \<noteq> NULL" by (auto simp flip: unat_eq_0)
    have r1: "buddy_reach ?a k m1 (insert ?b ?A)"
      using buddy_reach.step [OF H(5) buddy_step.alloc [OF Q(2) served(4,5)]] served(6) by simp
    let ?m2 = "wr64 m1 ?p BUDDY_INDEX"
    have le: "(8::nat) \<le> 2 ^ (k - bf) * 4096"
    proof -
      have "(1::nat) \<le> 2 ^ (k - bf)" by simp
      then show ?thesis by linarith
    qed
    have out: "?m2 x = m1 x" if "\<not> in_block (pool_begin (load_buddy m1 ?a)) k ?b x" for x
    proof (rule wr64_out)
      show "\<not> in_region ?p 8 x" using region_block(1) [OF lay V _ le] that by (auto simp: ld1)
    qed (use up8 in simp)
    have R2: "buddy_reach ?a k ?m2 (insert ?b ?A) \<and> load_buddy ?m2 ?a = load_buddy m1 ?a"
      by (rule reach_writes [OF r1 insertI1 out])
    have k2: "keeps ?m ?m2 ?a k ?A"
      unfolding keeps_def
    proof (intro conjI ballI allI impI)
      show "load_buddy ?m2 ?a = load_buddy ?m ?a" using R2 ld1 by simp
      fix b x assume b: "b \<in> ?A" "in_block (pool_begin (load_buddy ?m ?a)) k b x"
      have "b \<noteq> ?b" using b(1) served(10) by blast
      then have "?m2 x = m1 x" using blocks_apart [OF r1 _ _ _ b(2), of ?b] b(1) out by (simp add: ld1)
      then show "?m2 x = ?m x" using served(11) b unfolding keeps_def by simp
    qed
    let ?h' = "h\<lparr>pmem := ?m2\<rparr>" and ?ob = "Large bf i"
    have nU: "?ob \<notin> U" using served(10) by (simp add: large_blocks_def)
    have rep: "heap_rep k ?h' js (insert ?ob U)"
    proof (rule heap_large_change [OF assms(1)])
      show "slab_blocks k js \<inter> large_blocks (insert ?ob U) = {}" using H(4) served(10) by (auto simp: with_large)
      show "buddy_reach ?a k ?m2 (slab_blocks k js \<union> large_blocks (insert ?ob U))" using R2 by (simp add: with_large)
      show "keeps ?m ?m2 ?a k (slab_blocks k js)" by (rule keeps_mono [OF k2]) simp
      fix l j assume o: "Large l j \<in> insert ?ob U"
      show "rd64 ?m2 (bptr ?m ?a l j) = BUDDY_INDEX"
      proof (cases "Large l j = ?ob")
        case False
        then have U: "Large l j \<in> U" using o by auto
        then have "(l, j) \<in> ?A" by (simp add: large_blocks_def)
        then show ?thesis using keeps_other_header [OF H(5) _ k2] H(9) [OF U] by simp
      qed simp
    qed (simp add: with_large)
    have addr: "obj_addr ?h' ?ob = ?p + 8" using R2 ld1 bptr_cong [of ?m2 ?a ?m bf i] by simp
    have "penguin_malloc h sz = Some (?p + 8, ?h')"
      using served(4,5) by (simp add: penguin_malloc_def Let_def sizeof_malloc_header_def Q(1))
    moreover have "keeps_objects k h ?h' U"
      using object_in_block(1) [OF assms(1)] by (intro keeps_blocks_objects [OF assms(1) _ k2]) auto
    moreover have "unat sz \<le> obj_size k ?ob" if "j \<le> k" "(unat sz + 4103) div 4096 = 2 ^ j" for j
    proof -
      have "best_fit_layer ?pages (root_block_size (load_buddy ?m ?a)) = Some (of_nat (k - j))"
        using that Q(3) by (intro best_fit_power_of_two [OF layoutD(6) [OF lay]]) auto
      then have "of_nat bf = (of_nat (k - j) :: u64)" using served(1) by simp
      moreover have "unat (of_nat bf :: u64) = bf" "unat (of_nat (k - j) :: u64) = k - j"
        using V(1) layoutD(7) [OF lay] by (auto simp: unat_of_nat64)
      ultimately have "bf = k - j" by metis
      then have "obj_size k ?ob = 2 ^ j * 4096 - 8" using that(1) by simp
      moreover have "unat sz + 4103 < (2 ^ j + 1) * 4096" using that(2) by (metis Suc_eq_plus1 div_less_iff_less_mult lessI zero_less_numeral)
      ultimately show ?thesis by simp
    qed
    moreover have "malloc_object h sz (?p + 8) = ?ob"
      using served(6) by (simp add: malloc_object_def Q(1) BUDDY_INDEX_def)
    ultimately show ?thesis using addr nn nU rep by metis
  qed
qed

lemma heap_free_large:
  assumes "heap_rep k h js U" "Large l i \<in> U" "even i"
  shows "\<exists>h'. penguin_free h (obj_addr h (Large l i)) = Some h' \<and> heap_rep k h' js (U - {Large l i})
    \<and> keeps_objects k h h' (U - {Large l i})"
proof -
  let ?a = "global_buddy h" and ?m = "pmem h" and ?A = "slab_blocks k js \<union> large_blocks U" and ?ob = "Large l i"
  note H = heap_repD [OF assms(1)]
  obtain s where s: "buddy_rep ?m ?a k s" "tree_inv k s ?A" "k \<le> 31" by (rule buddy_reachE [OF H(5)])
  note lay = rep_layout [OF s(1)]
  have b: "(l, i) \<in> ?A" using assms(2) by (simp add: large_blocks_def)
  then have V: "l \<le> k" "i < 2 ^ l" using reach_layout(2) [OF H(5)] by auto
  let ?p = "bptr ?m ?a l i"
  have "unat ?p + 4096 \<le> 18446744073709551616"
    using bptr_bounds(2) [OF lay V] layoutD(6) [OF lay] unfolding pool_def by linarith
  then have "unat (?p + 8) = unat ?p + 8" by (intro unat_add_numeral) simp
  then have nn: "?p + 8 \<noteq> NULL" by (auto simp flip: unat_eq_0)
  obtain m' where m': "buddy_free ?m ?a ?p = Some m'" "keeps ?m m' ?a k (?A - {(l, i)})"
    by (rule buddy_free_even [OF s(1,2) b assms(3) s(3)])
  have f: "penguin_free h (obj_addr h ?ob) = Some (h\<lparr>pmem := m'\<rparr>)"
    using nn m'(1) H(9) [OF assms(2)] by (simp add: penguin_free_def Let_def sizeof_malloc_header_def)
  have eq: "slab_blocks k js \<union> large_blocks (U - {?ob}) = ?A - {(l, i)}"
    using H(4) assms(2) by (auto simp: large_blocks_def)
  have rep: "heap_rep k (h\<lparr>pmem := m'\<rparr>) js (U - {?ob})"
  proof (rule heap_large_change [OF assms(1)])
    show "slab_blocks k js \<inter> large_blocks (U - {?ob}) = {}" using H(4) by (auto simp: with_large)
    show "buddy_reach ?a k m' (slab_blocks k js \<union> large_blocks (U - {?ob}))"
      unfolding eq by (rule buddy_reach.step [OF H(5) buddy_step.release [OF b assms(3) m'(1)]])
    show "keeps ?m m' ?a k (slab_blocks k js)"
      using H(4) assms(2) by (intro keeps_mono [OF m'(2)]) (auto simp: large_blocks_def)
    fix l' j assume o: "Large l' j \<in> U - {?ob}"
    then have "(l', j) \<in> ?A" "(l', j) \<in> ?A - {(l, i)}" by (auto simp: large_blocks_def)
    then show "rd64 m' (bptr ?m ?a l' j) = BUDDY_INDEX"
      using keeps_other_header [OF H(5) _ m'(2)] H(9) [of l' j] o by simp
  qed (simp add: with_large)
  have "oblock k js ob \<in> ?A - {(l, i)}" if "ob \<in> U - {?ob}" for ob
  proof -
    have "oblock k js ob \<in> slab_blocks k js \<union> large_blocks (U - {?ob})"
    proof (cases ob)
      case (Small r j)
      then show ?thesis using slab_region(1) [OF assms(1) H(8)] that by auto
    qed (use that in \<open>simp add: large_blocks_def\<close>)
    then show ?thesis by (simp only: eq)
  qed
  then have "keeps_objects k h (h\<lparr>pmem := m'\<rparr>) (U - {?ob})"
    by (intro keeps_blocks_objects [OF assms(1) _ m'(2)]) auto
  with f rep show ?thesis by blast
qed

subsection \<open>Writes of the users\<close>

lemma obj_addr_above:
  assumes "heap_rep k h js U" "ob \<in> U" "in_object k h ob x"
  shows "case ob of Small r i \<Rightarrow> unat (slot (global_slabs h ! r + 48) (osize r) i) + 16 \<le> unat x
       \<and> unat x < unat (slot (global_slabs h ! r + 48) (osize r) i) + osize r
     | Large l i \<Rightarrow> unat (bptr (pmem h) (global_buddy h) l i) + 8 \<le> unat x"
proof (cases ob)
  case (Small r i)
  have U: "Small r i \<in> U" using Small assms(2) by simp
  obtain n fs ff where R: "slab_rep (pmem h) (global_slabs h ! r) (global_slabs h ! r + 48) (ocount r) (osize r) n fs ff"
    "i \<in> live n fs" using small_in_slot(1) [OF assms(1) U] by blast
  have s16: "16 \<le> osize r" using osize_bounds [OF heap_repD(8) [OF assms(1) U]] by simp
  show ?thesis using assms(3) live_slot(2,6) [OF R s16] s16 by (simp add: Small in_object_def in_region_def)
next
  case (Large l i)
  note H = heap_repD [OF assms(1)]
  have "(l, i) \<in> slab_blocks k js \<union> large_blocks U" using assms(2) Large by (simp add: large_blocks_def)
  then have V: "l \<le> k" "i < 2 ^ l" using reach_layout(2) [OF H(5)] by auto
  note lay = reach_layout(1) [OF H(5)]
  have "unat (bptr (pmem h) (global_buddy h) l i) + 4096 \<le> 18446744073709551616"
    using bptr_bounds(2) [OF lay V] layoutD(6) [OF lay] unfolding pool_def by linarith
  then have "unat (bptr (pmem h) (global_buddy h) l i + 8) = unat (bptr (pmem h) (global_buddy h) l i) + 8"
    by (intro unat_add_numeral) simp
  then show ?thesis using assms(3) by (simp add: Large in_object_def in_region_def)
qed

lemma heap_write:
  assumes "heap_rep k h js U" "ob \<in> U" "in_object k h ob x"
  shows "heap_rep k (h\<lparr>pmem := (pmem h)(x := v)\<rparr>) js U"
proof -
  let ?a = "global_buddy h" and ?m = "pmem h" and ?m' = "(pmem h)(x := v)"
  note H = heap_repD [OF assms(1)] and O = obj_addr_above [OF assms] and B = object_in_block [OF assms(1,2)]
  show ?thesis
  proof (cases ob)
    case (Small r i)
    let ?slab = "global_slabs h ! r"
    have U: "Small r i \<in> U" using Small assms(2) by simp
    note r = H(8) [OF U]
    obtain n fs ff where R: "slab_rep ?m ?slab (?slab + 48) (ocount r) (osize r) n fs ff"
      "live n fs = small_in U r" "i \<in> live n fs" using small_in_slot(1) [OF assms(1) U] by blast
    have s16: "16 \<le> osize r" using osize_bounds [OF r] by simp
    have xs: "unat (slot (?slab + 48) (osize r) i) + 16 \<le> unat x" "unat x < unat (slot (?slab + 48) (osize r) i) + osize r"
      using O by (simp_all add: Small)
    have rep: "slab_rep ?m' ?slab (?slab + 48) (ocount r) (osize r) n fs ff"
      using xs by (intro slab_user_change [OF R(1,3)]) auto
    have "rd64 ?m' (slot (?slab + 48) (osize r) j + 8) = of_nat r" if "j \<in> small_in U r" for j
    proof -
      have jl: "j \<in> live n fs" using that R(2) by simp
      note W = live_slot [OF R(1) jl s16] and Wi = live_slot [OF R(1,3) s16]
      have "\<not> in_region (slot (?slab + 48) (osize r) j + 8) 8 x"
      proof (cases "j = i")
        case True
        then show ?thesis using xs W(2,5) by (simp add: in_region_def)
      next
        case False
        then show ?thesis
          using slots_apart [OF slab_repD(1) [OF R(1)] W(1) Wi(1)] xs W(2,5) s16 by (auto simp: in_region_def)
      qed
      then have "rd64 ?m' (slot (?slab + 48) (osize r) j + 8) = rd64 ?m (slot (?slab + 48) (osize r) j + 8)"
        using W(3-5) s16 by (intro rd64_upd_apart) auto
      then show ?thesis using H(7) [OF r] that by (simp add: slab_state_def small_in_def)
    qed
    then have st: "slab_state ?m' ?slab r (small_in U r)" unfolding slab_state_def using rep R(2) by blast
    have eq: "with_smalls U r (small_in U r) = U" by (auto simp: with_smalls_def small_in_def)
    have "?m' y = ?m y" if "\<not> in_region ?slab (120 + ocount r * osize r) y" for y
      using that small_in_slot(3) [OF assms(1) U] assms(3) Small by auto
    then show ?thesis using heap_slab_change(1) [OF assms(1) r _ st] unfolding eq by blast
  next
    case (Large l i)
    have x: "in_block (pool_begin (load_buddy ?m ?a)) k (l, i) x" using B(2) [OF assms(3)] Large by simp
    have b: "(l, i) \<in> slab_blocks k js \<union> large_blocks U" using B(1) Large by simp
    have out: "?m' y = ?m y" if "\<not> in_block (pool_begin (load_buddy ?m ?a)) k (l, i) y" for y using that x by auto
    have R: "buddy_reach ?a k ?m' (slab_blocks k js \<union> large_blocks U) \<and> load_buddy ?m' ?a = load_buddy ?m ?a"
      by (rule reach_writes [OF H(5) b out])
    have kp: "keeps ?m ?m' ?a k (slab_blocks k js \<union> large_blocks U - {(l, i)})"
      unfolding keeps_def using R blocks_apart [OF H(5) _ b] x by auto
    have sl: "slab_blocks k js \<subseteq> slab_blocks k js \<union> large_blocks U - {(l, i)}"
      using H(4) Large assms(2) by (auto simp: large_blocks_def)
    have hdr: "rd64 ?m' (bptr ?m ?a l' j) = BUDDY_INDEX" if U: "Large l' j \<in> U" for l' j
    proof -
      have b': "(l', j) \<in> slab_blocks k js \<union> large_blocks U" using U by (simp add: large_blocks_def)
      have "rd64 ?m' (bptr ?m ?a l' j) = rd64 ?m (bptr ?m ?a l' j)"
      proof (cases "(l', j) = (l, i)")
        case False
        then show ?thesis using b' by (intro keeps_other_header [OF H(5) b' kp]) simp
      next
        case True
        have V: "l \<le> k" "i < 2 ^ l" using reach_layout(2) [OF H(5) b] by auto
        have "unat (bptr ?m ?a l i) + 8 \<le> 18446744073709551616"
          using bptr_cell(1) [OF reach_layout(1) [OF H(5)] V] by (simp add: cell_def)
        moreover have "\<not> in_region (bptr ?m ?a l i) 8 x" using O by (simp add: Large in_region_def)
        ultimately show ?thesis using True by (simp add: rd64_upd_apart del: fun_upd_apply)
      qed
      then show ?thesis using H(9) [OF U] by simp
    qed
    show ?thesis
      using R hdr by (intro heap_large_change [OF assms(1)] H(4) keeps_mono [OF kp sl]) auto
  qed
qed

end
