(* ===== verification/Penguin_System.thy ===== *)
theory Penguin_System
  imports Penguin_Heap
begin

section \<open>The heap from its first instruction on\<close>

text \<open>
  The states of the heap as a step relation: it starts with \<open>penguin_malloc_init\<close> on a new buddy
  allocator, and goes on with calls of \<open>malloc\<close> and \<open>free\<close> and with writes of the users into
  their objects, in any order. The theorems hold in every state reached.
\<close>

subsection \<open>Setting up the slabs\<close>

lemma split_abs_below: "l + d < l' \<Longrightarrow> free_of (split_abs d s l i) l' = free_of s l'"
  by (induction d arbitrary: s l i) (auto simp: split_step_def push_abs_def put_bit_def)

lemma alloc_abs_below:
  assumes "alloc_abs s bf = Some (i, s')" "\<forall>l>bf. free_of s l = []"
  shows "\<forall>l>bf. free_of s' l = []"
proof -
  let ?l = "find_abs s bf"
  have s': "s' = split_abs (bf - ?l) (pop_abs ?l s) ?l (hd (free_of s ?l))"
    using assms(1) by (auto simp: alloc_abs_def Let_def split: list.splits)
  then show ?thesis using find_abs_le [of s bf] assms(2) by (auto simp: split_abs_below pop_abs_def)
qed

text \<open>
  As long as only blocks of one layer have been handed out, and not enough of them to cover the
  pool, a request for a further one is served.
\<close>

lemma same_layer_served:
  assumes "tree_inv k s ((\<lambda>j. (bf, j)) ` set js)" "\<forall>l>bf. free_of s l = []" "bf \<le> k"
    and "length js * 2 ^ (k - bf) < 2 ^ k"
  shows "\<exists>l\<le>bf. free_of s l \<noteq> []"
proof (rule ccontr)
  assume "\<not> (\<exists>l\<le>bf. free_of s l \<noteq> [])"
  then have "free_of s l = []" for l using assms(2) by (cases "l \<le> bf") auto
  then have "free_set s = {}" by (simp add: free_set_def)
  then have "(\<Union>j\<in>set js. pages_of k bf j) = {..<2 ^ k}"
    using tree_invD(3) [OF assms(1)] by (simp add: partition_of_def)
  then have "(2::nat) ^ k = card (\<Union>j\<in>set js. pages_of k bf j)" by simp
  also have "\<dots> \<le> (\<Sum>j\<in>set js. card (pages_of k bf j))" by (rule card_UN_le) simp
  also have "\<dots> = card (set js) * 2 ^ (k - bf)" by (simp add: pages_of_def)
  also have "\<dots> \<le> length js * 2 ^ (k - bf)" by (intro mult_le_mono1 card_length)
  finally show False using assms(4) by simp
qed

text \<open>The state after some of the slabs have been set up, in the blocks \<open>js\<close>.\<close>

definition new_slab :: "mem \<Rightarrow> ptr \<Rightarrow> nat \<Rightarrow> bool" where
  "new_slab m slab r \<longleftrightarrow> slab_rep m slab (slab + 48) (ocount r) (osize r) 0 [] True"

definition init_inv :: "nat \<Rightarrow> ptr \<Rightarrow> mem \<Rightarrow> nat list \<Rightarrow> bool" where
  "init_inv k a m js \<longleftrightarrow>
     9 \<le> k \<and> unat (pool_begin (load_buddy m a)) + 2 ^ k * 4096 < 18446744073709551616
     \<and> (\<exists>s. buddy_rep m a k s \<and> tree_inv k s (slab_blocks k js) \<and> (\<forall>l>k - 6. free_of s l = []))
     \<and> buddy_reach a k m (slab_blocks k js) \<and> distinct js
     \<and> (\<forall>r<length js. new_slab m (bptr m a (k - 6) (js ! r)) r)"

lemma slab_size_u64:
  assumes "r < 8"
  shows "slab_size_by_index (of_nat r) = of_nat (osize r) - 8" "unat (of_nat (osize r) :: u64) = osize r"
proof -
  show o: "unat (of_nat (osize r) :: u64) = osize r" using osize_bounds [OF assms] by (intro unat_of_nat64) simp
  have "unat (of_nat (osize r) - 8 :: u64) = osize r - 8"
    using o osize_bounds [OF assms] by (subst unat_sub64) simp_all
  then have "unat (of_nat (osize r) - 8 :: u64) = unat (slab_size_by_index (of_nat r))"
    using unat_slab_size [OF assms] by (simp add: osize_def)
  then show "slab_size_by_index (of_nat r) = of_nat (osize r) - 8" by (simp only: u64_eq_iff)
qed

lemma init_one:
  assumes I: "init_inv k a m js" and r: "length js < 8"
  shows "\<exists>j m'. slab_init m a (slab_size_by_index (of_nat (length js))) = Some (bptr m a (k - 6) j, m')
    \<and> init_inv k a m' (js @ [j]) \<and> load_buddy m' a = load_buddy m a"
proof -
  let ?r = "length js" and ?bf = "k - 6" and ?A = "slab_blocks k js"
  obtain s where k: "9 \<le> k" and pe: "unat (pool_begin (load_buddy m a)) + 2 ^ k * 4096 < 18446744073709551616"
    and s: "buddy_rep m a k s" "tree_inv k s ?A" "\<forall>l>?bf. free_of s l = []"
    and reach: "buddy_reach a k m ?A" and dj: "distinct js"
    and slabs: "\<And>r. r < length js \<Longrightarrow> new_slab m (bptr m a ?bf (js ! r)) r"
    using I by (auto simp: init_inv_def)
  note lay = rep_layout [OF s(1)]
  have b64: "best_fit_layer 64 (root_block_size (load_buddy m a)) = Some (of_nat ?bf)"
    using k by (intro best_fit_power_of_two [OF layoutD(6) [OF lay]]) auto
  have "(2::nat) ^ 9 \<le> 2 ^ k" using k by (intro power_increasing) auto
  then have "length js * 2 ^ (k - ?bf) < 2 ^ k" using r k by simp
  then have av: "\<exists>l\<le>?bf. free_of s l \<noteq> []"
    using s(2,3) by (intro same_layer_served [where js = js]) (auto simp: slab_blocks_def)
  have nz: "(64 :: u64) \<noteq> 0" by simp
  from s(1,2) nz show ?thesis
  proof (cases rule: buddy_alloc_cases)
    case (full bf)
    have "of_nat bf = (of_nat ?bf :: u64)" using full(1) b64 by simp
    moreover have "unat (of_nat bf :: u64) = bf" "unat (of_nat ?bf :: u64) = ?bf"
      using full(2) layoutD(7) [OF lay] by (auto simp: unat_of_nat64)
    ultimately have "bf = ?bf" by metis
    then show ?thesis using full(4) av by blast
  next
    case (served bf j m1 s')
    have "of_nat bf = (of_nat ?bf :: u64)" using served(1) b64 by simp
    moreover have "unat (of_nat bf :: u64) = bf" "unat (of_nat ?bf :: u64) = ?bf"
      using served(2) layoutD(7) [OF lay] by (auto simp: unat_of_nat64)
    ultimately have bf: "bf = ?bf" by metis
    note V = diff_le_self served(3) [unfolded bf]
    let ?p = "bptr m a ?bf j" and ?b = "(?bf, j)"
    have ld1: "load_buddy m1 a = load_buddy m a" by (rule keeps_load [OF served(11)])
    have up: "unat ?p + 262144 < 18446744073709551616"
    proof -
      have "(j + 1) * 2 ^ (k - ?bf) \<le> 2 ^ k" using block_inside [OF V] by simp
      then have "j * 64 + 64 \<le> 2 ^ k" using k by simp
      then have "(j * 64 + 64) * 4096 \<le> 2 ^ k * 4096" by (rule mult_le_mono1)
      then show ?thesis using pe unat_bptr [OF lay V] k by (simp add: block_addr_def)
    qed
    note Z = slab_size_u64 [OF r] and O = osize_bounds [OF r]
    have "buddy_alloc m a 64 = Some (?p, m1)" using served(4) bf by simp
    moreover have "?p \<noteq> NULL" using served(5) bf by simp
    moreover have "8 \<le> unat (of_nat (osize ?r) :: u64)" "unat (of_nat (osize ?r) :: u64) \<le> 262024" using Z(2) O by simp_all
    ultimately obtain m' where m': "slab_init m a (slab_size_by_index (of_nat ?r)) = Some (?p, m')"
      "slab_rep m' ?p (?p + 48) (ocount ?r) (osize ?r) 0 [] True" "\<And>x. \<not> in_region ?p 120 x \<Longrightarrow> m' x = m1 x"
      using slab_init_correct [OF _ _ Z(1) _ _ up] Z(2) unfolding ocount_def by metis
    have A': "slab_blocks k (js @ [j]) = insert ?b ?A" by (auto simp: slab_blocks_def)
    have r1: "buddy_reach a k m1 (insert ?b ?A)"
      using buddy_reach.step [OF reach buddy_step.alloc [OF nz served(4,5)]] served(6) by (simp add: bf)
    have "(120::nat) \<le> 2 ^ (k - ?bf) * 4096" using k by simp
    then have out: "m' x = m1 x" if "\<not> in_block (pool_begin (load_buddy m1 a)) k ?b x" for x
      using region_block(1) [OF lay V, of 120 x] that m'(3) by (auto simp: ld1)
    have R: "buddy_reach a k m' (insert ?b ?A) \<and> load_buddy m' a = load_buddy m1 a"
      by (rule reach_writes [OF r1 insertI1 out])
    have ld: "load_buddy m' a = load_buddy m a" using R ld1 by simp
    have rep: "buddy_rep m' a k s'"
      using served(8,9) out unfolding bf by (rule rep_writes [OF _ _ insertI1])
    have kept: "m' x = m x" if "b \<in> ?A" "in_block (pool_begin (load_buddy m a)) k b x" for b x
    proof -
      have "b \<noteq> ?b" using that(1) served(10) bf by blast
      then have "m' x = m1 x" using blocks_apart [OF r1 _ _ _ that(2), of ?b] that(1) out by (simp add: ld1)
      then show ?thesis using served(11) that unfolding keeps_def by simp
    qed
    have "new_slab m' (bptr m' a ?bf ((js @ [j]) ! r)) r" if "r < length (js @ [j])" for r
    proof (cases "r = ?r")
      case True
      then show ?thesis using m'(2) by (simp add: new_slab_def bptr_cong [OF ld])
    next
      case False
      then have rr: "r < ?r" using that by simp
      then have b: "(?bf, js ! r) \<in> ?A" by (simp add: slab_blocks_def)
      then have W: "js ! r < 2 ^ ?bf" using reach_layout(2) [OF reach] by blast
      have "new_slab m' (bptr m a ?bf (js ! r)) r"
        unfolding new_slab_def
      proof (rule slab_rep_same [OF slabs [OF rr, unfolded new_slab_def]])
        fix x assume "in_region (bptr m a ?bf (js ! r)) (120 + ocount r * osize r) x"
        moreover have "120 + ocount r * osize r \<le> 2 ^ (k - ?bf) * 4096"
          using osize_bounds [of r] rr \<open>?r < 8\<close> k by simp
        ultimately show "m' x = m x" using kept [OF b] region_block(1) [OF lay diff_le_self W] by blast
      qed
      then show ?thesis using rr by (simp add: nth_append bptr_cong [OF ld])
    qed
    moreover have "distinct (js @ [j])" using dj served(10) by (auto simp: slab_blocks_def bf)
    moreover have "\<forall>l>?bf. free_of s' l = []" using alloc_abs_below [OF served(7)] s(3) by (simp add: bf)
    ultimately have "init_inv k a m' (js @ [j])"
      unfolding init_inv_def using k pe ld rep served(9) R by (auto simp: bf A')
    then show ?thesis using m'(1) ld by blast
  qed
qed

lemma init_all:
  "init_inv k a m js \<Longrightarrow> length js + n \<le> 8 \<Longrightarrow>
    \<exists>js' m'. init_slabs m a (length js) n = Some (map (bptr m a (k - 6)) js', m') \<and> length js' = n
      \<and> init_inv k a m' (js @ js') \<and> load_buddy m' a = load_buddy m a"
proof (induction n arbitrary: m js)
  case (Suc n)
  obtain j m1 where 1: "slab_init m a (slab_size_by_index (of_nat (length js))) = Some (bptr m a (k - 6) j, m1)"
    "init_inv k a m1 (js @ [j])" "load_buddy m1 a = load_buddy m a"
    using init_one [OF Suc.prems(1)] Suc.prems(2) by auto
  obtain js' m' where 2: "init_slabs m1 a (length (js @ [j])) n = Some (map (bptr m1 a (k - 6)) js', m')"
    "length js' = n" "init_inv k a m' ((js @ [j]) @ js')" "load_buddy m' a = load_buddy m1 a"
    using Suc.IH [OF 1(2)] Suc.prems(2) by auto
  have "init_slabs m a (length js) (Suc n) = Some (map (bptr m a (k - 6)) (j # js'), m')"
    using 1(1) 2(1) by (simp add: bptr_cong [OF 1(3)])
  then show ?case using 2 1(3) by (intro exI [of _ "j # js'"] exI [of _ m']) simp
qed auto

text \<open>A buddy allocator in its initial state, with a pool of at least \<open>2 ^ 9\<close> pages.\<close>

definition new_pool :: "mem \<Rightarrow> ptr \<Rightarrow> nat \<Rightarrow> bool" where
  "new_pool m a k \<longleftrightarrow> buddy_rep m a k init_abs \<and> 9 \<le> k \<and> k \<le> 31
     \<and> unat (pool_begin (load_buddy m a)) + 2 ^ k * 4096 < 18446744073709551616"

lemma malloc_init_rep:
  assumes "new_pool (pmem s) a k"
  shows "\<exists>h js. penguin_malloc_init s a = Some h \<and> heap_rep k h js {} \<and> (\<forall>r<8. slab_room h r)
    \<and> global_buddy h = a \<and> load_buddy (pmem h) a = load_buddy (pmem s) a"
proof -
  have "init_inv k a (pmem s) []"
    using assms buddy_reach.start tree_inv_init [of k]
    by (auto simp: new_pool_def init_inv_def slab_blocks_def init_abs_def intro!: exI [of _ init_abs])
  from init_all [OF this, of 8] obtain js m' where
    1: "init_slabs (pmem s) a 0 8 = Some (map (bptr (pmem s) a (k - 6)) js, m')" "length js = 8"
      "init_inv k a m' js" "load_buddy m' a = load_buddy (pmem s) a" by auto
  define h where "h = \<lparr>pmem = m', global_buddy = a, global_slabs = map (bptr (pmem s) a (k - 6)) js\<rparr>"
  have e: "penguin_malloc_init s a = Some h"
    using 1(1) by (simp add: penguin_malloc_init_def PENGUIN_MALLOC_SLABS_def h_def)
  have slab: "new_slab m' (global_slabs h ! r) r" if "r < 8" for r
    using 1(2,3) that by (simp add: h_def init_inv_def bptr_cong [OF 1(4)])
  have "slab_state m' (global_slabs h ! r) r {}" if "r < 8" for r
  proof -
    have "live 0 [] = {}" by (simp add: live_def)
    then show ?thesis using slab [OF that] unfolding slab_state_def new_slab_def by blast
  qed
  moreover have "buddy_reach a k m' (slab_blocks k js)" "distinct js" "6 \<le> k" using 1(3) by (auto simp: init_inv_def)
  moreover have "large_blocks {} = {}" by (simp add: large_blocks_def)
  ultimately have "heap_rep k h js {}"
    unfolding heap_rep_def using 1(2) by (simp add: h_def bptr_cong [OF 1(4)])
  moreover have "slab_room h r" if "r < 8" for r
  proof -
    note R = slab [OF that, unfolded new_slab_def]
    show ?thesis
      using slab_repD(8) [OF R] slab_addresses(12) [OF slab_repD(1) [OF R]] by (simp add: slab_room_def h_def)
  qed
  ultimately show ?thesis using e 1(4) by (intro exI [of _ h] exI [of _ js]) (simp add: h_def)
qed

subsection \<open>Steps of the heap\<close>

text \<open>
  A block of the buddy allocator with an odd index is not released: \<open>buddy_free\<close> of it gives the
  whole pool away, which is a property of its own. And \<open>malloc\<close> of a small size is a step as long
  as the slab of that size has a first free cache; otherwise it adds a cache of its own to the slab.
\<close>

fun releasable :: "heap_object \<Rightarrow> bool" where
  "releasable (Small r i) = True"
| "releasable (Large l i) = even i"

definition servable :: "pm_state \<Rightarrow> u64 \<Rightarrow> bool" where
  "servable h sz \<longleftrightarrow> (if unat sz < 4088 then slab_room h (unat (best_fit_slab_index (sz + 8)))
                      else unat sz < 9223372036854775808)"

inductive heap_step :: "nat \<Rightarrow> pm_state \<times> heap_object set \<Rightarrow> pm_state \<times> heap_object set \<Rightarrow> bool" for k where
  malloc: "servable h sz \<Longrightarrow> penguin_malloc h sz = Some (p, h') \<Longrightarrow> p \<noteq> NULL
    \<Longrightarrow> heap_step k (h, U) (h', insert (malloc_object h sz p) U)"
| malloc_fails: "servable h sz \<Longrightarrow> penguin_malloc h sz = Some (NULL, h') \<Longrightarrow> heap_step k (h, U) (h', U)"
| free: "ob \<in> U \<Longrightarrow> releasable ob \<Longrightarrow> penguin_free h (obj_addr h ob) = Some h'
    \<Longrightarrow> heap_step k (h, U) (h', U - {ob})"
| user_write: "ob \<in> U \<Longrightarrow> in_object k h ob x \<Longrightarrow> heap_step k (h, U) (h\<lparr>pmem := (pmem h)(x := v)\<rparr>, U)"

inductive_cases heap_stepE: "heap_step k (h, U) (h', U')"

inductive heap_reach :: "nat \<Rightarrow> pm_state \<Rightarrow> heap_object set \<Rightarrow> bool" for k where
  start: "new_pool (pmem s) a k \<Longrightarrow> penguin_malloc_init s a = Some h \<Longrightarrow> heap_reach k h {}"
| step: "heap_reach k h U \<Longrightarrow> heap_step k (h, U) (h', U') \<Longrightarrow> heap_reach k h' U'"

lemma small_class:
  assumes "unat sz < 4088"
  obtains r where "r < 8" "best_fit_slab_index (sz + 8) = of_nat r" "unat (best_fit_slab_index (sz + 8)) = r"
proof -
  have u: "unat (sz + 8) = unat sz + 8" using assms by (intro unat_add_numeral) simp
  obtain r where r: "r \<le> 8" "best_fit_slab_index (sz + 8) = of_nat r" "r = 8 \<longleftrightarrow> 4096 \<le> unat (sz + 8)"
    using best_fit_slab_index_range [of "sz + 8"] by blast
  have "r < 8" using r(1,3) u assms by auto
  with r(2) show ?thesis using that [of r] by (simp add: unat_of_nat64)
qed

lemma obj_addr_not_null:
  assumes "heap_rep k h js U" "ob \<in> U"
  shows "obj_addr h ob \<noteq> NULL"
proof (cases ob)
  case (Small r i)
  have U: "Small r i \<in> U" using Small assms(2) by simp
  obtain n fs ff where R: "slab_rep (pmem h) (global_slabs h ! r) (global_slabs h ! r + 48) (ocount r) (osize r) n fs ff"
    "i \<in> live n fs" using small_in_slot(1) [OF assms(1) U] by blast
  have s16: "16 \<le> osize r" using osize_bounds [OF heap_repD(8) [OF assms(1) U]] by simp
  have "unat (obj_addr h ob) \<noteq> 0" using live_slot(6) [OF R s16] by (simp add: Small)
  then show ?thesis by auto
next
  case (Large l i)
  note H = heap_repD [OF assms(1)]
  have "(l, i) \<in> slab_blocks k js \<union> large_blocks U" using assms(2) Large by (simp add: large_blocks_def)
  then have V: "l \<le> k" "i < 2 ^ l" using reach_layout(2) [OF H(5)] by auto
  note lay = reach_layout(1) [OF H(5)]
  have "unat (bptr (pmem h) (global_buddy h) l i) + 4096 \<le> 18446744073709551616"
    using bptr_bounds(2) [OF lay V] layoutD(6) [OF lay] unfolding pool_def by linarith
  then have "unat (bptr (pmem h) (global_buddy h) l i + 8) = unat (bptr (pmem h) (global_buddy h) l i) + 8"
    by (intro unat_add_numeral) simp
  then show ?thesis unfolding Large by (auto simp flip: unat_eq_0)
qed

text \<open>One call of \<open>malloc\<close>, whatever the size.\<close>

lemma heap_malloc_cases:
  assumes "heap_rep k h js U" "servable h sz"
  obtains (null) "4088 \<le> unat sz" "penguin_malloc h sz = Some (NULL, h)"
  | (object) ob h' where "penguin_malloc h sz = Some (obj_addr h' ob, h')" "obj_addr h' ob \<noteq> NULL" "ob \<notin> U"
      "malloc_object h sz (obj_addr h' ob) = ob" "heap_rep k h' js (insert ob U)" "keeps_objects k h h' U"
      "unat sz < 4088 \<or> (\<exists>j\<le>k. (unat sz + 4103) div 4096 = 2 ^ j) \<Longrightarrow> unat sz \<le> obj_size k ob"
proof (cases "unat sz < 4088")
  case True
  obtain r where r: "r < 8" "best_fit_slab_index (sz + 8) = of_nat r" "unat (best_fit_slab_index (sz + 8)) = r"
    by (rule small_class [OF True])
  have room: "slab_room h r" using assms(2) True r(3) by (simp add: servable_def)
  obtain i h' where h': "penguin_malloc h sz = Some (obj_addr h' (Small r i), h')" "Small r i \<notin> U"
    "heap_rep k h' js (insert (Small r i) U)" "unat sz \<le> obj_size k (Small r i)" "keeps_objects k h h' U"
    "malloc_object h sz (obj_addr h' (Small r i)) = Small r i"
    using heap_malloc_small [OF assms(1) True r(1,2) room] by blast
  have "obj_addr h' (Small r i) \<noteq> NULL" by (rule obj_addr_not_null [OF h'(3) insertI1])
  then show ?thesis using object [OF h'(1) _ h'(2,6,3,5)] h'(4) by blast
next
  case False
  then have sz: "4088 \<le> unat sz" "unat sz < 9223372036854775808" using assms(2) by (auto simp: servable_def)
  consider "penguin_malloc h sz = Some (NULL, h)"
    | l i h' where "penguin_malloc h sz = Some (obj_addr h' (Large l i), h')" "obj_addr h' (Large l i) \<noteq> NULL"
      "Large l i \<notin> U" "heap_rep k h' js (insert (Large l i) U)" "keeps_objects k h h' U"
      "malloc_object h sz (obj_addr h' (Large l i)) = Large l i"
      "\<forall>j\<le>k. (unat sz + 4103) div 4096 = 2 ^ j \<longrightarrow> unat sz \<le> obj_size k (Large l i)"
    using heap_malloc_large [OF assms(1) sz] by blast
  then show ?thesis
  proof cases
    case 1
    then show ?thesis using null [OF sz(1)] by blast
  next
    case 2
    then show ?thesis using object [of h' "Large l i"] False by blast
  qed
qed

lemma heap_free_rep:
  assumes "heap_rep k h js U" "ob \<in> U" "releasable ob"
  obtains h' where "penguin_free h (obj_addr h ob) = Some h'" "heap_rep k h' js (U - {ob})"
    "keeps_objects k h h' (U - {ob})"
  using assms heap_free_small [OF assms(1)] heap_free_large [OF assms(1)]
  by (cases ob) (metis releasable.simps(2))+

lemma heap_step_rep:
  assumes "heap_rep k h js U" "heap_step k (h, U) (h', U')"
  shows "heap_rep k h' js U'"
  using assms(2)
proof cases
  case (malloc sz p)
  note 1 = this
  from assms(1) 1(2) show ?thesis
    by (cases rule: heap_malloc_cases) (use 1 in auto)
next
  case (malloc_fails sz)
  note 2 = this
  from assms(1) 2(2) show ?thesis
    by (cases rule: heap_malloc_cases) (use 2 assms(1) in auto)
next
  case (free ob)
  note 3 = this
  show ?thesis by (rule heap_free_rep [OF assms(1) 3(2,3)]) (use 3 in auto)
next
  case (user_write ob x v)
  note 4 = this
  then show ?thesis using heap_write [OF assms(1) 4(3,4)] by simp
qed

lemma heap_reach_rep: "heap_reach k h U \<Longrightarrow> \<exists>js. heap_rep k h js U"
proof (induction rule: heap_reach.induct)
  case (start s a h)
  then show ?case using malloc_init_rep [OF start(1)] by auto
next
  case (step h U h' U')
  then show ?case using heap_step_rep by blast
qed

subsection \<open>What holds in every state\<close>

text \<open>
  On a new buddy allocator with a pool of at least \<open>2 ^ 9\<close> pages, \<open>penguin_malloc_init\<close>
  succeeds: all eight slabs get their blocks, each has a free slot, nothing is in use, and the struct
  of the buddy allocator is unchanged. This state is the start of all that follows.
\<close>

theorem heap_init_correct:
  assumes "new_pool (pmem s) a k"
  shows "\<exists>h. penguin_malloc_init s a = Some h \<and> heap_reach k h {} \<and> (\<forall>r<8. slab_room h r)
    \<and> distinct (global_slabs h) \<and> length (global_slabs h) = 8 \<and> load_buddy (pmem h) a = load_buddy (pmem s) a"
proof -
  obtain h js where h: "penguin_malloc_init s a = Some h" "heap_rep k h js {}" "\<forall>r<8. slab_room h r"
    "global_buddy h = a" "load_buddy (pmem h) a = load_buddy (pmem s) a"
    using malloc_init_rep [OF assms] by blast
  note H = heap_repD [OF h(2)] and lay = reach_layout [OF heap_repD(5) [OF h(2)]]
  have "inj_on (bptr (pmem h) a (k - 6)) (set js)"
  proof (rule inj_onI)
    fix i j assume ij: "i \<in> set js" "j \<in> set js" "bptr (pmem h) a (k - 6) i = bptr (pmem h) a (k - 6) j"
    then have v: "i < 2 ^ (k - 6)" "j < 2 ^ (k - 6)" using lay(2) by (auto simp: slab_blocks_def)
    have "i * 2 ^ (k - (k - 6)) = j * 2 ^ (k - (k - 6))"
      using unat_bptr [OF lay(1) diff_le_self v(1)] unat_bptr [OF lay(1) diff_le_self v(2)] ij(3) h(4)
      by (simp add: block_addr_def)
    then show "i = j" by simp
  qed
  then have "distinct (global_slabs h)" unfolding H(6) distinct_map using H(3) by (simp add: h(4))
  then show ?thesis using h heap_reach.start [OF assms h(1)] H(2,6) by auto
qed

text \<open>The heap of \<open>new.cpp\<close>: 128 MiB at a page boundary, of which the pool gets \<open>2 ^ 14\<close> pages.\<close>

lemma default_pool:
  assumes "base \<noteq> NULL" "unat base mod 4096 = 0" "unat base + 134217728 < 9223372036854775808"
  obtains m' where "buddy_init m base (base + kPenguinMallocSize) = Some (base, m')" "new_pool m' base 14"
    "unat (pool_begin (load_buddy m' base)) = unat base + 8192"
proof -
  define B where "B = unat base div 4096"
  have B: "unat base = B * 4096" using assms(2) by (simp add: B_def minus_mod_eq_div_mult [symmetric])
  have e: "unat (base + kPenguinMallocSize) = (B + 32768) * 4096"
    using assms(3) by (simp add: kPenguinMallocSize_def unat_add_numeral B)
  have "init_layout base (base + kPenguinMallocSize) 32767 15 (B + 2) 32765 14"
    using assms(1,3) unfolding init_layout_def e B by simp
  from buddy_init_rep [OF this, of m]
  obtain m' where m': "buddy_init m base (base + kPenguinMallocSize) = Some (base, m')" "buddy_rep m' base 14 init_abs"
    "pool_begin (load_buddy m' base) = of_nat ((B + 2) * 4096)" by auto
  have "unat (of_nat ((B + 2) * 4096) :: u64) = (B + 2) * 4096" using assms(3) B by (intro unat_of_nat64) simp
  then have pb: "unat (pool_begin (load_buddy m' base)) = unat base + 8192" unfolding m'(3) by (simp add: B)
  then have "new_pool m' base 14" using m'(2) assms(3) by (simp add: new_pool_def)
  then show ?thesis using that m'(1) pb by blast
qed

definition demo_state :: pm_state where
  "demo_state = \<lparr>pmem = (\<lambda>_. 0), global_buddy = NULL, global_slabs = []\<rparr>"

lemma demo_pool:
  obtains m where "new_pool m 4096 14"
  by (rule default_pool [of 4096 "\<lambda>_. 0"]) (auto intro: that)

theorem heap_init_correct_witness:
  "\<exists>m h. penguin_malloc_init (demo_state\<lparr>pmem := m\<rparr>) 4096 = Some h \<and> heap_reach 14 h {} \<and> slab_room h 7"
proof -
  obtain m where "new_pool m 4096 14" by (rule demo_pool)
  then have "new_pool (pmem (demo_state\<lparr>pmem := m\<rparr>)) 4096 14" by simp
  from heap_init_correct [OF this] show ?thesis by (auto 0 3)
qed

lemma demo_heap:
  obtains h ob where "heap_reach 14 h {ob}" "\<exists>i. ob = Small 0 i"
proof -
  obtain m where "new_pool m 4096 14" by (rule demo_pool)
  then have P: "new_pool (pmem (demo_state\<lparr>pmem := m\<rparr>)) 4096 14" by simp
  obtain h js where h: "penguin_malloc_init (demo_state\<lparr>pmem := m\<rparr>) 4096 = Some h" "heap_rep 14 h js {}" "\<forall>r<8. slab_room h r"
    using malloc_init_rep [OF P] by blast
  have idx: "best_fit_slab_index 28 = 0"
    by (simp add: best_fit_slab_index_def best_fit_loop.simps BUDDY_INDEX_def slab_size_by_index_def push_bit_eq_mult
        word_less_nat_alt)
  have r: "heap_reach 14 h {}" by (rule heap_reach.start [OF P h(1)])
  have sv: "servable h 20" using h(3) by (simp add: servable_def idx)
  from h(2) sv show ?thesis
  proof (cases rule: heap_malloc_cases)
    case (object ob h')
    have "heap_step 14 (h, {}) (h', {ob})" using heap_step.malloc [OF sv object(1,2), of 14 "{}"] object(4) by simp
    moreover have "\<exists>i. ob = Small 0 i"
      using object(4) by (simp add: malloc_object_def idx) metis
    ultimately show ?thesis using that heap_reach.step [OF r] by blast
  qed simp
qed





text \<open>
  C4: in every reached state, \<open>free\<close> of an object in use, other than a block of odd index, returns,
  and leaves a reached state in which exactly that object is no longer in use, without changing a byte
  of the others. So \<open>free\<close> undoes \<open>malloc\<close>.
\<close>

theorem heap_free_correct:
  assumes "heap_reach k h U" "ob \<in> U" "releasable ob"
  shows "\<exists>h'. penguin_free h (obj_addr h ob) = Some h' \<and> heap_reach k h' (U - {ob})
    \<and> keeps_objects k h h' (U - {ob})"
proof -
  obtain js where r: "heap_rep k h js U" using heap_reach_rep [OF assms(1)] by blast
  obtain h' where h': "penguin_free h (obj_addr h ob) = Some h'" "keeps_objects k h h' (U - {ob})"
    by (rule heap_free_rep [OF r assms(2,3)])
  have "heap_step k (h, U) (h', U - {ob})" by (rule heap_step.free [OF assms(2,3) h'(1)])
  then show ?thesis using h' heap_reach.step [OF assms(1)] by blast
qed

theorem heap_free_correct_witness:
  "\<exists>h ob h'. heap_reach 14 h {ob} \<and> penguin_free h (obj_addr h ob) = Some h' \<and> heap_reach 14 h' {}"
proof -
  obtain h ob where r: "heap_reach 14 h {ob}" "releasable ob" by (rule demo_heap) auto
  then show ?thesis using heap_free_correct [OF r(1), of ob] by auto
qed

subsection \<open>The C++ operators\<close>

lemma init_once_default:
  assumes "\<not> initialised st" "base \<noteq> NULL" "unat base mod 4096 = 0" "unat base + 134217728 < 9223372036854775808"
  obtains h js where "init_once (Some base) st = Some (Inr \<lparr>initialised = True, heap = h\<rparr>)"
    "heap_rep 14 h js {}" "heap_reach 14 h {}" "\<forall>r<8. slab_room h r" "global_buddy h = base"
    "unat (pool_begin (load_buddy (pmem h) base)) = unat base + 8192"
proof -
  obtain m' where m': "buddy_init (pmem (heap st)) base (base + kPenguinMallocSize) = Some (base, m')" "new_pool m' base 14"
    "unat (pool_begin (load_buddy m' base)) = unat base + 8192"
    by (rule default_pool [OF assms(2-4)])
  then have P: "new_pool (pmem ((heap st)\<lparr>pmem := m'\<rparr>)) base 14" by simp
  obtain h js where h: "penguin_malloc_init ((heap st)\<lparr>pmem := m'\<rparr>) base = Some h" "heap_rep 14 h js {}"
    "\<forall>r<8. slab_room h r" "global_buddy h = base"
    "load_buddy (pmem h) base = load_buddy (pmem ((heap st)\<lparr>pmem := m'\<rparr>)) base"
    using malloc_init_rep [OF P] by blast
  have "init_once (Some base) st = Some (Inr \<lparr>initialised = True, heap = h\<rparr>)"
    using assms(1) m'(1) h(1) by (simp add: init_once_def init_allocator_def)
  then show ?thesis using that [of h js] h(2-5) m'(3) heap_reach.start [OF P h(1)] by simp
qed

text \<open>
  C13: the first \<open>operator new\<close> of a process, for less than 4088 bytes, sets up the heap in the
  128 MiB that \<open>mmap\<close> returns, at a page boundary, and returns the address of an object, the only
  one in use, that holds the size and lies inside the mapping; \<open>operator delete\<close> takes it back. When
  \<open>mmap\<close> fails the process is aborted, and when the heap has been set up it is not set up again.
\<close>

theorem operator_new_first:
  assumes "\<not> initialised st" "base \<noteq> NULL" "unat base mod 4096 = 0"
    and "unat base + 134217728 < 9223372036854775808" "unat sz < 4088"
  shows "operator_new None st sz = Some (Inl Aborted)
    \<and> (\<exists>p st' ob. operator_new (Some base) st sz = Some (Inr (p, st')) \<and> p \<noteq> NULL
         \<and> heap_reach 14 (heap st') {ob} \<and> p = obj_addr (heap st') ob \<and> unat sz \<le> obj_size 14 ob
         \<and> (\<forall>x. in_object 14 (heap st') ob x \<longrightarrow> unat base \<le> unat x \<and> unat x < unat base + 134217728)
         \<and> init_once None st' = Some (Inr st')
         \<and> (\<exists>st''. operator_delete st' p = Some st'' \<and> heap_reach 14 (heap st'') {}))"
proof -
  obtain h js where h: "init_once (Some base) st = Some (Inr \<lparr>initialised = True, heap = h\<rparr>)"
    "heap_rep 14 h js {}" "heap_reach 14 h {}" "\<forall>r<8. slab_room h r" "global_buddy h = base"
    "unat (pool_begin (load_buddy (pmem h) base)) = unat base + 8192"
    by (rule init_once_default [OF assms(1-4)])
  obtain r where r8: "r < 8" "unat (best_fit_slab_index (sz + 8)) = r" by (rule small_class [OF assms(5)])
  then have sv: "servable h sz" using h(4) assms(5) by (simp add: servable_def)
  from h(2) sv show ?thesis
  proof (cases rule: heap_malloc_cases)
    case null
    then show ?thesis using assms(5) by simp
  next
    case (object ob h')
    define st' where "st' = \<lparr>initialised = True, heap = h'\<rparr>"
    have n: "operator_new (Some base) st sz = Some (Inr (obj_addr h' ob, st'))"
      using h(1) object(1,2) by (simp add: operator_new_def st'_def)
    have "heap_step 14 (h, {}) (h', {ob})" using heap_step.malloc [OF sv object(1,2), of 14 "{}"] object(4) by simp
    then have r: "heap_reach 14 h' {ob}" by (rule heap_reach.step [OF h(3)])
    have "releasable (malloc_object h sz p)" for p using r8 by (simp add: malloc_object_def)
    then have rel: "releasable ob" using object(4) by metis
    obtain h'' where h'': "penguin_free h' (obj_addr h' ob) = Some h''"
      by (rule heap_free_rep [OF object(5) insertI1 rel])
    have "heap_reach 14 h'' {}"
      using heap_reach.step [OF r heap_step.free [OF insertI1 rel h'']] by simp
    then have d: "\<exists>st''. operator_delete st' (obj_addr h' ob) = Some st'' \<and> heap_reach 14 (heap st'') {}"
      using h'' by (simp add: operator_delete_def st'_def)
    have ld: "global_buddy h' = base" "unat (pool_begin (load_buddy (pmem h') base)) = unat base + 8192"
      using object(6) h(5,6) by (simp_all add: keeps_objects_def)
    have "unat base \<le> unat x \<and> unat x < unat base + 134217728" if "in_object 14 h' ob x" for x
      using object_in_pool [OF object(5) insertI1 that] ld by simp
    moreover have "operator_new None st sz = Some (Inl Aborted)"
      using assms(1) by (simp add: operator_new_def init_once_def init_allocator_def)
    moreover have "init_once None st' = Some (Inr st')" by (simp add: init_once_def st'_def)
    moreover have "unat sz \<le> obj_size 14 ob" using object(7) assms(5) by blast
    moreover have "heap st' = h'" by (simp add: st'_def)
    ultimately show ?thesis using n r d object(2) by metis
  qed
qed

theorem operator_new_first_witness:
  "\<exists>p st'. operator_new (Some 4096) \<lparr>initialised = False, heap = demo_state\<rparr> 100 = Some (Inr (p, st')) \<and> p \<noteq> NULL"
  using operator_new_first [of "\<lparr>initialised = False, heap = demo_state\<rparr>" 4096 100] by auto

end
