(* ===== verification/Slab_Grow.thy ===== *)
theory Slab_Grow
  imports Penguin_System
begin

section \<open>A slab that takes a second cache and gives it back\<close>

text \<open>
  What \<open>slab_alloc\<close> does when there is no cache with a free object: it takes 64 more pages for a
  second cache. When the objects in it are released, the pages go back to the buddy allocator, but
  the root cache keeps its pointer to them.
\<close>

subsection \<open>The second cache\<close>

text \<open>A root cache and a new block that do not overlap.\<close>

definition apart_block :: "ptr \<Rightarrow> ptr \<Rightarrow> bool" where
  "apart_block alloc b \<longleftrightarrow>
     unat alloc + 262144 \<le> 18446744073709551616 \<and> unat b + 262144 \<le> 18446744073709551616 \<and> b \<noteq> NULL \<and> alloc \<noteq> NULL
     \<and> (unat alloc + 262144 \<le> unat b \<or> unat b + 262144 \<le> unat alloc)"

lemma block_offsets:
  fixes b :: ptr
  assumes "unat b + 262144 \<le> 18446744073709551616"
  shows "unat (b + 8) = unat b + 8" "unat (b + 16) = unat b + 16" "unat (b + 24) = unat b + 24"
    "unat (b + 32) = unat b + 32" "unat (b + 40) = unat b + 40" "unat (b + 48) = unat b + 48"
    "unat (b + 56) = unat b + 56" "unat (b + 64) = unat b + 64" "unat (b + 72) = unat b + 72"
    "unat (b + 80) = unat b + 80" "unat (b + 88) = unat b + 88" "unat (b + 96) = unat b + 96"
    "unat (b + 104) = unat b + 104" "unat (b + 112) = unat b + 112"
proof -
  have u: "unat (b + numeral k) = unat b + numeral k" if "(numeral k :: nat) \<le> 120" for k
    using assms that by (intro unat_add_numeral) linarith
  show "unat (b + 8) = unat b + 8" "unat (b + 16) = unat b + 16" "unat (b + 24) = unat b + 24"
    "unat (b + 32) = unat b + 32" "unat (b + 40) = unat b + 40" "unat (b + 48) = unat b + 48"
    "unat (b + 56) = unat b + 56" "unat (b + 64) = unat b + 64" "unat (b + 72) = unat b + 72"
    "unat (b + 80) = unat b + 80" "unat (b + 88) = unat b + 88" "unat (b + 96) = unat b + 96"
    "unat (b + 104) = unat b + 104" "unat (b + 112) = unat b + 112"
    by (simp_all add: u)
qed

lemma apart_rd64:
  assumes "apart_block alloc b" "in_region alloc 262137 x" "in_region b 262137 y"
  shows "rd64 (wr64 m x v) y = rd64 m y" "rd64 (wr64 m y v) x = rd64 m x"
  using assms by (auto simp: apart_block_def in_region_def intro!: rd64_wr64_apart)

definition untouched :: "ptr \<Rightarrow> ptr \<Rightarrow> ptr \<Rightarrow> bool" where
  "untouched alloc b x \<longleftrightarrow> \<not> in_region b 262144 x \<and> \<not> in_region (alloc + 16) 16 x \<and> \<not> in_region (alloc + 80) 8 x"

lemma new_cache:
  assumes "apart_block alloc b" "8 \<le> unat (rd64 m (alloc + 32))" "unat (rd64 m (alloc + 32)) \<le> 131036"
    and "rd64 m (alloc + 8) = alloc + 48" "rd64 m (alloc + 16) = NULL" "rd64 m (alloc + 24) = alloc + 48"
    and "rd64 m (alloc + 96) \<noteq> 0"
  shows "\<exists>m2 m3. slab_cache_init m alloc b (b + 262144) = Some m2 \<and> rd64 m2 (alloc + 16) = b
    \<and> slab_cache_alloc m2 alloc b = Some (b + 80, m3)
    \<and> rd64 m3 (alloc + 16) = b \<and> rd64 m3 (alloc + 80) = b \<and> rd64 m3 (b + 24) = alloc + 48 \<and> rd64 m3 (b + 32) = NULL
    \<and> rd64 m3 (b + 40) = NULL \<and> rd64 m3 (b + 48) = 1 \<and> m3 (b + 64) = 0 \<and> rd64 m3 (b + 72) = b
    \<and> (\<forall>x. untouched alloc b x \<longrightarrow> m3 x = m x)"
proof -
  have P: "unat alloc + 262144 \<le> 18446744073709551616" "unat b + 262144 \<le> 18446744073709551616" "b \<noteq> NULL" "alloc \<noteq> NULL"
    "unat alloc + 262144 \<le> unat b \<or> unat b + 262144 \<le> unat alloc"
    using assms(1) by (auto simp: apart_block_def)
  note A = block_offsets [OF P(1)] and B = block_offsets [OF P(2)]
  let ?c = "alloc + 48" and ?s = "rd64 m (alloc + 32)"
  have cn: "?c \<noteq> NULL" using A(6) by auto
  have s0: "?s \<noteq> 0" using assms(2) by auto
  have ab: "rd64 (wr64 m' x v) y = rd64 m' y"
    if "in_region alloc 200 x" "in_region b 200 y" for m' x y v
    using that P by (intro rd64_wr64_apart) (auto simp: in_region_def)
  have ba: "rd64 (wr64 m' x v) y = rd64 m' y"
    if "in_region b 200 x" "in_region alloc 200 y" for m' x y v
    using that P by (intro rd64_wr64_apart) (auto simp: in_region_def)
  have bu: "rd64 (m'(b + 64 := v)) y = rd64 m' y" if "in_region alloc 200 y" for m' y v
    using that P by (intro rd64_upd_apart) (auto simp: in_region_def B)
  have wb: "wr64 m' x v (b + 64) = m' (b + 64)" if "in_region alloc 200 x" for m' x v
    using that P by (intro wr64_out) (auto simp: in_region_def B)
  have u262: "unat (b + 262144 - b - 72 :: u64) = 262072" by simp
  note loc = rd64_wr64_apart rd64_upd_apart in_region_def A B ab ba bu wb wr64_out
  define m7 where "m7 = wr64 (wr64 (wr64 (wr64 (wr64 (wr64 (wr64 m b (262072)) (b + 8) b) (b + 16) (b + 72))
      (b + 24) NULL) (b + 32) NULL) (b + 40) NULL) (b + 48) 0"
  have h: "slab_cache_header m b (b + 262144) = m7"
    by (simp add: slab_cache_header_def Let_def m7_def sizeof_slab_cache_header_t_def)
  have a7: "rd64 m7 y = rd64 m y" if "in_region alloc 200 y" for y
    using that by (simp add: m7_def ba in_region_def B)
  have r7: "rd64 m7 b = 262072" "rd64 m7 (b + 16) = b + 72" "rd64 m7 (b + 24) = NULL" "rd64 m7 (b + 32) = NULL"
    "rd64 m7 (b + 40) = NULL" "rd64 m7 (b + 48) = 0"
    using P(2) by (simp_all add: m7_def rd64_wr64_apart B)
  have al: "in_region alloc 200 (alloc + 8)" "in_region alloc 200 (alloc + 16)" "in_region alloc 200 (alloc + 24)"
    "in_region alloc 200 (alloc + 32)" "in_region alloc 200 (alloc + 80)" "in_region alloc 200 (alloc + 96)"
    by (simp_all add: in_region_def A)
  define m8 where "m8 = (wr64 m7 (b + 56) (262072 div ?s))(b + 64 := 0)"
  have a8: "rd64 m8 y = rd64 m y" if "in_region alloc 200 y" for y
    using that by (simp add: m8_def bu ba a7 in_region_def B)
  have r8: "rd64 m8 (b + 16) = b + 72" "rd64 m8 (b + 24) = NULL" "rd64 m8 (b + 32) = NULL"
    "rd64 m8 (b + 40) = NULL" "rd64 m8 (b + 48) = 0" "rd64 m8 (b + 56) = 262072 div ?s" "m8 (b + 64) = 0"
    using P(2) r7 by (simp_all add: m8_def rd64_wr64_apart rd64_upd_apart in_region_def B)
  define m2 where "m2 = wr64 (wr64 (wr64 (wr64 m8 (alloc + 80) b) (b + 24) ?c) (alloc + 24) b) (alloc + 16) b"
  have cadd: "?c + 32 = alloc + 80" "?c + 48 = alloc + 96" by simp_all
  have r2: "rd64 m2 (alloc + 16) = b" "rd64 m2 (alloc + 32) = ?s" "rd64 m2 (alloc + 80) = b" "rd64 m2 (alloc + 96) = rd64 m (alloc + 96)"
    "rd64 m2 (b + 16) = b + 72" "rd64 m2 (b + 24) = ?c" "rd64 m2 (b + 32) = NULL"
    "rd64 m2 (b + 40) = NULL" "rd64 m2 (b + 48) = 0" "rd64 m2 (b + 56) = 262072 div ?s" "m2 (b + 64) = 0"
    using P(1,2) r8 a8 al by (simp_all add: m2_def rd64_wr64_apart A B ab ba wb wr64_out in_region_def)
  have "slab_cache_link m8 alloc b = m2"
  proof -
    have "rd64 m8 (alloc + 8) \<noteq> NULL" using a8 al(1) assms(4) cn by simp
    moreover have "rd64 (wr64 m8 (alloc + 80) b) (alloc + 24) = ?c"
      using P(1) a8 al(3) assms(6) by (simp add: rd64_wr64_apart A)
    moreover have "rd64 (wr64 (wr64 m8 (alloc + 80) b) (b + 24) ?c) (alloc + 24) = ?c"
      using P(1) a8 al(3) assms(6) by (simp add: rd64_wr64_apart A ba in_region_def B)
    moreover have "rd64 (wr64 (wr64 (wr64 m8 (alloc + 80) b) (b + 24) ?c) (alloc + 24) b) (alloc + 16) = NULL"
      using P(1) a8 al(2) assms(5) by (simp add: rd64_wr64_apart A ba in_region_def B)
    ultimately show ?thesis
      using a8 al(3) assms(6) by (simp add: slab_cache_link_def m2_def Let_def cadd)
  qed
  then have init: "slab_cache_init m alloc b (b + 262144) = Some m2"
    using s0 a7 al(4) r7(1) by (simp add: slab_cache_init_def h flip: m8_def)
  define d where "d = 262072 div ?s"
  have "262072 div 131036 \<le> 262072 div unat ?s" using assms(2,3) by (intro div_le_mono2) linarith+
  then have "2 \<le> unat d" by (simp add: d_def unat_div)
  then have d: "d \<noteq> 0" "d \<noteq> 1" by auto
  define m1 where "m1 = wr64 m2 (b + 48) 1"
  have r1: "rd64 m1 (alloc + 16) = b" "rd64 m1 (alloc + 32) = ?s" "rd64 m1 (alloc + 80) = b" "rd64 m1 (alloc + 96) = rd64 m (alloc + 96)"
    "rd64 m1 (b + 16) = b + 72" "rd64 m1 (b + 24) = ?c" "rd64 m1 (b + 32) = NULL"
    "rd64 m1 (b + 40) = NULL" "rd64 m1 (b + 48) = 1" "rd64 m1 (b + 56) = d" "m1 (b + 64) = 0"
    using P(1,2) r2 al by (simp_all add: m1_def d_def rd64_wr64_apart A B ba wr64_out in_region_def)
  have "\<not> rd64 m (alloc + 96) < 1" using assms(7) by (simp add: word_less_nat_alt flip: unat_eq_0)
  then have mv: "\<not> rd64 m1 (?c + 48) < rd64 m1 (b + 48)" by (simp add: cadd r1)
  have sk: "skip_full m1 alloc = Some m1" using d(2) by (subst skip_full.simps) (simp add: r1)
  have "b + 40 \<noteq> NULL" using B(5) by auto
  then have pop: "freelist_pop m1 (b + 40) = (NULL, m1)" by (simp add: freelist_pop_def r1 Let_def)
  define m3 where "m3 = wr64 (wr64 m1 (b + 16) (b + 72 + ?s)) (b + 72) b"
  have "slab_cache_alloc m2 alloc b = Some (b + 80, m3)"
    using d(1) mv sk pop r2(9,10)
    by (simp add: slab_cache_alloc_def Let_def d_def [symmetric] m1_def [symmetric] r1 m3_def sizeof_object_header_def
        split del: if_split cong: if_cong)
  moreover have "rd64 m3 (alloc + 16) = b" "rd64 m3 (alloc + 80) = b" "rd64 m3 (b + 24) = ?c" "rd64 m3 (b + 32) = NULL"
    "rd64 m3 (b + 40) = NULL" "rd64 m3 (b + 48) = 1" "m3 (b + 64) = 0" "rd64 m3 (b + 72) = b"
    using P(1,2) r1 al by (simp_all add: m3_def rd64_wr64_apart A B ba wr64_out in_region_def)
  moreover have "m3 x = m x" if x: "untouched alloc b x" for x
  proof -
    have xb: "wr64 m' y v x = m' x" if "unat b \<le> unat y" "unat y + 8 \<le> unat b + 262144" for m' y v
      using that P(2) x by (intro wr64_out) (auto simp: untouched_def in_region_def)
    have xa: "wr64 m' (alloc + 16) v x = m' x" "wr64 m' (alloc + 24) v x = m' x" "wr64 m' (alloc + 80) v x = m' x" for m' v
      using P(1) x by (auto intro!: wr64_out simp: untouched_def in_region_def A)
    have "x \<noteq> b + 64" using x P(2) by (auto simp: untouched_def in_region_def B)
    then show ?thesis by (simp add: m3_def m1_def m2_def m8_def m7_def xa xb B)
  qed
  ultimately show ?thesis using init r2(1) by blast
qed

subsection \<open>The release of its only object\<close>

definition unchained :: "ptr \<Rightarrow> ptr \<Rightarrow> ptr \<Rightarrow> bool" where
  "unchained alloc b x \<longleftrightarrow> \<not> in_region b 262144 x \<and> \<not> in_region (alloc + 24) 8 x"

lemma empty_cache:
  assumes "apart_block alloc b" "rd64 m alloc = bd" "rd64 m (b + 24) = alloc + 48" "rd64 m (b + 32) = NULL"
    and "rd64 m (b + 48) = 1" "m (b + 64) = 0" "rd64 m (b + 72) = b"
  shows "\<exists>m4. slab_free m alloc (b + 80) =
      (case buddy_free m4 bd b of None \<Rightarrow> None
       | Some m5 \<Rightarrow> Some (if b = rd64 m5 (alloc + 16) then wr64 m5 (alloc + 16) NULL else m5))
    \<and> (\<forall>x. unchained alloc b x \<longrightarrow> m4 x = m x)"
proof -
  have P: "unat alloc + 262144 \<le> 18446744073709551616" "unat b + 262144 \<le> 18446744073709551616" "b \<noteq> NULL" "alloc \<noteq> NULL"
    "unat alloc + 262144 \<le> unat b \<or> unat b + 262144 \<le> unat alloc"
    using assms(1) by (auto simp: apart_block_def)
  note A = block_offsets [OF P(1)] and B = block_offsets [OF P(2)]
  have cn: "alloc + 48 \<noteq> NULL" "b + 40 \<noteq> NULL" "b + 72 \<noteq> NULL" using A(6) B(5,9) by auto
  define m1 where "m1 = wr64 (wr64 (wr64 m (b + 72) (rd64 m (b + 40))) (b + 40) (b + 72)) (b + 48) 0"
  have a1: "rd64 m1 y = rd64 m y" if "in_region alloc 200 y" for y
    using that by (simp add: m1_def apart_rd64(2) [OF assms(1)] in_region_def B)
  have r1: "rd64 m1 (b + 24) = alloc + 48" "rd64 m1 (b + 32) = NULL" "rd64 m1 (b + 48) = 0" "m1 (b + 64) = 0"
    using P(2) assms(3-6) by (simp_all add: m1_def rd64_wr64_apart B wr64_out in_region_def)
  define m4 where "m4 = wr64 m1 (alloc + 24) (alloc + 48)"
  have a1bd: "rd64 m1 alloc = bd" using a1 [of alloc] assms(2) by (simp add: in_region_def)
  have r4: "rd64 m4 alloc = bd" "rd64 m4 (b + 32) = NULL"
    using P(1) r1(2) a1bd by (simp_all add: m4_def rd64_wr64_apart A apart_rd64(1) [OF assms(1)] B in_region_def)
  have "m4 (b + 64) = m1 (b + 64)"
    unfolding m4_def using P(1,2,5) by (intro wr64_out) (auto simp: in_region_def A B)
  then have r4: "rd64 m4 alloc = bd" "m4 (b + 64) = 0" "rd64 m4 (b + 32) = NULL" using r4 r1(4) by simp_all
  have push: "freelist_push m (b + 40) (b + 72) = wr64 (wr64 m (b + 72) (rd64 m (b + 40))) (b + 40) (b + 72)"
    using cn by (simp add: freelist_push_def freelist_set_next_def)
  have "rd64 (wr64 (wr64 m (b + 72) (rd64 m (b + 40))) (b + 40) (b + 72)) (b + 48) = 1"
    using P(2) assms(5) by (simp add: rd64_wr64_apart B)
  then have "slab_cache_free m alloc b (b + 72) = m1"
    using r1(2) by (simp add: slab_cache_free_def push m1_def Let_def)
  moreover have "slab_cache_destroy m1 alloc b = buddy_free m4 bd b"
    using r1 r4 cn(1) by (simp add: slab_cache_destroy_def Let_def m4_def [symmetric])
  moreover have o: "b + 80 - sizeof_object_header = b + 72" by (simp add: sizeof_object_header_def)
  ultimately have "slab_free m alloc (b + 80) =
      (case buddy_free m4 bd b of None \<Rightarrow> None
       | Some m5 \<Rightarrow> Some (if b = rd64 m5 (alloc + 16) then wr64 m5 (alloc + 16) NULL else m5))"
    using assms(7) r1(3,4) by (simp add: slab_free_def o Let_def split: option.split)
  moreover have "m4 x = m x" if x: "unchained alloc b x" for x
  proof -
    have xb: "wr64 m' y v x = m' x" if "unat b \<le> unat y" "unat y + 8 \<le> unat b + 262144" for m' y v
      using that P(2) x by (intro wr64_out) (auto simp: unchained_def in_region_def)
    have "wr64 m' (alloc + 24) v x = m' x" for m' v
      using P(1) x by (auto intro!: wr64_out simp: unchained_def in_region_def A)
    then show ?thesis by (simp add: m4_def m1_def xb B)
  qed
  ultimately show ?thesis by blast
qed

text \<open>
  The release of an object of the root cache while the root cache points to \<open>b\<close>: the word at the
  place of the object count of \<open>b\<close> decides, and two words of \<open>b\<close> are overwritten.
\<close>

lemma release_writes_next:
  assumes "apart_block alloc b" "rd64 m (alloc + 72) = NULL" "rd64 m (alloc + 80) = b" "m (alloc + 112) \<noteq> 0"
    and "in_region (alloc + 120) 262024 x" "unat x + 8 \<le> unat alloc + 262144" "rd64 m x = alloc + 48"
    and "0 < unat (rd64 m (alloc + 96))" "unat (rd64 m (alloc + 96)) - 1 < unat (rd64 m (b + 48))"
  shows "\<exists>m'. slab_free m alloc (x + 8) = Some m' \<and> rd64 m' (b + 24) = NULL \<and> rd64 m' (b + 32) = alloc + 48"
proof -
  have P: "unat alloc + 262144 \<le> 18446744073709551616" "unat b + 262144 \<le> 18446744073709551616" "b \<noteq> NULL" "alloc \<noteq> NULL"
    "unat alloc + 262144 \<le> unat b \<or> unat b + 262144 \<le> unat alloc"
    using assms(1) by (auto simp: apart_block_def)
  note A = block_offsets [OF P(1)] and B = block_offsets [OF P(2)]
  have u120: "unat (alloc + 120) = unat alloc + 120" using P(1) by (intro unat_add_numeral) simp
  have x: "unat alloc + 120 \<le> unat x" "unat x + 8 \<le> unat alloc + 262144" using assms(5,6) u120 by (simp_all add: in_region_def)
  have xn: "x \<noteq> NULL" "alloc + 88 \<noteq> NULL" using x A(11) by auto
  have cadd: "alloc + 48 + 24 = alloc + 72" "alloc + 48 + 32 = alloc + 80" "alloc + 48 + 40 = alloc + 88"
    "alloc + 48 + 48 = alloc + 96" "alloc + 48 + 64 = alloc + 112" by simp_all
  define n where "n = rd64 m (alloc + 96)"
  have n1: "unat (n - 1) = unat n - 1" using assms(8) by (intro unat_sub_one) (auto simp: n_def)
  define m2 where "m2 = wr64 (wr64 (wr64 m x (rd64 m (alloc + 88))) (alloc + 88) x) (alloc + 96) (n - 1)"
  have push: "freelist_push m (alloc + 88) x = wr64 (wr64 m x (rd64 m (alloc + 88))) (alloc + 88) x"
    using xn by (simp add: freelist_push_def freelist_set_next_def)
  have cnt: "rd64 (wr64 (wr64 m x (rd64 m (alloc + 88))) (alloc + 88) x) (alloc + 96) = n"
    using P(1) x by (simp add: rd64_wr64_apart A n_def)
  note ab = apart_rd64 [OF assms(1)]
  have xr: "in_region alloc 262137 x" using x by (simp add: in_region_def)
  have r2: "rd64 m2 (alloc + 72) = NULL" "rd64 m2 (alloc + 80) = b" "rd64 m2 (alloc + 96) = n - 1" "m2 (alloc + 112) \<noteq> 0"
    "rd64 m2 (b + 48) = rd64 m (b + 48)"
    using P(1) x xr assms(2-4) by (simp_all add: m2_def rd64_wr64_apart A B ab wr64_out in_region_def)
  have lt: "rd64 m2 (alloc + 96) < rd64 m2 (b + 48)" using assms(9) r2 n1 by (simp add: word_less_nat_alt n_def)
  define m5 where "m5 = wr64 (wr64 (wr64 (wr64 m2 (b + 32) (alloc + 48)) (b + 24) NULL) (alloc + 72) b) (alloc + 80) (alloc + 48)"
  have mv: "slab_cache_move_down m2 alloc (alloc + 48) = m5"
    using P(1-3) r2 by (simp add: slab_cache_move_down_def cadd Let_def m5_def rd64_wr64_apart A B ab in_region_def)
  have r5: "rd64 m5 (b + 24) = NULL" "rd64 m5 (b + 32) = alloc + 48"
    using P(1,2) by (simp_all add: m5_def rd64_wr64_apart A B ab in_region_def)
  have "wr64 m' y v (alloc + 112) = m' (alloc + 112)" if "in_region b 262137 y" for m' y v
    using that P by (intro wr64_out) (auto simp: in_region_def A)
  then have r5: "rd64 m5 (b + 24) = NULL" "rd64 m5 (b + 32) = alloc + 48" "m5 (alloc + 112) \<noteq> 0"
    using r5 P(1) r2(4) by (simp_all add: m5_def A B wr64_out in_region_def)
  have "slab_cache_free m alloc (alloc + 48) x = m5"
    using lt [unfolded r2(3)] mv P(3) r2(2) by (simp add: slab_cache_free_def cadd push cnt Let_def m2_def [symmetric])
  then have "slab_free m alloc (x + 8) = Some m5"
    using assms(7) r5(3) by (simp add: slab_free_def sizeof_object_header_def cadd Let_def)
  then show ?thesis using r5 by blast
qed

subsection \<open>Growing and shrinking on the buddy allocator\<close>

lemma reach_writes2:
  assumes "buddy_reach bd k m A" "b \<in> A" "c \<in> A"
    and "\<And>x. \<not> in_block (pool_begin (load_buddy m bd)) k b x \<Longrightarrow> \<not> in_block (pool_begin (load_buddy m bd)) k c x \<Longrightarrow> m' x = m x"
  shows "buddy_reach bd k m' A \<and> load_buddy m' bd = load_buddy m bd"
proof -
  define m1 where "m1 x = (if in_block (pool_begin (load_buddy m bd)) k b x then m' x else m x)" for x
  have 1: "buddy_reach bd k m1 A \<and> load_buddy m1 bd = load_buddy m bd"
    by (rule reach_writes [OF assms(1,2)]) (simp add: m1_def)
  have "buddy_reach bd k m' A \<and> load_buddy m' bd = load_buddy m1 bd"
    using 1 assms(4) by (intro reach_writes [OF _ assms(3)]) (auto simp: m1_def)
  then show ?thesis using 1 by simp
qed

text \<open>A request for 64 pages that is served.\<close>

lemma alloc_64_pages:
  assumes "buddy_reach bd k m A" "6 \<le> k" "buddy_alloc m bd 64 = Some (b, m')" "b \<noteq> NULL"
  obtains j where "b = bptr m bd (k - 6) j" "j < 2 ^ (k - 6)" "(k - 6, j) \<notin> A"
    "buddy_reach bd k m' (insert (k - 6, j) A)" "keeps m m' bd k A"
proof -
  let ?bf = "k - 6"
  obtain s where s: "buddy_rep m bd k s" "tree_inv k s A" by (rule buddy_reachE [OF assms(1)])
  note lay = rep_layout [OF s(1)]
  have b64: "best_fit_layer 64 (root_block_size (load_buddy m bd)) = Some (of_nat ?bf)"
    using assms(2) by (intro best_fit_power_of_two [OF layoutD(6) [OF lay]]) auto
  have nz: "(64 :: u64) \<noteq> 0" by simp
  from s nz show ?thesis
  proof (cases rule: buddy_alloc_cases)
    case (full bf)
    then show ?thesis using assms(3,4) by simp
  next
    case (served bf j m1 s')
    have "of_nat bf = (of_nat ?bf :: u64)" using served(1) b64 by simp
    moreover have "unat (of_nat bf :: u64) = bf" "unat (of_nat ?bf :: u64) = ?bf"
      using served(2) layoutD(7) [OF lay] by (auto simp: unat_of_nat64)
    ultimately have bf: "bf = ?bf" by metis
    have e: "b = bptr m bd bf j" "m' = m1" using served(4) assms(3) by simp_all
    have "buddy_reach bd k m' (insert (?bf, j) A)"
      using buddy_reach.step [OF assms(1) buddy_step.alloc [OF nz assms(3,4)]] served(6) by (simp add: e bf)
    then show ?thesis using that served(3,10,11) by (simp add: e bf)
  qed
qed

lemma blocks_64_apart:
  assumes "buddy_layout m bd k" "6 \<le> k" "i < 2 ^ (k - 6)" "j < 2 ^ (k - 6)" "i \<noteq> j"
  shows "apart_block (bptr m bd (k - 6) i) (bptr m bd (k - 6) j)"
proof -
  let ?l = "k - 6"
  have u: "unat (bptr m bd ?l n) = unat (pool_begin (load_buddy m bd)) + n * 262144" if "n < 2 ^ ?l" for n
    using unat_bptr [OF assms(1) _ that] assms(2) by (simp add: block_addr_def)
  have e: "unat (bptr m bd ?l n) + 262144 \<le> 18446744073709551616" if "n < 2 ^ ?l" for n
    using region_block(2) [OF assms(1) _ that] assms(2) by simp
  have z: "unat (pool_begin (load_buddy m bd)) \<noteq> 0" using layoutD(3-5) [OF assms(1)] by linarith
  have nn: "bptr m bd ?l n \<noteq> NULL" if "n < 2 ^ ?l" for n using u [OF that] z by auto
  have "(i + 1) * 262144 \<le> j * 262144 \<or> (j + 1) * 262144 \<le> i * 262144"
    using assms(5) by (metis Suc_eq_plus1 Suc_leI linorder_neqE_nat mult_le_mono1)
  then show ?thesis
    unfolding apart_block_def using e [OF assms(3)] e [OF assms(4)] nn [OF assms(3)] nn [OF assms(4)]
    by (auto simp: u [OF assms(3)] u [OF assms(4)])
qed

text \<open>
  The slab \<open>alloc\<close> lies in the block \<open>ja\<close> of 64 pages of the buddy allocator, which is in use; its
  root cache is its only cache.
\<close>

definition slab_in_block :: "mem \<Rightarrow> ptr \<Rightarrow> nat \<Rightarrow> nat \<Rightarrow> block set \<Rightarrow> ptr \<Rightarrow> bool" where
  "slab_in_block m bd k ja A alloc \<longleftrightarrow>
     buddy_reach bd k m A \<and> 6 \<le> k \<and> (k - 6, ja) \<in> A \<and> alloc = bptr m bd (k - 6) ja
     \<and> rd64 m (s_buddy alloc) = bd \<and> rd64 m (s_first_cache alloc) = alloc + 48
     \<and> rd64 m (s_last_cache alloc) = alloc + 48 \<and> rd64 m (s_cachesize alloc) = 64"

lemma grown:
  assumes "slab_rep m alloc c N s n fs False" "1 \<le> n - length fs" "s \<le> 131036"
    and "slab_in_block m bd k ja A alloc" "buddy_alloc m bd 64 = Some (b, mB)" "b \<noteq> NULL"
  obtains j m1 where "slab_alloc m alloc = Some (b + 80, m1)" "b = bptr m bd (k - 6) j" "j < 2 ^ (k - 6)" "(k - 6, j) \<notin> A"
    "buddy_reach bd k m1 (insert (k - 6, j) A)" "load_buddy m1 bd = load_buddy m bd" "apart_block alloc b"
    "rd64 m1 (b + 24) = alloc + 48" "rd64 m1 (b + 32) = NULL" "rd64 m1 (b + 48) = 1" "m1 (b + 64) = 0" "rd64 m1 (b + 72) = b"
    "rd64 m1 (alloc + 80) = b"
    "\<And>x. in_region alloc 262144 x \<Longrightarrow> \<not> in_region (alloc + 16) 16 x \<Longrightarrow> \<not> in_region (alloc + 80) 8 x \<Longrightarrow> m1 x = m x"
    "rd64 m1 (alloc + 16) = b"
proof -
  let ?l = "k - 6"
  note R = slab_repD [OF assms(1)]
  have I: "buddy_reach bd k m A" "6 \<le> k" "(?l, ja) \<in> A" "alloc = bptr m bd ?l ja" "rd64 m alloc = bd"
    "rd64 m (alloc + 8) = alloc + 48" "rd64 m (alloc + 24) = alloc + 48" "rd64 m (alloc + 40) = 64"
    using assms(4) by (auto simp: slab_in_block_def)
  note lay = reach_layout [OF I(1)]
  have ja: "ja < 2 ^ ?l" using lay(2) [OF I(3)] by simp
  have end_a: "unat alloc + 262144 \<le> 18446744073709551616"
    using region_block(2) [OF lay(1) diff_le_self ja] I(2) unfolding I(4) by simp
  note A = block_offsets [OF end_a]
  have c: "c = alloc + 48" using slab_addresses(3) [OF R(1)] A(6) by (simp add: u64_eq_iff)
  have c48: "c + 48 = alloc + 96" by (simp add: c)
  have F: "rd64 m (alloc + 16) = NULL" "8 \<le> unat (rd64 m (alloc + 32))" "unat (rd64 m (alloc + 32)) \<le> 131036"
    "rd64 m (alloc + 96) \<noteq> 0"
    using R(1,8) R(7) [unfolded c48] assms(2,3) by (auto simp: slab_geometry_def)
  obtain j where j: "b = bptr m bd ?l j" "j < 2 ^ ?l" "(?l, j) \<notin> A" "buddy_reach bd k mB (insert (?l, j) A)"
    "keeps m mB bd k A"
    by (rule alloc_64_pages [OF I(1,2) assms(5,6)])
  have ld: "load_buddy mB bd = load_buddy m bd" by (rule keeps_load [OF j(5)])
  have ap: "apart_block alloc b"
    unfolding I(4) j(1) using I(3) j(3) by (intro blocks_64_apart [OF lay(1) I(2) ja j(2)]) auto
  have blk: "in_block (pool_begin (load_buddy m bd)) k (?l, i) x \<longleftrightarrow> in_region (bptr m bd ?l i) 262144 x"
    if "i < 2 ^ ?l" for i x
    using region_block(3) [OF lay(1) diff_le_self that, of x] I(2) by simp
  have same: "mB x = m x" if "in_region alloc 262144 x" for x
    using j(5) I(3) that blk [OF ja] unfolding keeps_def I(4) by blast
  have sr: "rd64 mB y = rd64 m y" if "in_region alloc 200 y" for y
    using that end_a same by (intro rd64_same_on) (auto simp: same_on_def in_region_def)
  have al: "rd64 mB (alloc + 8) = alloc + 48" "rd64 mB (alloc + 16) = NULL" "rd64 mB (alloc + 24) = alloc + 48"
    "rd64 mB (alloc + 32) = rd64 m (alloc + 32)" "rd64 mB (alloc + 40) = 64" "rd64 mB (alloc + 96) \<noteq> 0"
    using sr I(6-8) F by (simp_all add: in_region_def A block_offsets)
  obtain m2' m3 where N: "slab_cache_init mB alloc b (b + 262144) = Some m2'" "rd64 m2' (alloc + 16) = b"
    "slab_cache_alloc m2' alloc b = Some (b + 80, m3)"
    "rd64 m3 (alloc + 80) = b" "rd64 m3 (b + 24) = alloc + 48" "rd64 m3 (b + 32) = NULL"
    "rd64 m3 (b + 48) = 1" "m3 (b + 64) = 0" "rd64 m3 (b + 72) = b"
    "\<And>x. untouched alloc b x \<Longrightarrow> m3 x = mB x" "rd64 m3 (alloc + 16) = b"
    using new_cache [OF ap, of mB] al F by auto
  have "rd64 mB (alloc + 40) * PAGE_SIZE = 262144" by (simp add: al PAGE_SIZE_def)
  then have e: "slab_alloc m alloc = Some (b + 80, m3)"
    using assms(5,6) F(1) N(1-3) by (simp add: slab_alloc_def I(5,8))
  have a16: "in_region alloc 262144 x" if "in_region (alloc + 16) 16 x \<or> in_region (alloc + 80) 8 x" for x
    using that by (auto simp: in_region_def A)
  have "buddy_reach bd k m3 (insert (?l, j) A) \<and> load_buddy m3 bd = load_buddy mB bd"
    using N(10) a16 blk [OF ja] blk [OF j(2)] I(3)
    by (intro reach_writes2 [OF j(4), of "(?l, j)" "(?l, ja)"])
      (auto simp: ld untouched_def I(4) [symmetric] j(1) [symmetric])
  moreover have "m3 x = m x" if x: "in_region alloc 262144 x" "\<not> in_region (alloc + 16) 16 x" "\<not> in_region (alloc + 80) 8 x" for x
  proof -
    have "\<not> in_region b 262144 x" using x(1) ap by (auto simp: apart_block_def in_region_def)
    then show ?thesis using N(10) [of x] same x by (simp add: untouched_def)
  qed
  ultimately show ?thesis using that [OF e j(1-3)] N(4-9,11) ap ld by simp
qed

lemma shrunk:
  assumes "buddy_reach bd k m (insert (k - 6, j) A)" "6 \<le> k" "(k - 6, j) \<notin> A" "(k - 6, ja) \<in> A" "even j"
    and "alloc = bptr m bd (k - 6) ja" "b = bptr m bd (k - 6) j" "apart_block alloc b" "rd64 m alloc = bd"
    and "rd64 m (b + 24) = alloc + 48" "rd64 m (b + 32) = NULL" "rd64 m (b + 48) = 1" "m (b + 64) = 0" "rd64 m (b + 72) = b"
  obtains m' where "slab_free m alloc (b + 80) = Some m'" "buddy_reach bd k m' A"
    "\<And>x. in_region alloc 262144 x \<Longrightarrow> \<not> in_region (alloc + 16) 16 x \<Longrightarrow> m' x = m x"
proof -
  let ?l = "k - 6" and ?A = "insert (k - 6, j) A"
  note lay = reach_layout [OF assms(1)]
  have V: "ja < 2 ^ ?l" "j < 2 ^ ?l" using lay(2) [of ?l ja] lay(2) [of ?l j] assms(4) by auto
  have end_a: "unat alloc + 262144 \<le> 18446744073709551616" using assms(8) by (simp add: apart_block_def)
  note A = block_offsets [OF end_a]
  have blk: "in_block (pool_begin (load_buddy m bd)) k (?l, i) x \<longleftrightarrow> in_region (bptr m bd ?l i) 262144 x"
    if "i < 2 ^ ?l" for i x
    using region_block(3) [OF lay(1) diff_le_self that, of x] assms(2) by simp
  obtain m4 where m4: "slab_free m alloc (b + 80) =
      (case buddy_free m4 bd b of None \<Rightarrow> None
       | Some m5 \<Rightarrow> Some (if b = rd64 m5 (alloc + 16) then wr64 m5 (alloc + 16) NULL else m5))"
    "\<And>x. unchained alloc b x \<Longrightarrow> m4 x = m x"
    using empty_cache [OF assms(8-14)] by blast
  have a24: "in_region alloc 262144 x" if "in_region (alloc + 24) 8 x" for x using that by (simp add: in_region_def A)
  have r4: "buddy_reach bd k m4 ?A \<and> load_buddy m4 bd = load_buddy m bd"
    using m4(2) a24 blk [OF V(1)] blk [OF V(2)] assms(4)
    by (intro reach_writes2 [OF assms(1), of "(?l, j)" "(?l, ja)"])
      (auto simp: unchained_def assms(6) [symmetric] assms(7) [symmetric])
  have ld4: "load_buddy m4 bd = load_buddy m bd" and reach4: "buddy_reach bd k m4 ?A" using r4 by auto
  obtain s where s: "buddy_rep m4 bd k s" "tree_inv k s ?A" "k \<le> 31" by (rule buddy_reachE [OF reach4])
  obtain m5 where m5: "buddy_free m4 bd (bptr m4 bd ?l j) = Some m5" "keeps m4 m5 bd k (?A - {(?l, j)})"
    by (rule buddy_free_even [OF s(1,2) insertI1 assms(5) s(3)])
  have b4: "bptr m4 bd ?l j = b" using bptr_cong [OF ld4] assms(7) by simp
  have AA: "?A - {(?l, j)} = A" using assms(3) by auto
  have r5: "buddy_reach bd k m5 A"
    using buddy_reach.step [OF reach4 buddy_step.release [OF insertI1 assms(5) m5(1)]] unfolding AA .
  have ld5: "load_buddy m5 bd = load_buddy m bd" using keeps_load [OF m5(2)] ld4 by simp
  define m' where "m' = (if b = rd64 m5 (alloc + 16) then wr64 m5 (alloc + 16) NULL else m5)"
  have w: "m' x = m5 x" if "\<not> in_region (alloc + 16) 8 x" for x
    using that end_a by (auto simp: m'_def A intro!: wr64_out)
  have "buddy_reach bd k m' A \<and> load_buddy m' bd = load_buddy m5 bd"
  proof (rule reach_writes [OF r5 assms(4)])
    fix x assume "\<not> in_block (pool_begin (load_buddy m5 bd)) k (?l, ja) x"
    then have "\<not> in_region alloc 262144 x" using blk [OF V(1)] by (simp add: ld5 assms(6))
    then show "m' x = m5 x" by (intro w) (auto simp: in_region_def A)
  qed
  moreover have "m' x = m x" if x: "in_region alloc 262144 x" "\<not> in_region (alloc + 16) 16 x" for x
  proof -
    have "m' x = m5 x" using x(2) by (intro w) (auto simp: in_region_def A)
    also have "\<dots> = m4 x"
      using m5(2) assms(4) x(1) blk [OF V(1)] unfolding keeps_def AA ld4 assms(6) by blast
    also have "\<dots> = m x"
      using x assms(8) by (intro m4(2)) (auto simp: unchained_def apart_block_def in_region_def A)
    finally show ?thesis .
  qed
  ultimately show ?thesis using that [of m'] m4(1) m5(1) by (simp add: b4 m'_def)
qed

text \<open>
  C24: the slab uses pages it has given back. When a slab in its block of 64 pages whose only cache,
  the root cache, counts as full (\<open>first_free_cache\<close> is \<open>NULL\<close>) and has an object in use is asked
  for one more of at most 131036 bytes with its header, and the buddy allocator has 64 pages for it, it returns an object in a new cache in these pages. When this object is released next, and the
  pages are a block of even index, they go back to the buddy allocator; but the root cache still points
  to them. In every memory in which the block of the slab itself is as it is then, the release of any
  object of the root cache overwrites two words in these pages, whoever owns them by then, when the
  number found in them at the place of the object count is at least the number of objects in use in
  the root cache.
\<close>

theorem slab_use_after_free:
  assumes "slab_rep m alloc c N s n fs False" "1 \<le> n - length fs" "s \<le> 131036" "N * s \<le> 262024"
    and "slab_in_block m bd k ja A alloc" "buddy_alloc m bd 64 = Some (b, mB)" "b \<noteq> NULL"
  shows "\<exists>j m1. slab_alloc m alloc = Some (b + 80, m1) \<and> b = bptr m bd (k - 6) j \<and> (k - 6, j) \<notin> A
    \<and> buddy_reach bd k m1 (insert (k - 6, j) A)
    \<and> (even j \<longrightarrow> (\<exists>m2. slab_free m1 alloc (b + 80) = Some m2 \<and> buddy_reach bd k m2 A \<and> rd64 m2 (c_next_cache c) = b
         \<and> (\<forall>m3 i. same_on alloc 262144 m3 m2 \<and> i \<in> live n fs \<and> n - length fs \<le> unat (rd64 m3 (b + 48)) \<longrightarrow>
              (\<exists>m4. slab_free m3 alloc (slot c s i + 8) = Some m4
                 \<and> rd64 m4 (b + 24) = NULL \<and> rd64 m4 (b + 32) = c))))"
proof -
  let ?l = "k - 6"
  note R = slab_repD [OF assms(1)]
  obtain j m1 where G: "slab_alloc m alloc = Some (b + 80, m1)" "b = bptr m bd ?l j" "j < 2 ^ ?l" "(?l, j) \<notin> A"
    "buddy_reach bd k m1 (insert (?l, j) A)" "load_buddy m1 bd = load_buddy m bd" "apart_block alloc b"
    "rd64 m1 (b + 24) = alloc + 48" "rd64 m1 (b + 32) = NULL" "rd64 m1 (b + 48) = 1" "m1 (b + 64) = 0" "rd64 m1 (b + 72) = b"
    "rd64 m1 (alloc + 80) = b"
    "\<And>x. in_region alloc 262144 x \<Longrightarrow> \<not> in_region (alloc + 16) 16 x \<Longrightarrow> \<not> in_region (alloc + 80) 8 x \<Longrightarrow> m1 x = m x"
    by (rule grown [OF assms(1-3,5-7)]) blast
  have I: "6 \<le> k" "(?l, ja) \<in> A" "alloc = bptr m bd ?l ja" "rd64 m alloc = bd"
    using assms(5) by (auto simp: slab_in_block_def)
  have end_a: "unat alloc + 262144 \<le> 18446744073709551616" using G(7) by (simp add: apart_block_def)
  note O = block_offsets [OF end_a]
  have c: "c = alloc + 48" using slab_addresses(3) [OF R(1)] O(6) by (simp add: u64_eq_iff)
  have cadd: "c + 24 = alloc + 72" "c + 32 = alloc + 80" "c + 48 = alloc + 96" "c + 64 = alloc + 112" by (simp_all add: c)
  have shrink: "\<exists>m2. slab_free m1 alloc (b + 80) = Some m2 \<and> buddy_reach bd k m2 A \<and> rd64 m2 (c + 32) = b
      \<and> (\<forall>m3 i. same_on alloc 262144 m3 m2 \<and> i \<in> live n fs \<and> n - length fs \<le> unat (rd64 m3 (b + 48)) \<longrightarrow>
          (\<exists>m4. slab_free m3 alloc (slot c s i + 8) = Some m4 \<and> rd64 m4 (b + 24) = NULL \<and> rd64 m4 (b + 32) = c))"
    if ev: "even j"
  proof -
    have P1: "alloc = bptr m1 bd ?l ja" "b = bptr m1 bd ?l j" using I(3) G(2) bptr_cong [OF G(6)] by simp_all
    have same1: "rd64 m1 y = rd64 m y" if "unat alloc \<le> unat y" "unat y + 8 \<le> unat alloc + 16" for y
      using that end_a by (intro rd64_same_on) (auto simp: same_on_def in_region_def O intro!: G(14))
    then have bd1: "rd64 m1 alloc = bd" using I(4) by simp
    obtain m2 where m2: "slab_free m1 alloc (b + 80) = Some m2" "buddy_reach bd k m2 A"
      "\<And>x. in_region alloc 262144 x \<Longrightarrow> \<not> in_region (alloc + 16) 16 x \<Longrightarrow> m2 x = m1 x"
      by (rule shrunk [OF G(5) I(1) G(4) I(2) ev P1 G(7) bd1 G(8-12)]) blast
    have same: "m2 x = m x" if "in_region alloc 262144 x" "unat alloc + 32 \<le> unat x" "\<not> in_region (alloc + 80) 8 x" for x
      using that m2(3) G(14) by (auto simp: in_region_def O)
    have next2: "rd64 m2 (alloc + 80) = b"
      using G(13) end_a by (subst rd64_same_on [of _ _ m1]) (auto simp: same_on_def in_region_def O intro!: m2(3))
    moreover have "\<exists>m4. slab_free m3 alloc (slot c s i + 8) = Some m4 \<and> rd64 m4 (b + 24) = NULL \<and> rd64 m4 (b + 32) = c"
      if m3: "same_on alloc 262144 m3 m2" "i \<in> live n fs" "n - length fs \<le> unat (rd64 m3 (b + 48))" for m3 i
    proof -
      have i: "i < N" using m3(2) R(2) by (auto simp: live_def)
      have "Suc i * s \<le> N * s" using i by (intro mult_le_mono1) simp
      then have x: "unat (slot c s i) = unat alloc + 120 + i * s" "i * s + s \<le> 262024" "8 \<le> s"
        using unat_slot(1) [OF R(1) i] assms(4) R(1) by (auto simp: slab_geometry_def)
      have to2: "rd64 m3 y = rd64 m2 y" if "unat alloc \<le> unat y" "unat y + 8 \<le> unat alloc + 262144" for y
        using that end_a m3(1) by (intro rd64_same_on) (auto simp: same_on_def in_region_def)
      have to: "rd64 m3 y = rd64 m y"
        if "unat alloc + 32 \<le> unat y" "unat y + 8 \<le> unat alloc + 262144" "unat y + 8 \<le> unat alloc + 80 \<or> unat alloc + 88 \<le> unat y" for y
      proof -
        have "rd64 m2 y = rd64 m y"
          using that end_a by (intro rd64_same_on) (auto simp: same_on_def in_region_def O intro!: same)
        then show ?thesis using to2 that by simp
      qed
      have "m3 (alloc + 112) = m (alloc + 112)"
        using m3(1) end_a same [of "alloc + 112"] by (auto simp: same_on_def in_region_def O)
      then have flag: "m3 (alloc + 112) \<noteq> 0" using R(1) by (simp add: slab_geometry_def cadd)
      have u120: "unat (alloc + 120) = unat alloc + 120" using end_a by (intro unat_add_numeral) simp
      have cnt: "unat (rd64 m3 (alloc + 96)) = n - length fs" using to [of "alloc + 96"] R(7) end_a by (simp add: O cadd)
      have f: "rd64 m3 (alloc + 72) = NULL" "rd64 m3 (alloc + 80) = b" "rd64 m3 (slot c s i) = alloc + 48"
        using to [of "alloc + 72"] to2 [of "alloc + 80"] next2 to [of "slot c s i"] R(1) R(11) [OF m3(2)] x
        by (simp_all add: O slab_geometry_def cadd c [symmetric])
      show ?thesis
        unfolding c
        by (rule release_writes_next [OF G(7) f(1,2) flag, of "slot (alloc + 48) s i"])
          (use x f(3) cnt m3(3) assms(2) in \<open>simp_all add: in_region_def u120 c [symmetric]\<close>)
    qed
    ultimately show ?thesis using m2(1,2) by (auto simp: cadd)
  qed
  show ?thesis using G(1,2,4,5) shrink by blast
qed

text \<open>A slab in the first block of a new pool, with a root cache for one object of 24 bytes, which is in use.\<close>

definition full_slab :: "mem \<Rightarrow> ptr \<Rightarrow> ptr \<Rightarrow> mem" where
  "full_slab m bd p =
     (let m = wr64 (wr64 (wr64 (wr64 (wr64 (wr64 m p bd) (p + 8) (p + 48)) (p + 16) NULL) (p + 24) (p + 48)) (p + 32) 24) (p + 40) 64;
          m = wr64 (wr64 (wr64 (wr64 m (p + 64) (p + 144)) (p + 72) NULL) (p + 80) NULL) (p + 88) NULL
      in (wr64 (wr64 (wr64 m (p + 96) 1) (p + 104) 1) (p + 120) (p + 48))(p + 112 := 1))"

lemma full_slab:
  assumes "unat p + 262144 \<le> 18446744073709551616" "p \<noteq> NULL"
  shows "slab_rep (full_slab m bd p) p (p + 48) 1 24 1 [] False"
    "rd64 (full_slab m bd p) p = bd" "rd64 (full_slab m bd p) (p + 8) = p + 48"
    "rd64 (full_slab m bd p) (p + 24) = p + 48" "rd64 (full_slab m bd p) (p + 40) = 64"
    "\<not> in_region p 262144 x \<Longrightarrow> full_slab m bd p x = m x"
proof -
  note A = block_offsets [OF assms(1)]
  have u120: "unat (p + 120) = unat p + 120" using assms(1) by (intro unat_add_numeral) simp
  let ?m = "full_slab m bd p" and ?c = "p + 48"
  have r: "rd64 ?m p = bd" "rd64 ?m (p + 8) = ?c" "rd64 ?m (p + 16) = NULL" "rd64 ?m (p + 24) = ?c" "rd64 ?m (p + 32) = 24"
    "rd64 ?m (p + 40) = 64" "rd64 ?m (p + 64) = p + 144" "rd64 ?m (p + 72) = NULL" "rd64 ?m (p + 80) = NULL"
    "rd64 ?m (p + 88) = NULL" "rd64 ?m (p + 96) = 1" "rd64 ?m (p + 104) = 1" "rd64 ?m (p + 120) = ?c" "?m (p + 112) = 1"
    using assms(1)
    by (simp_all add: full_slab_def Let_def rd64_wr64_apart rd64_upd_apart in_region_def A u120)
  show "rd64 ?m p = bd" "rd64 ?m (p + 8) = ?c" "rd64 ?m (p + 24) = ?c" "rd64 ?m (p + 40) = 64" by (fact r)+
  have cadd: "?c + 16 = p + 64" "?c + 24 = p + 72" "?c + 32 = p + 80" "?c + 40 = p + 88" "?c + 48 = p + 96" "?c + 56 = p + 104"
    "?c + 64 = p + 112" "slot ?c 24 1 = p + 144" "slot ?c 24 0 = p + 120" by (simp_all add: slot_def)
  have lv: "live 1 [] = {0}" by (auto simp: live_def)
  show "slab_rep ?m p ?c 1 24 1 [] False"
    unfolding slab_rep_def slab_geometry_def cadd lv r using assms A(6) by (simp add: cadd r)
  show "?m x = m x" if x: "\<not> in_region p 262144 x"
  proof -
    have "wr64 m' y v x = m' x" if "unat p \<le> unat y" "unat y + 8 \<le> unat p + 262144" for m' y v
      using that assms(1) x by (intro wr64_out) (auto simp: in_region_def)
    moreover have "x \<noteq> p + 112" using x by (auto simp: in_region_def A)
    ultimately show ?thesis by (simp add: full_slab_def Let_def A u120)
  qed
qed

text \<open>Written into a block of the allocator of a demonstration heap, it is a slab in this block.\<close>

lemma full_slab_in_block:
  assumes "buddy_rep m1 4096 14 s" "tree_inv 14 s A" "buddy_reach 4096 14 m1 A" "(8, j) \<in> A"
  defines "m \<equiv> full_slab m1 4096 (bptr m1 4096 8 j)"
  shows "buddy_rep m 4096 14 s" "slab_in_block m 4096 14 j A (bptr m 4096 8 j)"
    "slab_rep m (bptr m 4096 8 j) (bptr m 4096 8 j + 48) 1 24 1 [] False"
proof -
  note lay = reach_layout [OF assms(3)]
  have V: "j < 2 ^ 8" using lay(2) [OF assms(4)] by simp
  let ?p = "bptr m1 4096 8 j"
  have P: "unat ?p + 262144 \<le> 18446744073709551616" "?p \<noteq> NULL"
    using region_block(2) [OF lay(1), of 8 j] bptr_cell(2) [OF lay(1), of 8 j] V by simp_all
  have out: "m x = m1 x" if "\<not> in_block (pool_begin (load_buddy m1 4096)) 14 (8, j) x" for x
    unfolding m_def using that region_block(3) [OF lay(1), of 8 j x] V by (intro full_slab(6) [OF P]) simp
  have R: "buddy_reach 4096 14 m A \<and> load_buddy m 4096 = load_buddy m1 4096"
    by (rule reach_writes [OF assms(3,4) out])
  have e: "bptr m 4096 8 j = ?p" using R by (intro bptr_cong) simp
  show "buddy_rep m 4096 14 s" by (rule rep_writes [OF assms(1,2,4) out])
  show "slab_in_block m 4096 14 j A (bptr m 4096 8 j)"
    unfolding slab_in_block_def e using R assms(4) full_slab(2-5) [OF P, of m1 4096] by (simp add: e [unfolded m_def] m_def)
  show "slab_rep m (bptr m 4096 8 j) (bptr m 4096 8 j + 48) 1 24 1 [] False"
    unfolding e using full_slab(1) [OF P, of m1 4096] by (simp add: m_def)
qed

text \<open>A request for 64 pages that can be served.\<close>

lemma demo_serve64:
  assumes "buddy_rep m 4096 14 s" "tree_inv 14 s A" "buddy_reach 4096 14 m A" "\<exists>l\<le>8. free_of s l \<noteq> []"
  obtains i m' s' where "buddy_alloc m 4096 64 = Some (bptr m 4096 8 i, m')" "bptr m 4096 8 i \<noteq> NULL"
    "alloc_abs s 8 = Some (i, s')" "buddy_rep m' 4096 14 s'" "tree_inv 14 s' (insert (8, i) A)" "(8, i) \<notin> A"
    "buddy_reach 4096 14 m' (insert (8, i) A)" "load_buddy m' 4096 = load_buddy m 4096"
proof -
  have nz: "(64 :: u64) \<noteq> 0" by simp
  have b64: "best_fit_layer 64 (root_block_size (load_buddy m 4096)) = Some (of_nat 8)"
    using best_fit_power_of_two [OF layoutD(6) [OF rep_layout [OF assms(1)]], of 64 6] by simp
  have eight: "bf = 8" if "best_fit_layer 64 (root_block_size (load_buddy m 4096)) = Some (of_nat bf)" "bf \<le> 14" for bf
  proof -
    have "unat (of_nat bf :: u64) = unat (of_nat 8 :: u64)" using that(1) b64 by simp
    then show ?thesis using that(2) by (simp add: unat_of_nat64)
  qed
  from assms(1,2) nz show ?thesis
  proof (cases rule: buddy_alloc_cases)
    case (full bf)
    then show ?thesis using eight [OF full(1,2)] assms(4) by blast
  next
    case (served bf i m' s')
    note bf = eight [OF served(1,2)]
    have "buddy_reach 4096 14 m' (insert (8, i) A)"
      using buddy_reach.step [OF assms(3) buddy_step.alloc [OF nz served(4,5)]] served(6) by (simp add: bf)
    then show ?thesis using that served keeps_load [OF served(11)] bf by simp
  qed
qed

text \<open>The first block of a new pool has index 0.\<close>

lemma demo_first:
  obtains m s where "buddy_rep m 4096 14 s" "tree_inv 14 s {(8, 0)}" "buddy_reach 4096 14 m {(8, 0)}" "\<forall>l>8. free_of s l = []"
proof -
  obtain m0 where m0: "new_pool m0 4096 14" by (rule demo_pool)
  then have rep: "buddy_rep m0 4096 14 init_abs" by (simp add: new_pool_def)
  have reach: "buddy_reach 4096 14 m0 {}" by (rule buddy_reach.start [OF rep]) simp
  have "\<exists>l\<le>8. free_of init_abs l \<noteq> []" by (intro exI [of _ 0]) (simp add: init_abs_def)
  with rep tree_inv_init reach obtain i m s where S: "alloc_abs init_abs 8 = Some (i, s)" "buddy_rep m 4096 14 s"
    "tree_inv 14 s (insert (8, i) {})" "buddy_reach 4096 14 m (insert (8, i) {})"
    by (rule demo_serve64)
  have "find_abs init_abs n = 0" for n by (induction n) (simp_all add: init_abs_def)
  then have "i = 0" using S(1) by (simp add: alloc_abs_def init_abs_def Let_def)
  moreover have "\<forall>l>8. free_of s l = []" by (rule alloc_abs_below [OF S(1)]) (simp add: init_abs_def)
  ultimately show ?thesis using that S(2-4) by simp
qed

lemma demo_second:
  assumes "tree_inv 14 s {(8, 0)}" "\<forall>l>8. free_of s l = []"
  shows "\<exists>l\<le>8. free_of s l \<noteq> []"
  using assms by (intro same_layer_served [where js = "[0]" and k = 14]) auto

lemma demo_full:
  obtains m j b mB where "slab_in_block m 4096 14 j {(8, j)} (bptr m 4096 8 j)"
    "slab_rep m (bptr m 4096 8 j) (bptr m 4096 8 j + 48) 1 24 1 [] False"
    "buddy_alloc m 4096 64 = Some (b, mB)" "b \<noteq> NULL"
proof -
  obtain m1 s where D: "buddy_rep m1 4096 14 s" "tree_inv 14 s {(8, 0)}" "buddy_reach 4096 14 m1 {(8, 0)}" "\<forall>l>8. free_of s l = []"
    by (rule demo_first)
  note F = full_slab_in_block [OF D(1-3) insertI1]
  have "buddy_reach 4096 14 (full_slab m1 4096 (bptr m1 4096 8 0)) {(8, 0)}" using F(2) by (simp add: slab_in_block_def)
  from F(1) D(2) this demo_second [OF D(2,4)] obtain i m' where
    "buddy_alloc (full_slab m1 4096 (bptr m1 4096 8 0)) 4096 64 = Some (bptr (full_slab m1 4096 (bptr m1 4096 8 0)) 4096 8 i, m')"
    "bptr (full_slab m1 4096 (bptr m1 4096 8 0)) 4096 8 i \<noteq> NULL"
    by (rule demo_serve64)
  then show ?thesis using that F(2,3) by blast
qed

text \<open>
  The same with a second block, in which the slab is, after the first one has been released: the next
  request is served with the first block again, which has an even index.
\<close>

lemma demo_full_even:
  obtains m j mB where "slab_in_block m 4096 14 j {(8, j)} (bptr m 4096 8 j)" "j \<noteq> 0"
    "slab_rep m (bptr m 4096 8 j) (bptr m 4096 8 j + 48) 1 24 1 [] False"
    "buddy_alloc m 4096 64 = Some (bptr m 4096 8 0, mB)" "bptr m 4096 8 0 \<noteq> NULL"
proof -
  obtain m1 s1 where D: "buddy_rep m1 4096 14 s1" "tree_inv 14 s1 {(8, 0)}" "buddy_reach 4096 14 m1 {(8, 0)}" "\<forall>l>8. free_of s1 l = []"
    by (rule demo_first)
  from D(1-3) demo_second [OF D(2,4)] obtain j m2 s2 where S: "buddy_rep m2 4096 14 s2"
    "tree_inv 14 s2 (insert (8, j) {(8, 0)})" "(8, j) \<notin> {(8 :: nat, 0 :: nat)}" "buddy_reach 4096 14 m2 (insert (8, j) {(8, 0)})"
    by (rule demo_serve64)
  have z: "(8, 0) \<in> insert (8, j) {(8 :: nat, 0 :: nat)}" by simp
  obtain m3 where M: "buddy_free m2 4096 (bptr m2 4096 8 0) = Some m3"
    "buddy_rep m3 4096 14 (push_abs 8 0 (put_bit 8 0 False s2))"
    "tree_inv 14 (push_abs 8 0 (put_bit 8 0 False s2)) (insert (8, j) {(8, 0)} - {(8, 0)})"
    by (rule buddy_free_even [OF S(1,2) z]) auto
  have A: "insert (8, j) {(8, 0)} - {(8, 0)} = {(8 :: nat, j)}" using S(3) by auto
  have reach: "buddy_reach 4096 14 m3 {(8, j)}"
    using buddy_reach.step [OF S(4) buddy_step.release [OF z _ M(1)]] unfolding A by simp
  let ?s = "push_abs 8 0 (put_bit 8 0 False s2)" and ?m = "full_slab m3 4096 (bptr m3 4096 8 j)"
  note F = full_slab_in_block [OF M(2,3) [unfolded A] reach insertI1]
  have f8: "free_of ?s 8 = 0 # free_of s2 8" by (simp add: push_abs_def)
  then have "\<exists>l\<le>8. free_of ?s l \<noteq> []" by (intro exI [of _ 8]) simp
  moreover have "buddy_reach 4096 14 ?m {(8, j)}" using F(2) by (simp add: slab_in_block_def)
  ultimately obtain i mB s' where B: "buddy_alloc ?m 4096 64 = Some (bptr ?m 4096 8 i, mB)" "bptr ?m 4096 8 i \<noteq> NULL"
    "alloc_abs ?s 8 = Some (i, s')"
    using demo_serve64 [OF F(1) M(3) [unfolded A]] by metis
  have "find_abs ?s 8 = 8" using f8 find_abs.simps(2) [of ?s 7] by simp
  then have "i = 0" using B(3) f8 by (simp add: alloc_abs_def)
  then show ?thesis using that F(2,3) B(1,2) S(3) by blast
qed

text \<open>
  The whole story: the slab grows, the only object of the new cache is released and the 64 pages with it,
  a new owner of the pages writes 1 into one of their words, and the release of the object in
  the root cache overwrites two others.
\<close>

theorem slab_use_after_free_witness:
  "\<exists>m i b m1 m2 m4. slab_alloc m (bptr m 4096 8 i) = Some (b + 80, m1) \<and> slab_free m1 (bptr m 4096 8 i) (b + 80) = Some m2
     \<and> buddy_reach 4096 14 m2 {(8, i)} \<and> b = bptr m 4096 8 0 \<and> i \<noteq> 0
     \<and> slab_free (wr64 m2 (b + 48) 1) (bptr m 4096 8 i) (bptr m 4096 8 i + 128) = Some m4
     \<and> rd64 m4 (b + 24) = NULL \<and> rd64 m4 (b + 32) = bptr m 4096 8 i + 48"
proof -
  obtain m i mB where D: "slab_in_block m 4096 14 i {(8, i)} (bptr m 4096 8 i)" "i \<noteq> 0"
    "slab_rep m (bptr m 4096 8 i) (bptr m 4096 8 i + 48) 1 24 1 [] False"
    "buddy_alloc m 4096 64 = Some (bptr m 4096 8 0, mB)" "bptr m 4096 8 0 \<noteq> NULL"
    by (rule demo_full_even)
  let ?a = "bptr m 4096 8 i" and ?b = "bptr m 4096 8 0"
  obtain j m1 where U: "slab_alloc m ?a = Some (?b + 80, m1)" "?b = bptr m 4096 8 j" "(8, j) \<notin> {(8, i)}"
    "buddy_reach 4096 14 m1 (insert (8, j) {(8, i)})"
    "even j \<longrightarrow> (\<exists>m2. slab_free m1 ?a (?b + 80) = Some m2 \<and> buddy_reach 4096 14 m2 {(8, i)} \<and> rd64 m2 (c_next_cache (?a + 48)) = ?b
         \<and> (\<forall>m3 k. same_on ?a 262144 m3 m2 \<and> k \<in> live 1 [] \<and> 1 - length ([] :: nat list) \<le> unat (rd64 m3 (?b + 48)) \<longrightarrow>
              (\<exists>m4. slab_free m3 ?a (slot (?a + 48) 24 k + 8) = Some m4 \<and> rd64 m4 (?b + 24) = NULL \<and> rd64 m4 (?b + 32) = ?a + 48)))"
    using slab_use_after_free [OF D(3) _ _ _ D(1,4,5)] by auto
  have reach: "buddy_reach 4096 14 m {(8, i)}" using D(1) by (simp add: slab_in_block_def)
  note lay = reach_layout [OF reach]
  have V: "i < 2 ^ 8" "j < 2 ^ 8" using lay(2) [of 8 i] reach_layout(2) [OF U(4), of 8 j] by simp_all
  have "block_addr (pool_begin (load_buddy m 4096)) 14 8 0 = block_addr (pool_begin (load_buddy m 4096)) 14 8 j"
    using unat_bptr [OF lay(1), of 8 0] unat_bptr [OF lay(1), of 8 j] V U(2) by simp
  then have "j = 0" by (simp add: block_addr_def)
  then obtain m2 where m2: "slab_free m1 ?a (?b + 80) = Some m2" "buddy_reach 4096 14 m2 {(8, i)}"
    "\<And>m3 k. same_on ?a 262144 m3 m2 \<Longrightarrow> k \<in> live 1 [] \<Longrightarrow> 1 \<le> unat (rd64 m3 (?b + 48)) \<Longrightarrow>
       \<exists>m4. slab_free m3 ?a (slot (?a + 48) 24 k + 8) = Some m4 \<and> rd64 m4 (?b + 24) = NULL \<and> rd64 m4 (?b + 32) = ?a + 48"
    using U(5) by auto
  have ends: "unat ?a + 262144 \<le> 18446744073709551616" "unat ?b + 262144 \<le> 18446744073709551616"
    using region_block(2) [OF lay(1), of 8 i] region_block(2) [OF lay(1), of 8 0] V by simp_all
  note O = block_offsets [OF ends(2)]
  have apart: "unat ?a + 262144 \<le> unat ?b \<or> unat ?b + 262144 \<le> unat ?a"
    using unat_bptr [OF lay(1), of 8 0] unat_bptr [OF lay(1), of 8 i] V D(2) by (simp add: block_addr_def)
  let ?m3 = "wr64 m2 (?b + 48) 1"
  have "same_on ?a 262144 ?m3 m2"
    using apart ends by (auto simp: same_on_def in_region_def O intro!: wr64_out)
  moreover have "rd64 ?m3 (?b + 48) = 1" by simp
  moreover have "0 \<in> live 1 []" by (simp add: live_def)
  ultimately obtain m4 where "slab_free ?m3 ?a (slot (?a + 48) 24 0 + 8) = Some m4"
    "rd64 m4 (?b + 24) = NULL" "rd64 m4 (?b + 32) = ?a + 48"
    using m2(3) [of ?m3 0] by auto
  moreover have "slot (?a + 48) 24 0 + 8 = ?a + 128" by (simp add: slot_def)
  ultimately show ?thesis using U(1) m2(1,2) D(2) by metis
qed

end
