(* ===== verification/Slab_Caches.thy ===== *)
theory Slab_Caches
  imports Slab_Grow
begin

section \<open>A slab with any number of caches\<close>

text \<open>
  A slab that has grown has caches all over the pool, and the code moves them around in a list whose
  links it does not keep consistent. What the links are makes no difference to the objects, though,
  as long as they lead to caches of the slab: this theory proves that whatever is allocated and
  released, in any of the caches, the objects in use are disjoint and keep their bytes.
\<close>

subsection \<open>The caches in memory\<close>

text \<open>
  A cache is the address of its header. The 64 pages of the root cache begin with the struct of the
  slab, those of the others with the header.
\<close>

definition home :: "ptr \<Rightarrow> ptr \<Rightarrow> ptr" where
  "home alloc c = (if c = alloc + 48 then alloc else c)"

definition caches_apart :: "ptr \<Rightarrow> ptr set \<Rightarrow> bool" where
  "caches_apart alloc C \<longleftrightarrow> alloc + 48 \<in> C \<and> alloc \<notin> C
     \<and> (\<forall>c\<in>C. home alloc c \<noteq> NULL \<and> unat (home alloc c) + 262144 \<le> 18446744073709551616)
     \<and> (\<forall>c\<in>C. \<forall>d\<in>C. c \<noteq> d \<longrightarrow>
          unat (home alloc c) + 262144 \<le> unat (home alloc d) \<or> unat (home alloc d) + 262144 \<le> unat (home alloc c))"

text \<open>The cells with links: those of the slab and those of the headers.\<close>

definition link_cell :: "ptr \<Rightarrow> ptr set \<Rightarrow> ptr \<Rightarrow> bool" where
  "link_cell alloc C a \<longleftrightarrow> a \<in> {alloc + 8, alloc + 16, alloc + 24} \<or> (\<exists>c\<in>C. a = c + 24 \<or> a = c + 32)"

definition unlinked :: "ptr \<Rightarrow> ptr set \<Rightarrow> ptr \<Rightarrow> bool" where
  "unlinked alloc C x \<longleftrightarrow> (\<forall>a. link_cell alloc C a \<longrightarrow> \<not> in_region a 8 x)"

lemma root_unat:
  assumes "caches_apart alloc C"
  shows "unat alloc + 262144 \<le> 18446744073709551616" "alloc \<noteq> NULL" "unat (alloc + 48) = unat alloc + 48"
    "unat (alloc + 8) = unat alloc + 8" "unat (alloc + 16) = unat alloc + 16" "unat (alloc + 24) = unat alloc + 24"
    "unat (alloc + 32) = unat alloc + 32" "unat (alloc + 40) = unat alloc + 40" "unat (alloc + 112) = unat alloc + 112"
proof -
  show a: "unat alloc + 262144 \<le> 18446744073709551616" "alloc \<noteq> NULL"
    using assms by (auto simp: caches_apart_def home_def)
  show "unat (alloc + 48) = unat alloc + 48" "unat (alloc + 8) = unat alloc + 8" "unat (alloc + 16) = unat alloc + 16"
    "unat (alloc + 24) = unat alloc + 24" "unat (alloc + 32) = unat alloc + 32" "unat (alloc + 40) = unat alloc + 40"
    "unat (alloc + 112) = unat alloc + 112"
    by (rule block_offsets [OF a(1)])+
qed

lemma cache_unat:
  assumes "caches_apart alloc C" "c \<in> C"
  shows "unat c = unat (home alloc c) + (if c = alloc + 48 then 48 else 0)" "c \<noteq> NULL"
    "unat (home alloc c) + 262144 \<le> 18446744073709551616"
    "unat (c + 16) = unat c + 16" "unat (c + 24) = unat c + 24" "unat (c + 32) = unat c + 32" "unat (c + 40) = unat c + 40"
    "unat (c + 48) = unat c + 48" "unat (c + 56) = unat c + 56" "unat (c + 64) = unat c + 64" "unat (c + 72) = unat c + 72"
proof -
  show e: "unat (home alloc c) + 262144 \<le> 18446744073709551616" using assms by (auto simp: caches_apart_def)
  show u: "unat c = unat (home alloc c) + (if c = alloc + 48 then 48 else 0)"
    using root_unat(3) [OF assms(1)] by (auto simp: home_def)
  have "home alloc c \<noteq> NULL" using assms by (auto simp: caches_apart_def)
  then show "c \<noteq> NULL" using u by (auto simp flip: unat_eq_0)
  have "unat c + 72 < 18446744073709551616" using u e by (simp split: if_splits)
  then have "unat (c + numeral k) = unat c + numeral k" if "(numeral k :: nat) \<le> 72" for k
    using that by (intro unat_add_numeral) linarith
  then show "unat (c + 16) = unat c + 16" "unat (c + 24) = unat c + 24" "unat (c + 32) = unat c + 32" "unat (c + 40) = unat c + 40"
    "unat (c + 48) = unat c + 48" "unat (c + 56) = unat c + 56" "unat (c + 64) = unat c + 64" "unat (c + 72) = unat c + 72"
    by simp_all
qed

lemma cache_near:
  assumes "caches_apart alloc C" "c \<in> C"
  shows "unat (home alloc c) \<le> unat c" "unat c \<le> unat (home alloc c) + 48"
  using cache_unat(1) [OF assms] by simp_all

lemma homes_apart:
  assumes "caches_apart alloc C" "c \<in> C" "d \<in> C" "in_region (home alloc c) 262144 x" "in_region (home alloc d) 262144 x"
  shows "c = d"
proof (rule ccontr)
  assume "c \<noteq> d"
  then have "unat (home alloc c) + 262144 \<le> unat (home alloc d) \<or> unat (home alloc d) + 262144 \<le> unat (home alloc c)"
    using assms(1-3) unfolding caches_apart_def by blast
  then show False using assms(4,5) by (auto simp: in_region_def)
qed

text \<open>Every link cell lies in the home of a cache.\<close>

lemma link_cell_home:
  assumes "caches_apart alloc C" "link_cell alloc C a"
  obtains c where "c \<in> C" "unat (home alloc c) \<le> unat a" "unat a + 8 \<le> unat (home alloc c) + 262144"
    "unat a = unat c + 24 \<or> unat a = unat c + 32 \<or> c = alloc + 48 \<and> unat a \<in> {unat alloc + 8, unat alloc + 16, unat alloc + 24}"
proof -
  note R = root_unat [OF assms(1)]
  have rc: "alloc + 48 \<in> C" "home alloc (alloc + 48) = alloc" using assms(1) by (auto simp: caches_apart_def home_def)
  from assms(2) show thesis
    unfolding link_cell_def
  proof (elim disjE bexE)
    assume "a \<in> {alloc + 8, alloc + 16, alloc + 24}"
    then show thesis using that [OF rc(1)] R rc by auto
  next
    fix c assume "c \<in> C" "a = c + 24"
    then show thesis using that [of c] cache_unat [OF assms(1), of c] by (auto split: if_splits)
  next
    fix c assume "c \<in> C" "a = c + 32"
    then show thesis using that [of c] cache_unat [OF assms(1), of c] by (auto split: if_splits)
  qed
qed

lemma link_cells_apart:
  assumes "caches_apart alloc C" "link_cell alloc C a" "link_cell alloc C b"
  shows "rd64 (wr64 m a v) b = (if a = b then v else rd64 m b)"
proof (cases "a = b")
  case False
  obtain c where c: "c \<in> C" "unat (home alloc c) \<le> unat a" "unat a + 8 \<le> unat (home alloc c) + 262144"
    "unat a = unat c + 24 \<or> unat a = unat c + 32 \<or> c = alloc + 48 \<and> unat a \<in> {unat alloc + 8, unat alloc + 16, unat alloc + 24}"
    by (rule link_cell_home [OF assms(1,2)])
  obtain d where d: "d \<in> C" "unat (home alloc d) \<le> unat b" "unat b + 8 \<le> unat (home alloc d) + 262144"
    "unat b = unat d + 24 \<or> unat b = unat d + 32 \<or> d = alloc + 48 \<and> unat b \<in> {unat alloc + 8, unat alloc + 16, unat alloc + 24}"
    by (rule link_cell_home [OF assms(1,3)])
  have n: "unat a \<noteq> unat b" using False by (simp add: u64_eq_iff)
  have ap: "unat a + 8 \<le> unat b \<or> unat b + 8 \<le> unat a"
  proof (cases "c = d")
    case True
    then show ?thesis using c(4) d(4) n root_unat(3) [OF assms(1)] by auto
  next
    case False
    then have "unat (home alloc c) + 262144 \<le> unat (home alloc d) \<or> unat (home alloc d) + 262144 \<le> unat (home alloc c)"
      using assms(1) c(1) d(1) unfolding caches_apart_def by blast
    then show ?thesis using c(2,3) d(2,3) by linarith
  qed
  have "unat (home alloc c) + 262144 \<le> 18446744073709551616" "unat (home alloc d) + 262144 \<le> 18446744073709551616"
    using cache_unat(3) [OF assms(1)] c(1) d(1) by blast+
  then show ?thesis using False ap c(3) d(3) by (simp add: rd64_wr64_apart)
qed simp

lemma unlinked_in_home:
  assumes "caches_apart alloc C" "d \<in> C" "in_region (home alloc d) 262144 x"
    and "unat x < unat d + 24 \<or> unat d + 40 \<le> unat x" "d = alloc + 48 \<longrightarrow> unat x < unat alloc + 8 \<or> unat alloc + 32 \<le> unat x"
  shows "unlinked alloc C x"
  unfolding unlinked_def
proof (intro allI impI notI)
  fix a assume l: "link_cell alloc C a" and x: "in_region a 8 x"
  obtain c where c: "c \<in> C" "unat (home alloc c) \<le> unat a" "unat a + 8 \<le> unat (home alloc c) + 262144"
    "unat a = unat c + 24 \<or> unat a = unat c + 32 \<or> c = alloc + 48 \<and> unat a \<in> {unat alloc + 8, unat alloc + 16, unat alloc + 24}"
    by (rule link_cell_home [OF assms(1) l])
  have "in_region (home alloc c) 262144 x" using x c(2,3) by (auto simp: in_region_def)
  then have "c = d" by (rule homes_apart [OF assms(1) c(1) assms(2) _ assms(3)])
  then show False using c(4) x assms(4,5) by (auto simp: in_region_def)
qed

subsection \<open>The links\<close>

text \<open>All links lead to caches, and the slab always has a first and a last one.\<close>

definition links_ok :: "ptr \<Rightarrow> ptr set \<Rightarrow> mem \<Rightarrow> bool" where
  "links_ok alloc C m \<longleftrightarrow> (\<forall>a. link_cell alloc C a \<longrightarrow> rd64 m a \<in> insert NULL C)
     \<and> rd64 m (alloc + 8) \<in> C \<and> rd64 m (alloc + 24) \<in> C"

definition relinked :: "ptr \<Rightarrow> ptr set \<Rightarrow> mem \<Rightarrow> mem \<Rightarrow> bool" where
  "relinked alloc C m m' \<longleftrightarrow> links_ok alloc C m' \<and> (\<forall>x. unlinked alloc C x \<longrightarrow> m' x = m x)"

lemma relinked_refl: "links_ok alloc C m \<Longrightarrow> relinked alloc C m m"
  by (simp add: relinked_def)

lemma relinked_trans: "relinked alloc C m m1 \<Longrightarrow> relinked alloc C m1 m2 \<Longrightarrow> relinked alloc C m m2"
  by (simp add: relinked_def)

lemma link_cells [simp, intro]:
  "link_cell alloc C (alloc + 8)" "link_cell alloc C (alloc + 16)" "link_cell alloc C (alloc + 24)"
  "c \<in> C \<Longrightarrow> link_cell alloc C (c + 24)" "c \<in> C \<Longrightarrow> link_cell alloc C (c + 32)"
  by (auto simp: link_cell_def)

lemma links_okD:
  assumes "links_ok alloc C m"
  shows "link_cell alloc C a \<Longrightarrow> rd64 m a \<noteq> NULL \<Longrightarrow> rd64 m a \<in> C" "link_cell alloc C a \<Longrightarrow> rd64 m a \<in> insert NULL C"
    "rd64 m (alloc + 8) \<in> C" "rd64 m (alloc + 24) \<in> C"
  using assms unfolding links_ok_def by blast+

lemma relink_write:
  assumes "caches_apart alloc C" "links_ok alloc C m" "link_cell alloc C a" "v \<in> insert NULL C"
    and "a = alloc + 8 \<or> a = alloc + 24 \<Longrightarrow> v \<noteq> NULL"
  shows "relinked alloc C m (wr64 m a v)"
proof -
  obtain c where c: "c \<in> C" "unat a + 8 \<le> unat (home alloc c) + 262144" by (rule link_cell_home [OF assms(1,3)])
  then have "unat a + 8 \<le> 18446744073709551616" using cache_unat(3) [OF assms(1) c(1)] by linarith
  then have "wr64 m a v x = m x" if "unlinked alloc C x" for x
    using that assms(3) by (intro wr64_out) (auto simp: unlinked_def)
  moreover have "links_ok alloc C (wr64 m a v)"
    using assms(2,4,5) unfolding links_ok_def by (auto simp: link_cells_apart [OF assms(1,3)])
  ultimately show ?thesis by (simp add: relinked_def)
qed

lemma relinked_same:
  assumes "relinked alloc C m m'" "\<And>x. in_region a 8 x \<Longrightarrow> unlinked alloc C x" "unat a + 8 \<le> 18446744073709551616"
  shows "rd64 m' a = rd64 m a"
  using assms by (intro rd64_same_on) (auto simp: same_on_def relinked_def)

text \<open>The two kinds of links of a header do not overlap.\<close>

lemma next_prev_differ:
  assumes "caches_apart alloc C" "c \<in> C" "d \<in> C"
  shows "c + 24 \<noteq> d + 32"
proof
  assume e: "c + 24 = d + 32"
  have "in_region (home alloc c) 262144 (c + 24)" "in_region (home alloc d) 262144 (d + 32)"
    using cache_unat(5,6) [OF assms(1,2)] cache_unat(5,6) [OF assms(1,3)] cache_near [OF assms(1,2)] cache_near [OF assms(1,3)]
    by (simp_all add: in_region_def)
  then have "c = d" using homes_apart [OF assms] e by simp
  then show False using e by simp
qed

lemma relink_header:
  assumes "caches_apart alloc C" "links_ok alloc C m" "c \<in> C" "a = c + 24 \<or> a = c + 32" "v \<in> insert NULL C"
  shows "relinked alloc C m (wr64 m a v)"
proof (rule relink_write [OF assms(1,2) _ assms(5)])
  show "link_cell alloc C a" using assms(3,4) by auto
  assume a: "a = alloc + 8 \<or> a = alloc + 24"
  note R = root_unat [OF assms(1)] and U = cache_unat [OF assms(1,3)]
  have rc: "alloc + 48 \<in> C" "home alloc (alloc + 48) = alloc" using assms(1) by (auto simp: caches_apart_def home_def)
  have "in_region alloc 262144 a" using a R by (auto simp: in_region_def)
  moreover have "in_region (home alloc c) 262144 a" using assms(4) U(5,6) cache_near [OF assms(1,3)] by (auto simp: in_region_def)
  ultimately have "c = alloc + 48" using homes_apart [OF assms(1,3) rc(1)] rc(2) by simp
  then have "unat a = unat alloc + 72 \<or> unat a = unat alloc + 80" using assms(4) U R by auto
  then show "v \<noteq> NULL" using a R by auto
qed

text \<open>A move writes four links. It leaves the moved cache as its own neighbour.\<close>

lemma relinked_header4:
  assumes "caches_apart alloc C" "links_ok alloc C m" "c1 \<in> C" "c2 \<in> C" "c3 \<in> C" "c4 \<in> C"
    and "a1 = c1 + 24 \<or> a1 = c1 + 32" "a2 = c2 + 24 \<or> a2 = c2 + 32" "a3 = c3 + 24 \<or> a3 = c3 + 32" "a4 = c4 + 24 \<or> a4 = c4 + 32"
    and "v1 \<in> insert NULL C" "v2 \<in> insert NULL C" "v3 \<in> insert NULL C" "v4 \<in> insert NULL C"
  shows "relinked alloc C m (wr64 (wr64 (wr64 (wr64 m a1 v1) a2 v2) a3 v3) a4 v4)"
proof -
  have ok: "links_ok alloc C m'" if "relinked alloc C m0 m'" for m0 m' using that by (simp add: relinked_def)
  note H = relink_header [OF assms(1)]
  note r1 = H [OF assms(2,3,7,11)]
  note r2 = H [OF ok [OF r1] assms(4,8,12)]
  note r3 = H [OF ok [OF r2] assms(5,9,13)]
  note r4 = H [OF ok [OF r3] assms(6,10,14)]
  show ?thesis by (rule relinked_trans [OF relinked_trans [OF relinked_trans [OF r1 r2] r3] r4])
qed

lemma move_down_eq:
  assumes "caches_apart alloc C" "links_ok alloc C m" "c \<in> C" "rd64 m (c + 32) = n" "n \<noteq> NULL"
  shows "slab_cache_move_down m alloc c = wr64 (wr64 (wr64 (wr64 m (n + 32) c) (n + 24) (rd64 m (c + 24))) (c + 24) n) (c + 32) c"
    and "n \<in> C"
proof -
  show n: "n \<in> C" using links_okD(1) [OF assms(2), of "c + 32"] assms(3-5) by simp
  note lc = link_cells_apart [OF assms(1)]
  have D: "x + 24 \<noteq> y + 32" "y + 32 \<noteq> x + 24" if "x \<in> C" "y \<in> C" for x y using next_prev_differ [OF assms(1) that] by auto
  define m1 where "m1 = wr64 m (n + 32) c"
  define m2 where "m2 = wr64 m1 (n + 24) (rd64 m (c + 24))"
  define m3 where "m3 = wr64 m2 (c + 24) n"
  have 1: "rd64 m1 (c + 32) = n" "rd64 m1 (c + 24) = rd64 m (c + 24)" "rd64 m1 (n + 32) = c"
    using n assms(3,4) D [of n c] D [of c n] D [of c c] D [of n n] by (auto simp: m1_def lc)
  have 2: "rd64 m2 (c + 32) = n" "rd64 m2 (n + 32) = c"
    using n assms(3) 1 D [of n c] D [of c n] D [of n n] by (auto simp: m2_def lc)
  have 3: "rd64 m3 (c + 32) = n" "rd64 m3 (n + 32) = c" "rd64 m3 (c + 24) = n"
    using n assms(3) 2 D [of n c] D [of c n] D [of c c] by (auto simp: m3_def lc)
  have "rd64 (wr64 m3 (c + 32) c) (c + 24) = n" using assms(3) 3 D [of c c] by (auto simp: lc)
  then show "slab_cache_move_down m alloc c = wr64 (wr64 (wr64 (wr64 m (n + 32) c) (n + 24) (rd64 m (c + 24))) (c + 24) n) (c + 32) c"
    using assms(4,5) 1 2 3
    by (simp add: slab_cache_move_down_def Let_def m1_def [symmetric] m2_def [symmetric] m3_def [symmetric])
qed

lemma relinked_move_down:
  assumes "caches_apart alloc C" "links_ok alloc C m" "c \<in> C"
  shows "relinked alloc C m (slab_cache_move_down m alloc c)"
proof (cases "rd64 m (c + 32) = NULL")
  case False
  let ?n = "rd64 m (c + 32)"
  note E = move_down_eq [OF assms refl False]
  show ?thesis
    unfolding E(1) using E(2) assms(3) links_okD(2) [OF assms(2), of "c + 24"]
    by (intro relinked_header4 [OF assms(1,2), of ?n ?n c c]) auto
qed (simp add: slab_cache_move_down_def relinked_refl assms(2))

lemma move_up_eq:
  assumes "caches_apart alloc C" "links_ok alloc C m" "c \<in> C" "rd64 m (c + 24) = n" "n \<noteq> NULL"
  shows "slab_cache_move_up m alloc c = wr64 (wr64 (wr64 (wr64 m (n + 24) c) (n + 32) (rd64 m (c + 32))) (c + 32) n) (c + 24) c"
    and "n \<in> C"
proof -
  show n: "n \<in> C" using links_okD(1) [OF assms(2), of "c + 24"] assms(3-5) by simp
  note lc = link_cells_apart [OF assms(1)]
  have D: "x + 24 \<noteq> y + 32" "y + 32 \<noteq> x + 24" if "x \<in> C" "y \<in> C" for x y using next_prev_differ [OF assms(1) that] by auto
  define m1 where "m1 = wr64 m (n + 24) c"
  define m2 where "m2 = wr64 m1 (n + 32) (rd64 m (c + 32))"
  define m3 where "m3 = wr64 m2 (c + 32) n"
  have 1: "rd64 m1 (c + 24) = n" "rd64 m1 (c + 32) = rd64 m (c + 32)" "rd64 m1 (n + 24) = c"
    using n assms(3,4) D [of n c] D [of c n] D [of c c] D [of n n] by (auto simp: m1_def lc)
  have 2: "rd64 m2 (c + 24) = n" "rd64 m2 (n + 24) = c"
    using n assms(3) 1 D [of n c] D [of c n] D [of n n] by (auto simp: m2_def lc)
  have 3: "rd64 m3 (c + 24) = n" "rd64 m3 (n + 24) = c" "rd64 m3 (c + 32) = n"
    using n assms(3) 2 D [of n c] D [of c n] D [of c c] by (auto simp: m3_def lc)
  have "rd64 (wr64 m3 (c + 24) c) (c + 32) = n" using assms(3) 3 D [of c c] by (auto simp: lc)
  then show "slab_cache_move_up m alloc c = wr64 (wr64 (wr64 (wr64 m (n + 24) c) (n + 32) (rd64 m (c + 32))) (c + 32) n) (c + 24) c"
    using assms(4,5) 1 2 3
    by (simp add: slab_cache_move_up_def Let_def m1_def [symmetric] m2_def [symmetric] m3_def [symmetric])
qed

lemma relinked_move_up:
  assumes "caches_apart alloc C" "links_ok alloc C m" "c \<in> C"
  shows "relinked alloc C m (slab_cache_move_up m alloc c)"
proof (cases "rd64 m (c + 24) = NULL")
  case False
  let ?n = "rd64 m (c + 24)"
  note E = move_up_eq [OF assms refl False]
  show ?thesis
    unfolding E(1) using E(2) assms(3) links_okD(2) [OF assms(2), of "c + 32"]
    by (intro relinked_header4 [OF assms(1,2), of ?n ?n c c]) auto
qed (simp add: slab_cache_move_up_def relinked_refl assms(2))

lemma header_not_ff:
  assumes "caches_apart alloc C" "x \<in> C"
  shows "x + 24 \<noteq> alloc + 16" "x + 32 \<noteq> alloc + 16"
proof -
  note U = cache_unat(5,6) [OF assms] and R = root_unat [OF assms(1)]
  have rc: "alloc + 48 \<in> C" using assms(1) by (simp add: caches_apart_def)
  have ne: "unat (x + 24) \<noteq> unat (alloc + 16) \<and> unat (x + 32) \<noteq> unat (alloc + 16)"
  proof (rule ccontr)
    assume "\<not> ?thesis"
    then have o: "unat x + 24 = unat alloc + 16 \<or> unat x + 32 = unat alloc + 16" using U R(5) by auto
    then have "in_region (home alloc x) 262144 (alloc + 16)" "in_region (home alloc (alloc + 48)) 262144 (alloc + 16)"
      using cache_near [OF assms] R by (auto simp: in_region_def home_def split: if_splits)
    then have "x = alloc + 48" by (rule homes_apart [OF assms rc])
    then show False using o R(3) by auto
  qed
  from ne show "x + 24 \<noteq> alloc + 16" by metis
  from ne show "x + 32 \<noteq> alloc + 16" by metis
qed

lemma relinked_skip_full:
  assumes "caches_apart alloc C" "links_ok alloc C m" "skip_full m alloc = Some m'"
  shows "relinked alloc C m m'"
proof -
  from assms(3) have "caches_apart alloc C \<longrightarrow> links_ok alloc C m \<longrightarrow> relinked alloc C m m'"
  proof (rule skip_full.raw_induct [where P = "\<lambda>m alloc m'. caches_apart alloc C \<longrightarrow> links_ok alloc C m \<longrightarrow> relinked alloc C m m'", rotated])
    fix loop :: "mem \<Rightarrow> ptr \<Rightarrow> mem option" and m alloc m'
    assume IH: "\<And>m alloc m'. loop m alloc = Some m' \<Longrightarrow>
        caches_apart alloc C \<longrightarrow> links_ok alloc C m \<longrightarrow> relinked alloc C m m'"
      and body: "(if rd64 m (alloc + 16) \<noteq> NULL
            \<and> rd64 m (rd64 m (alloc + 16) + 48) = rd64 m (rd64 m (alloc + 16) + 56)
          then loop (wr64 m (alloc + 16) (rd64 m (rd64 m (alloc + 16) + 32))) alloc else Some m) = Some m'"
    show "caches_apart alloc C \<longrightarrow> links_ok alloc C m \<longrightarrow> relinked alloc C m m'"
    proof (intro impI)
      assume ca: "caches_apart alloc C" and ok: "links_ok alloc C m"
      show "relinked alloc C m m'"
      proof (cases "rd64 m (alloc + 16) \<noteq> NULL \<and> rd64 m (rd64 m (alloc + 16) + 48) = rd64 m (rd64 m (alloc + 16) + 56)")
        case True
        let ?m1 = "wr64 m (alloc + 16) (rd64 m (rd64 m (alloc + 16) + 32))"
        have "rd64 m (alloc + 16) \<in> C" using True links_okD(1) [OF ok link_cells(2)] by blast
        then have "rd64 m (rd64 m (alloc + 16) + 32) \<in> insert NULL C" by (intro links_okD(2) [OF ok] link_cells)
        moreover have "alloc + 16 \<noteq> alloc + 8" "alloc + 16 \<noteq> alloc + 24" by simp_all
        ultimately have r: "relinked alloc C m ?m1" using relink_write [OF ca ok link_cells(2)] by blast
        moreover have "loop ?m1 alloc = Some m'" using body True by simp
        ultimately show ?thesis using IH [of ?m1 alloc m'] ca relinked_trans by (auto simp: relinked_def)
      qed (use body ok relinked_refl in auto)
    qed
  qed
  then show ?thesis using assms(1,2) by blast
qed

subsection \<open>The contents of a cache\<close>

text \<open>
  As in the root cache of \<open>slab_rep\<close>: room for \<open>M\<close> objects, of which \<open>n\<close> have been carved, and of
  these the slots \<open>fs\<close> are free.
\<close>

definition cache_rep :: "mem \<Rightarrow> nat \<Rightarrow> ptr \<Rightarrow> nat \<times> nat \<times> nat list \<Rightarrow> bool" where
  "cache_rep m s c t \<longleftrightarrow> (case t of (M, n, fs) \<Rightarrow>
     n \<le> M \<and> distinct fs \<and> set fs \<subseteq> {..<n} \<and> unat (rd64 m (c_max_objects c)) = M
     \<and> rd64 m (c_unmanaged_begin c) = slot c s n \<and> chain m (rd64 m (c_freelist c)) (map (slot c s) fs)
     \<and> unat (rd64 m (c_allocated_objects c)) = n - length fs \<and> (\<forall>i\<in>live n fs. rd64 m (slot c s i) = c))"

definition cache_room :: "ptr \<Rightarrow> nat \<Rightarrow> ptr \<Rightarrow> nat \<Rightarrow> bool" where
  "cache_room alloc s c M \<longleftrightarrow> 8 \<le> s \<and> unat c + 72 + M * s \<le> unat (home alloc c) + 262144"

text \<open>The bytes of a cache that hold its contents: all but its size, its start and its links.\<close>

definition cache_data :: "nat \<Rightarrow> nat \<Rightarrow> ptr \<Rightarrow> ptr \<Rightarrow> bool" where
  "cache_data M s c x \<longleftrightarrow> unat c + 16 \<le> unat x \<and> unat x < unat c + 24
     \<or> unat c + 40 \<le> unat x \<and> unat x < unat c + 72 + M * s"

lemma data_in_home:
  assumes "caches_apart alloc C" "c \<in> C" "cache_room alloc s c M" "cache_data M s c x"
  shows "in_region (home alloc c) 262144 x" "unlinked alloc C x"
proof -
  note U = cache_unat [OF assms(1,2)]
  show h: "in_region (home alloc c) 262144 x"
    using assms(3,4) U(1) by (auto simp: cache_room_def cache_data_def in_region_def)
  show "unlinked alloc C x"
    using assms(4) root_unat(3) [OF assms(1)] by (intro unlinked_in_home [OF assms(1,2) h]) (auto simp: cache_data_def)
qed

lemma cache_slot:
  assumes "caches_apart alloc C" "c \<in> C" "cache_room alloc s c M" "i < M"
  shows "unat (slot c s i) = unat c + 72 + i * s" "i * s + s \<le> M * s" "slot c s i \<noteq> NULL" "unat c + 72 + M * s \<le> 18446744073709551616"
    "unat (slot c s i + 8) = unat c + 72 + i * s + 8 \<or> s = 8"
proof -
  note U = cache_unat [OF assms(1,2)]
  show e: "unat c + 72 + M * s \<le> 18446744073709551616" using assms(3) U(3) by (simp add: cache_room_def)
  have "Suc i * s \<le> M * s" using assms(4) by (intro mult_right_mono) auto
  then show b: "i * s + s \<le> M * s" by simp
  have s: "8 \<le> s" using assms(3) by (simp add: cache_room_def)
  show u: "unat (slot c s i) = unat c + 72 + i * s"
    unfolding slot_def using b e s U(11) by (subst unat_add_of_nat) auto
  then show "slot c s i \<noteq> NULL" by (auto simp flip: unat_eq_0)
  show "unat (slot c s i + 8) = unat c + 72 + i * s + 8 \<or> s = 8"
  proof (cases "s = 8")
    case False
    then have "unat (slot c s i) + 8 < 18446744073709551616" using u b e s by linarith
    then show ?thesis using u by (simp add: unat_add_numeral)
  qed simp
qed

text \<open>The words of a cache: its three counters, its list head and the headers of its slots.\<close>

definition cache_word :: "nat \<Rightarrow> nat \<Rightarrow> ptr \<Rightarrow> ptr \<Rightarrow> bool" where
  "cache_word M s c y \<longleftrightarrow> y \<in> {c + 16, c + 40, c + 48, c + 56} \<or> (\<exists>i<M. y = slot c s i)"

lemma cache_word_data:
  assumes "caches_apart alloc C" "c \<in> C" "cache_room alloc s c M" "cache_word M s c y"
  shows "unat y + 8 \<le> 18446744073709551616" "in_region y 8 x \<Longrightarrow> cache_data M s c x"
proof -
  note U = cache_unat [OF assms(1,2)]
  have s: "8 \<le> s" using assms(3) by (simp add: cache_room_def)
  have "unat y + 8 \<le> 18446744073709551616 \<and> (in_region y 8 x \<longrightarrow> cache_data M s c x)"
    using assms(4) unfolding cache_word_def
  proof (elim disjE exE conjE)
    assume y: "y \<in> {c + 16, c + 40, c + 48, c + 56}"
    have "unat c + 72 \<le> 18446744073709551616" using U(1,3) by (simp split: if_splits)
    then show ?thesis using y U(4,7,8,9) by (elim insertE emptyE) (auto simp: in_region_def cache_data_def)
  next
    fix i assume i: "i < M" "y = slot c s i"
    note S = cache_slot [OF assms(1-3) i(1)]
    then show ?thesis using i s by (auto simp: in_region_def cache_data_def)
  qed
  then show "unat y + 8 \<le> 18446744073709551616" "in_region y 8 x \<Longrightarrow> cache_data M s c x" by blast+
qed

lemma cache_words_apart:
  assumes "caches_apart alloc C" "c \<in> C" "cache_room alloc s c M" "cache_word M s c x" "cache_word M s c y"
  shows "rd64 (wr64 m x v) y = (if x = y then v else rd64 m y)"
proof (cases "x = y")
  case False
  note U = cache_unat [OF assms(1,2)]
  have s: "8 \<le> s" using assms(3) by (simp add: cache_room_def)
  have ij: "i * s + s \<le> j * s" if "i < j" for i j
  proof -
    have "Suc i * s \<le> j * s" using that by (intro mult_right_mono) auto
    then show ?thesis by simp
  qed
  have "unat x + 8 \<le> unat y \<or> unat y + 8 \<le> unat x"
    using assms(4,5) unfolding cache_word_def
  proof (elim disjE exE conjE)
    fix i j assume i: "i < M" "x = slot c s i" and j: "j < M" "y = slot c s j"
    then have "i \<noteq> j" using False by auto
    then have "i * s + s \<le> j * s \<or> j * s + s \<le> i * s" using ij [of i j] ij [of j i] by linarith
    then show ?thesis using cache_slot(1) [OF assms(1-3)] i j s by auto
  qed (use False U(4-9) cache_slot(1) [OF assms(1-3)] in auto)
  then show ?thesis using False cache_word_data(1) [OF assms(1-3)] assms(4,5) by (simp add: rd64_wr64_apart)
qed simp

lemma cache_words [simp, intro]:
  "cache_word M s c (c + 16)" "cache_word M s c (c + 40)" "cache_word M s c (c + 48)" "cache_word M s c (c + 56)"
  "i < M \<Longrightarrow> cache_word M s c (slot c s i)"
  by (auto simp: cache_word_def)

text \<open>The slots of the free list and the live ones are below \<open>M\<close>.\<close>

lemma cache_repD:
  assumes "cache_rep m s c (M, n, fs)"
  shows "n \<le> M" "distinct fs" "set fs \<subseteq> {..<n}" "unat (rd64 m (c + 56)) = M" "rd64 m (c + 16) = slot c s n"
    "chain m (rd64 m (c + 40)) (map (slot c s) fs)" "unat (rd64 m (c + 48)) = n - length fs"
    "i \<in> live n fs \<Longrightarrow> rd64 m (slot c s i) = c" "length fs \<le> n" "i \<in> live n fs \<Longrightarrow> i < M" "i \<in> set fs \<Longrightarrow> i < M"
proof -
  show "length fs \<le> n"
    using assms subset_eq_atLeast0_lessThan_card [of "set fs" n] by (auto simp: cache_rep_def distinct_card atLeast0LessThan)
qed (use assms in \<open>auto simp: cache_rep_def live_def\<close>)

lemma cache_rep_words:
  assumes "caches_apart alloc C" "c \<in> C" "cache_room alloc s c M" "cache_rep m s c (M, n, fs)"
    and "\<And>y. cache_word M s c y \<Longrightarrow> rd64 m' y = rd64 m y"
  shows "cache_rep m' s c (M, n, fs)"
proof -
  note R = cache_repD [OF assms(4)]
  have "chain m' (rd64 m (c + 40)) (map (slot c s) fs)"
    using R(6) R(11) assms(5) by (subst chain_cong [of _ _ m]) auto
  then show ?thesis using assms(4,5) R(10) unfolding cache_rep_def by simp
qed

lemma cache_rep_same:
  assumes "caches_apart alloc C" "c \<in> C" "cache_room alloc s c M" "cache_rep m s c (M, n, fs)"
    and "\<And>x. cache_data M s c x \<Longrightarrow> m' x = m x"
  shows "cache_rep m' s c (M, n, fs)"
proof (rule cache_rep_words [OF assms(1-4)])
  fix y assume "cache_word M s c y"
  then show "rd64 m' y = rd64 m y"
    using cache_word_data [OF assms(1-3)] assms(5) by (intro rd64_same_on) (auto simp: same_on_def)
qed

definition not_full :: "mem \<Rightarrow> ptr \<Rightarrow> bool" where
  "not_full m c \<longleftrightarrow> rd64 m (c_allocated_objects c) \<noteq> rd64 m (c_max_objects c)"

text \<open>What an allocation and a release of the slot \<open>i\<close> may change in a cache.\<close>

definition cache_touch :: "nat \<Rightarrow> ptr \<Rightarrow> nat \<Rightarrow> ptr \<Rightarrow> bool" where
  "cache_touch s c i x \<longleftrightarrow> in_region (c + 16) 8 x \<or> in_region (c + 40) 16 x \<or> in_region (slot c s i) 8 x"

lemma live_take:
  assumes "n - length fs \<noteq> M" "n \<le> M" "distinct fs" "set fs \<subseteq> {..<n}"
  shows "next_slot n fs < M" "next_slot n fs \<notin> live n fs"
    "live (next_carved n fs) (tl fs) = insert (next_slot n fs) (live n fs)"
    "next_carved n fs \<le> M" "distinct (tl fs)" "set (tl fs) \<subseteq> {..<next_carved n fs}"
    "next_carved n fs - length (tl fs) = Suc (n - length fs)"
proof -
  have l: "length fs \<le> n"
    using assms(3,4) subset_eq_atLeast0_lessThan_card [of "set fs" n] by (auto simp: distinct_card atLeast0LessThan)
  show "next_slot n fs < M" "next_slot n fs \<notin> live n fs" "next_carved n fs \<le> M" "distinct (tl fs)"
    "set (tl fs) \<subseteq> {..<next_carved n fs}" "next_carved n fs - length (tl fs) = Suc (n - length fs)"
    "live (next_carved n fs) (tl fs) = insert (next_slot n fs) (live n fs)"
    using assms l by (cases fs; auto simp: next_slot_def next_carved_def live_def)+
qed

lemma cache_take:
  assumes "caches_apart alloc C" "c \<in> C" "cache_room alloc s c M" "cache_rep m s c (M, n, fs)" "n - length fs \<noteq> M"
    and "\<And>x. cache_data M s c x \<Longrightarrow> m3 x = wr64 m (c + 48) (rd64 m (c + 48) + 1) x" "unat (rd64 m3 (alloc + 32)) = s"
  obtains m4 p m5 where "freelist_pop m3 (c + 40) = (p, m4)"
    "(if p = NULL then (rd64 m4 (c + 16), wr64 m4 (c + 16) (rd64 m4 (c + 16) + rd64 m4 (alloc + 32))) else (p, m4))
       = (slot c s (next_slot n fs), m5)"
    "cache_rep (wr64 m5 (slot c s (next_slot n fs)) c) s c (M, next_carved n fs, tl fs)"
    "\<And>x. \<not> cache_touch s c (next_slot n fs) x \<Longrightarrow> wr64 m5 (slot c s (next_slot n fs)) c x = m3 x"
    "not_full (wr64 m5 (slot c s (next_slot n fs)) c) c \<longleftrightarrow> not_full m3 c"
proof -
  note G = assms(1-3) and R = cache_repD [OF assms(4)] and U = cache_unat [OF assms(1,2)]
  note wa = cache_words_apart [OF G] and wd = cache_word_data [OF G]
  note T = live_take [OF assms(5) R(1-3)]
  let ?q = "slot c s (next_slot n fs)" and ?n = "rd64 m (c + 48)"
  have q: "cache_word M s c ?q" using T(1) by simp
  have s64: "s < 18446744073709551616" using cache_slot(2,4) [OF G T(1)] by linarith
  then have os: "rd64 m3 (alloc + 32) = of_nat s" using assms(7) by (simp add: u64_eq_iff unat_of_nat64)
  have w3: "rd64 m3 y = (if y = c + 48 then ?n + 1 else rd64 m y)" if y: "cache_word M s c y" for y
  proof -
    have "rd64 m3 y = rd64 (wr64 m (c + 48) (?n + 1)) y"
      using wd [OF y] assms(6) by (intro rd64_same_on) (auto simp: same_on_def)
    then show ?thesis using y by (simp add: wa)
  qed
  have cnt: "unat (?n + 1) = Suc (n - length fs)"
  proof -
    have "M < 18446744073709551616" using R(4) unat_lt64 [of "rd64 m (c + 56)"] by simp
    then have "unat ?n + 1 < 18446744073709551616" using R(1,7) assms(5) by linarith
    then show ?thesis using R(7) by (simp add: unat_add_one)
  qed
  have offs: "c + 16 \<noteq> c + 40" "c + 16 \<noteq> c + 48" "c + 40 \<noteq> c + 48" "c + 56 \<noteq> c + 48" "c + 56 \<noteq> c + 16" "c + 56 \<noteq> c + 40"
    by simp_all
  have sl: "slot c s i \<notin> {c + 16, c + 40, c + 48, c + 56}" if "i < M" for i
    using cache_slot(1) [OF G that] U(4-9) by (auto simp: u64_eq_iff)
  have inj: "slot c s i = slot c s j \<longleftrightarrow> i = j" if "i < M" "j < M" for i j
    using cache_slot(1) [OF G that(1)] cache_slot(1) [OF G that(2)] G(3) by (auto simp: u64_eq_iff cache_room_def)
  have wb: "wr64 m' y v x = m' x" if "y \<in> {c + 16, c + 40, ?q}" "\<not> cache_touch s c (next_slot n fs) x" for m' y v x
  proof -
    have "cache_word M s c y" using that(1) q by auto
    then show ?thesis using that wd(1) U(4-9) by (intro wr64_out) (auto simp: cache_touch_def in_region_def)
  qed
  have c40: "c + 40 \<noteq> NULL" using U(7) by (auto simp flip: unat_eq_0)
  have old: "rd64 m (slot c s i) = c" if "i \<in> live n fs" for i using R(8) [OF that] .
  define P where "P m5 \<longleftrightarrow> cache_rep (wr64 m5 ?q c) s c (M, next_carved n fs, tl fs)
      \<and> (not_full (wr64 m5 ?q c) c \<longleftrightarrow> not_full m3 c)" for m5
  have rep: "P m5"
    if m5: "\<And>y. cache_word M s c y \<Longrightarrow> y \<noteq> c + 16 \<Longrightarrow> y \<noteq> c + 40 \<Longrightarrow> y \<noteq> ?q \<Longrightarrow> rd64 m5 y = rd64 m3 y"
      "rd64 m5 (c + 16) = slot c s (next_carved n fs)" "rd64 m5 (c + 40) = (case fs of [] \<Rightarrow> NULL | i # _ \<Rightarrow> rd64 m (slot c s i))"
    for m5
  proof -
    let ?m = "wr64 m5 ?q c"
    have v: "rd64 ?m y = (if y = ?q then c else rd64 m5 y)" if "cache_word M s c y" for y using that q by (simp add: wa)
    have sq: "c + 16 \<noteq> ?q" "c + 40 \<noteq> ?q" "c + 48 \<noteq> ?q" "c + 56 \<noteq> ?q" using sl [OF T(1)] by auto
    have e: "rd64 ?m (c + 16) = slot c s (next_carved n fs)" "rd64 ?m (c + 56) = rd64 m (c + 56)" "rd64 ?m (c + 48) = ?n + 1"
      "rd64 ?m (c + 40) = (case fs of [] \<Rightarrow> NULL | i # _ \<Rightarrow> rd64 m (slot c s i))"
      using sq offs m5 by (simp_all add: v w3)
    have es: "rd64 ?m (slot c s j) = rd64 m (slot c s j)" if "j < M" "j \<noteq> next_slot n fs" for j
      using that sl [OF that(1)] inj [OF that(1) T(1)] m5(1) by (simp add: v w3)
    have "rd64 ?m (slot c s j) = c" if "j \<in> live (next_carved n fs) (tl fs)" for j
      using that es [of j] old [of j] R(10) [of j] q by (cases "j = next_slot n fs") (simp_all add: T(3) v)
    moreover have "chain ?m (rd64 ?m (c + 40)) (map (slot c s) (tl fs))"
    proof (cases fs)
      case (Cons i rest)
      have "rd64 ?m (slot c s j) = rd64 m (slot c s j)" if "j \<in> set rest" for j
        using that R(2) R(11) [of j] Cons by (intro es) (auto simp: next_slot_def)
      then have "chain ?m (rd64 m (slot c s i)) (map (slot c s) rest) = chain m (rd64 m (slot c s i)) (map (slot c s) rest)"
        by (intro chain_cong) auto
      moreover have "rd64 ?m (c + 40) = rd64 m (slot c s i)" using e(4) by (simp add: Cons)
      ultimately show ?thesis using R(6) Cons by (simp del: chain.simps) (simp only: chain.simps list.simps simp_thms)
    next
      case Nil
      have "rd64 ?m (c + 40) = NULL" using e(4) by (simp add: Nil)
      then show ?thesis by (simp add: Nil)
    qed
    ultimately show ?thesis
      unfolding P_def cache_rep_def not_full_def using T(4-7) R(4) cnt offs by (simp add: e w3)
  qed
  show thesis
  proof (cases fs)
    case Nil
    have h: "rd64 m3 (c + 40) = NULL" using R(6) offs by (simp add: w3 Nil)
    define m5 where "m5 = wr64 m3 (c + 16) (slot c s n + of_nat s)"
    have n: "next_slot n fs = n" "next_carved n fs = Suc n" by (simp_all add: Nil next_slot_def next_carved_def)
    have P5: "P m5"
    proof (rule rep)
      show "rd64 m5 y = rd64 m3 y" if "cache_word M s c y" "y \<noteq> c + 16" for y using that by (simp add: m5_def wa)
      show "rd64 m5 (c + 16) = slot c s (next_carved n fs)" by (simp add: m5_def n slot_Suc del: of_nat_Suc)
      show "rd64 m5 (c + 40) = (case fs of [] \<Rightarrow> NULL | i # _ \<Rightarrow> rd64 m (slot c s i))" using h by (simp add: m5_def wa Nil)
    qed
    show thesis
    proof (rule that)
      show "freelist_pop m3 (c + 40) = (NULL, m3)" using h c40 by (simp add: freelist_pop_def Let_def)
      show "(if NULL = NULL then (rd64 m3 (c + 16), wr64 m3 (c + 16) (rd64 m3 (c + 16) + rd64 m3 (alloc + 32))) else (NULL, m3))
          = (?q, m5)"
        using R(5) offs by (simp add: w3 os n m5_def)
      show "cache_rep (wr64 m5 ?q c) s c (M, next_carved n fs, tl fs)" using P5 by (simp add: P_def)
      show "wr64 m5 ?q c x = m3 x" if "\<not> cache_touch s c (next_slot n fs) x" for x
        using wb [OF _ that] by (simp add: m5_def)
      show "not_full (wr64 m5 ?q c) c \<longleftrightarrow> not_full m3 c" using P5 by (simp add: P_def)
    qed
  next
    case (Cons i rest)
    have i: "i < M" "next_slot n fs = i" "next_carved n fs = n" using R(11) by (simp_all add: Cons next_slot_def next_carved_def)
    have h: "rd64 m3 (c + 40) = ?q" using R(6) offs by (simp add: w3 Cons next_slot_def)
    define m5 where "m5 = wr64 m3 (c + 40) (rd64 m ?q)"
    have qs: "?q \<noteq> NULL" using cache_slot(3) [OF G T(1)] .
    have P5: "P m5"
    proof (rule rep)
      show "rd64 m5 y = rd64 m3 y" if "cache_word M s c y" "y \<noteq> c + 40" for y using that by (simp add: m5_def wa)
      show "rd64 m5 (c + 16) = slot c s (next_carved n fs)" using R(5) offs by (simp add: m5_def wa w3 i)
      show "rd64 m5 (c + 40) = (case fs of [] \<Rightarrow> NULL | i # _ \<Rightarrow> rd64 m (slot c s i))" by (simp add: m5_def Cons next_slot_def)
    qed
    show thesis
    proof (rule that)
      have "?q \<noteq> c + 48" using sl [OF T(1)] by auto
      then show "freelist_pop m3 (c + 40) = (?q, m5)"
        using h c40 qs q by (simp add: freelist_pop_def Let_def freelist_get_next_def m5_def w3)
      show "(if ?q = NULL then (rd64 m5 (c + 16), wr64 m5 (c + 16) (rd64 m5 (c + 16) + rd64 m5 (alloc + 32))) else (?q, m5)) = (?q, m5)"
        using qs by simp
      show "cache_rep (wr64 m5 ?q c) s c (M, next_carved n fs, tl fs)" using P5 by (simp add: P_def)
      show "wr64 m5 ?q c x = m3 x" if "\<not> cache_touch s c (next_slot n fs) x" for x
        using wb [OF _ that] by (simp add: m5_def)
      show "not_full (wr64 m5 ?q c) c \<longleftrightarrow> not_full m3 c" using P5 by (simp add: P_def)
    qed
  qed
qed

lemma cache_give:
  assumes "caches_apart alloc C" "c \<in> C" "cache_room alloc s c M" "cache_rep m s c (M, n, fs)" "i \<in> live n fs"
  defines "m1 \<equiv> freelist_push m (c + 40) (slot c s i)"
  defines "m2 \<equiv> wr64 m1 (c + 48) (rd64 m1 (c + 48) - 1)"
  shows "cache_rep m2 s c (M, n, i # fs)" "\<And>x. \<not> cache_touch s c i x \<Longrightarrow> m2 x = m x"
    "unat (rd64 m2 (c + 48)) = n - length fs - 1"
proof -
  note G = assms(1-3) and R = cache_repD [OF assms(4)] and U = cache_unat [OF assms(1,2)]
  note wa = cache_words_apart [OF G] and wd = cache_word_data [OF G]
  have i: "i < M" "i < n" "i \<notin> set fs" using R(10) [OF assms(5)] assms(5) by (auto simp: live_def)
  let ?q = "slot c s i"
  have q: "cache_word M s c ?q" "?q \<noteq> NULL" using i(1) cache_slot(3) [OF G i(1)] by simp_all
  have c40: "c + 40 \<noteq> NULL" using U(7) by (auto simp flip: unat_eq_0)
  have sl: "?q \<notin> {c + 16, c + 40, c + 48, c + 56}" using cache_slot(1) [OF G i(1)] U(4-9) by (auto simp: u64_eq_iff)
  have inj: "slot c s j \<noteq> ?q" "slot c s j \<notin> {c + 16, c + 40, c + 48, c + 56}" if "j < M" "j \<noteq> i" for j
    using cache_slot(1) [OF G that(1)] cache_slot(1) [OF G i(1)] G(3) that(2) U(4-9) by (auto simp: u64_eq_iff cache_room_def)
  have m1: "m1 = wr64 (wr64 m ?q (rd64 m (c + 40))) (c + 40) ?q"
    unfolding m1_def using q(2) c40 by (simp add: freelist_push_def freelist_set_next_def)
  have m2: "m2 = wr64 m1 (c + 48) (rd64 m (c + 48) - 1)" using sl q(1) unfolding m2_def by (simp add: m1 wa)
  have v: "rd64 m2 y = (if y = c + 48 then rd64 m (c + 48) - 1 else if y = c + 40 then ?q else if y = ?q then rd64 m (c + 40) else rd64 m y)"
    if "cache_word M s c y" for y
    using that q(1) by (auto simp: m2 m1 wa)
  have len: "length fs < n"
    using psubset_card_mono [of "{..<n}" "set fs"] R(2,3) i by (auto simp: distinct_card)
  then have "rd64 m (c + 48) \<noteq> 0" using R(7) by (auto simp flip: unat_eq_0)
  then have "unat (rd64 m (c + 48) - 1) = n - length (i # fs)" using R(7) by (simp add: unat_sub_one)
  then show cnt: "unat (rd64 m2 (c + 48)) = n - length fs - 1" by (simp add: v)
  have es: "rd64 m2 (slot c s j) = rd64 m (slot c s j)" if "j < M" "j \<noteq> i" for j using inj [OF that] that(1) by (simp add: v)
  have "chain m2 (rd64 m (c + 40)) (map (slot c s) fs)"
    using R(6,11) i(3) es by (subst chain_cong [of _ _ m]) auto
  then have "chain m2 (rd64 m2 (c + 40)) (map (slot c s) (i # fs))" using q sl by (simp add: v)
  moreover have "rd64 m2 (slot c s j) = c" if "j \<in> live n (i # fs)" for j
  proof -
    have "j \<in> live n fs" "j \<noteq> i" using that by (auto simp: live_def)
    then show ?thesis using es R(8,10) by simp
  qed
  moreover have "rd64 m2 (c + 56) = rd64 m (c + 56)" "rd64 m2 (c + 16) = rd64 m (c + 16)" using sl by (auto simp: v)
  ultimately show "cache_rep m2 s c (M, n, i # fs)"
    unfolding cache_rep_def using R(1-5) i cnt by simp
  fix x assume x: "\<not> cache_touch s c i x"
  have "wr64 m' y w x = m' x" if "y \<in> {c + 40, c + 48, ?q}" for m' y w
  proof -
    have "cache_word M s c y" using that q by auto
    then show ?thesis using that x wd(1) U(4-9) by (intro wr64_out) (auto simp: cache_touch_def in_region_def)
  qed
  then show "m2 x = m x" by (simp add: m2 m1)
qed

lemma cache_touch_data:
  assumes "caches_apart alloc C" "c \<in> C" "cache_room alloc s c M" "i < M" "cache_touch s c i x"
  shows "cache_data M s c x" "x \<noteq> c + 64"
proof -
  note U = cache_unat(4-11) [OF assms(1,2)]
  note S = cache_slot [OF assms(1-4)]
  show "cache_data M s c x" "x \<noteq> c + 64"
    using assms(3,5) U S(1,2) by (auto simp: cache_touch_def cache_data_def cache_room_def in_region_def)
qed

text \<open>The bytes of a slot are data of its cache only, and another slot's allocation or release does not touch them.\<close>

lemma slot_bytes:
  assumes "caches_apart alloc C" "d \<in> C" "cache_room alloc s d M" "j < M" "in_region (slot d s j) s x"
  shows "cache_data M s d x"
    and "c \<in> C \<Longrightarrow> cache_room alloc s c N \<Longrightarrow> i < N \<Longrightarrow> c \<noteq> d \<or> i \<noteq> j \<Longrightarrow> \<not> cache_touch s c i x"
    and "c \<in> C \<Longrightarrow> \<not> in_region (c + 48) 8 x"
proof -
  note S = cache_slot [OF assms(1-4)]
  show cd: "cache_data M s d x" using assms(5) S(1,2) by (auto simp: cache_data_def in_region_def)
  note hd = data_in_home(1) [OF assms(1-3) cd]
  show "\<not> in_region (c + 48) 8 x" if c: "c \<in> C"
  proof
    assume x: "in_region (c + 48) 8 x"
    then have "in_region (home alloc c) 262144 x"
      using cache_unat(8) [OF assms(1) c] cache_near [OF assms(1) c] by (auto simp: in_region_def)
    then have "c = d" by (rule homes_apart [OF assms(1) c assms(2) _ hd])
    then show False using x assms(5) S(1) cache_unat(8) [OF assms(1) c] by (auto simp: in_region_def)
  qed
  show "\<not> cache_touch s c i x" if c: "c \<in> C" "cache_room alloc s c N" "i < N" "c \<noteq> d \<or> i \<noteq> j"
  proof
    assume t: "cache_touch s c i x"
    note dc = cache_touch_data(1) [OF assms(1) c(1-3) t]
    have "c = d" by (rule homes_apart [OF assms(1) c(1) assms(2) data_in_home(1) [OF assms(1) c(1,2) dc] hd])
    then have ij: "c = d" "i \<noteq> j" using c(4) by auto
    have sl: "unat (slot c s i) = unat c + 72 + i * s" using cache_slot(1) [OF assms(1) c(1-3)] .
    have "Suc i * s \<le> j * s \<or> Suc j * s \<le> i * s" using ij(2) by (metis Suc_leI linorder_neqE_nat mult_le_mono1)
    moreover have "8 \<le> s" using c(2) by (simp add: cache_room_def)
    ultimately show False
      using t assms(5) S(1) sl ij(1) cache_unat(4,7) [OF assms(1) c(1)] by (auto simp: cache_touch_def in_region_def)
  qed
qed

subsection \<open>The state of a slab on the buddy allocator\<close>

text \<open>
  \<open>C\<close> are the caches, each in a block of 64 pages that is in use, and \<open>T\<close> says of each how many
  objects it has room for, how many have been carved and which slots are free.
\<close>

type_synonym cache_table = "ptr \<Rightarrow> nat \<times> nat \<times> nat list"

definition slabs_rep :: "ptr \<Rightarrow> nat \<Rightarrow> block set \<Rightarrow> ptr \<Rightarrow> nat \<Rightarrow> ptr set \<Rightarrow> cache_table \<Rightarrow> mem \<Rightarrow> bool" where
  "slabs_rep bd k A alloc s C T m \<longleftrightarrow>
     buddy_reach bd k m A \<and> 6 \<le> k \<and> caches_apart alloc C
     \<and> (\<forall>c\<in>C. \<exists>j. (k - 6, j) \<in> A \<and> home alloc c = bptr m bd (k - 6) j)
     \<and> (\<forall>c\<in>C. cache_room alloc s c (fst (T c)) \<and> cache_rep m s c (T c))
     \<and> links_ok alloc C m \<and> rd64 m (s_buddy alloc) = bd \<and> unat (rd64 m (s_objsize alloc)) = s
     \<and> rd64 m (s_cachesize alloc) = 64 \<and> m (alloc + 112) \<noteq> 0"

lemma slabs_repD:
  assumes "slabs_rep bd k A alloc s C T m"
  shows "buddy_reach bd k m A" "6 \<le> k" "caches_apart alloc C"
    "\<And>c. c \<in> C \<Longrightarrow> \<exists>j. (k - 6, j) \<in> A \<and> home alloc c = bptr m bd (k - 6) j"
    "\<And>c. c \<in> C \<Longrightarrow> cache_room alloc s c (fst (T c))" "\<And>c. c \<in> C \<Longrightarrow> cache_rep m s c (T c)"
    "links_ok alloc C m" "rd64 m alloc = bd" "unat (rd64 m (alloc + 32)) = s" "rd64 m (alloc + 40) = 64" "m (alloc + 112) \<noteq> 0"
    "alloc + 48 \<in> C"
  using assms by (auto simp: slabs_rep_def caches_apart_def)

definition slots_live :: "cache_table \<Rightarrow> ptr \<Rightarrow> nat set" where
  "slots_live T c = live (fst (snd (T c))) (snd (snd (T c)))"

lemma links_same:
  assumes "links_ok alloc C m" "caches_apart alloc C" "\<And>x. \<not> unlinked alloc C x \<Longrightarrow> m' x = m x"
  shows "links_ok alloc C m'"
proof -
  have "rd64 m' a = rd64 m a" if lc: "link_cell alloc C a" for a
  proof (rule rd64_same_on)
    obtain c where "c \<in> C" "unat a + 8 \<le> unat (home alloc c) + 262144" by (rule link_cell_home [OF assms(2) lc])
    then show "unat a + 8 \<le> 18446744073709551616" using cache_unat(3) [OF assms(2), of c] by linarith
    show "same_on a 8 m' m" unfolding same_on_def using lc assms(3) by (auto simp: unlinked_def)
  qed
  then show ?thesis using assms(1) by (simp add: links_ok_def)
qed

text \<open>Writes of the user, anywhere in blocks in use.\<close>

lemma reach_writes_all:
  assumes "buddy_reach bd k m A"
    and "\<And>x. (\<And>b. b \<in> A \<Longrightarrow> \<not> in_block (pool_begin (load_buddy m bd)) k b x) \<Longrightarrow> m' x = m x"
  shows "buddy_reach bd k m' A \<and> load_buddy m' bd = load_buddy m bd"
proof (rule bytewise_induct [where m = m and m' = m'])
  fix m1 x
  assume IH: "buddy_reach bd k m1 A \<and> load_buddy m1 bd = load_buddy m bd" and "m' x \<noteq> m x"
  then obtain b where b: "b \<in> A" "in_block (pool_begin (load_buddy m1 bd)) k b x" using assms(2) by metis
  have "buddy_reach bd k (m1(x := m' x)) A \<and> load_buddy (m1(x := m' x)) bd = load_buddy m1 bd"
    using b(2) by (intro reach_writes [OF conjunct1 [OF IH] b(1)]) auto
  then show "buddy_reach bd k (m1(x := m' x)) A \<and> load_buddy (m1(x := m' x)) bd = load_buddy m bd" using IH by simp
qed (simp add: assms(1))

lemma homes_reach:
  assumes "slabs_rep bd k A alloc s C T m"
    and "\<And>x. (\<And>c. c \<in> C \<Longrightarrow> \<not> in_region (home alloc c) 262144 x) \<Longrightarrow> m' x = m x"
  shows "buddy_reach bd k m' A \<and> load_buddy m' bd = load_buddy m bd"
proof (rule reach_writes_all [OF slabs_repD(1) [OF assms(1)]])
  note D = slabs_repD [OF assms(1)]
  fix x assume x: "\<And>b. b \<in> A \<Longrightarrow> \<not> in_block (pool_begin (load_buddy m bd)) k b x"
  show "m' x = m x"
  proof (rule assms(2))
    fix c assume c: "c \<in> C"
    obtain j where j: "(k - 6, j) \<in> A" "home alloc c = bptr m bd (k - 6) j" using D(4) [OF c] by blast
    have v: "j < 2 ^ (k - 6)" using reach_layout(2) [OF D(1) j(1)] by simp
    show "\<not> in_region (home alloc c) 262144 x"
      using x [OF j(1)] region_block(3) [OF reach_layout(1) [OF D(1)] diff_le_self v, of x] D(2) j(2) by simp
  qed
qed

lemma slabs_change:
  assumes "slabs_rep bd k A alloc s C T m" "c \<in> C" "links_ok alloc C m'"
    and "\<And>x. unlinked alloc C x \<Longrightarrow> \<not> cache_data (fst (T c)) s c x \<Longrightarrow> m' x = m x"
    and "cache_rep m' s c t" "fst t = fst (T c)" "m' (alloc + 112) \<noteq> 0"
  shows "slabs_rep bd k A alloc s C (T(c := t)) m'"
proof -
  note D = slabs_repD [OF assms(1)]
  note R = root_unat [OF D(3)]
  have rh: "home alloc (alloc + 48) = alloc" by (simp add: home_def)
  have out: "m' x = m x" if x: "\<And>d. d \<in> C \<Longrightarrow> \<not> in_region (home alloc d) 262144 x" for x
  proof (rule assms(4))
    show "unlinked alloc C x"
      unfolding unlinked_def
    proof (intro allI impI notI)
      fix a assume a: "link_cell alloc C a" "in_region a 8 x"
      obtain d where "d \<in> C" "unat (home alloc d) \<le> unat a" "unat a + 8 \<le> unat (home alloc d) + 262144"
        by (rule link_cell_home [OF D(3) a(1)])
      then show False using x [of d] a(2) by (auto simp: in_region_def)
    qed
    show "\<not> cache_data (fst (T c)) s c x" using x [OF assms(2)] data_in_home(1) [OF D(3) assms(2) D(5) [OF assms(2)]] by blast
  qed
  have reach: "buddy_reach bd k m' A" "load_buddy m' bd = load_buddy m bd" using homes_reach [OF assms(1) out] by auto
  have "cache_rep m' s d (T d)" if d: "d \<in> C" "d \<noteq> c" for d
  proof -
    obtain M n fs where T: "T d = (M, n, fs)" by (metis prod_cases3)
    have rm: "cache_room alloc s d M" "cache_rep m s d (M, n, fs)" using D(5,6) [OF d(1)] T by simp_all
    show ?thesis
      unfolding T
    proof (rule cache_rep_same [OF D(3) d(1) rm])
      fix x assume x: "cache_data M s d x"
      have "\<not> cache_data (fst (T c)) s c x"
        using homes_apart [OF D(3) d(1) assms(2) data_in_home(1) [OF D(3) d(1) rm(1) x] data_in_home(1) [OF D(3) assms(2) D(5) [OF assms(2)]]]
          d(2) by blast
      then show "m' x = m x" using data_in_home(2) [OF D(3) d(1) rm(1) x] by (intro assms(4))
    qed
  qed
  moreover have fld: "rd64 m' y = rd64 m y" if "y \<in> {alloc, alloc + 32, alloc + 40}" for y
  proof (rule rd64_same_on)
    show "unat y + 8 \<le> 18446744073709551616" using that R(1,7,8) by auto
    show "same_on y 8 m' m"
      unfolding same_on_def
    proof (intro allI impI assms(4))
      fix x assume x: "in_region y 8 x"
      have xa: "in_region alloc 262144 x" "unat x < unat alloc + 48" "unat x < unat alloc + 8 \<or> unat alloc + 32 \<le> unat x"
        using x that R by (auto simp: in_region_def)
      show "unlinked alloc C x" by (rule unlinked_in_home [OF D(3) D(12)]) (use xa R rh in auto)
      show "\<not> cache_data (fst (T c)) s c x"
      proof
        assume cd: "cache_data (fst (T c)) s c x"
        then have "c = alloc + 48"
          using homes_apart [OF D(3) assms(2) D(12) data_in_home(1) [OF D(3) assms(2) D(5) [OF assms(2)]]] xa(1) rh by simp
        then show False using cd xa(2) R(3) by (auto simp: cache_data_def)
      qed
    qed
  qed
  moreover have "\<exists>j. (k - 6, j) \<in> A \<and> home alloc d = bptr m' bd (k - 6) j" if "d \<in> C" for d
    using D(4) [OF that] bptr_cong [OF reach(2)] by simp
  ultimately show ?thesis
    using D(2,3,5,8-10) assms(3,5-7) reach(1) unfolding slabs_rep_def by simp
qed

lemma root_flag_untouched:
  assumes "slabs_rep bd k A alloc s C T m" "c \<in> C" "i < fst (T c)"
  shows "unlinked alloc C (alloc + 112)" "\<not> cache_touch s c i (alloc + 112)"
proof -
  note D = slabs_repD [OF assms(1)]
  note R = root_unat [OF D(3)]
  have h: "in_region (home alloc (alloc + 48)) 262144 (alloc + 112)" using R by (simp add: home_def in_region_def)
  show "unlinked alloc C (alloc + 112)" using R by (intro unlinked_in_home [OF D(3,12) h]) auto
  show "\<not> cache_touch s c i (alloc + 112)"
  proof
    assume t: "cache_touch s c i (alloc + 112)"
    note cd = cache_touch_data [OF D(3) assms(2) D(5) [OF assms(2)] assms(3) t]
    have "c = alloc + 48" by (rule homes_apart [OF D(3) assms(2) D(12) data_in_home(1) [OF D(3) assms(2) D(5) [OF assms(2)] cd(1)] h])
    then show False using cd(2) by simp
  qed
qed

text \<open>An operation on a cache that relinks the caches before or after it touches the cache.\<close>

lemma slabs_touch:
  assumes "slabs_rep bd k A alloc s C T m" "c \<in> C" "i < fst (T c)" "links_ok alloc C m'"
    and "\<And>x. unlinked alloc C x \<Longrightarrow> \<not> cache_touch s c i x \<Longrightarrow> m' x = m x" "cache_rep m' s c t" "fst t = fst (T c)"
  shows "slabs_rep bd k A alloc s C (T(c := t)) m'"
proof (rule slabs_change [OF assms(1,2,4) _ assms(6,7)])
  note D = slabs_repD [OF assms(1)]
  show "m' x = m x" if "unlinked alloc C x" "\<not> cache_data (fst (T c)) s c x" for x
    using that cache_touch_data(1) [OF D(3) assms(2) D(5) [OF assms(2)] assms(3)] by (intro assms(5)) blast+
  show "m' (alloc + 112) \<noteq> 0" using assms(5) [OF root_flag_untouched [OF assms(1-3)]] D(11) by simp
qed

lemma touch_unlinked:
  assumes "slabs_rep bd k A alloc s C T m" "c \<in> C" "i < fst (T c)" "cache_touch s c i x"
  shows "unlinked alloc C x"
proof -
  note D = slabs_repD [OF assms(1)]
  show ?thesis
    by (rule data_in_home(2) [OF D(3) assms(2) D(5) [OF assms(2)] cache_touch_data(1) [OF D(3) assms(2) D(5) [OF assms(2)] assms(3,4)]])
qed

lemma count_touch: "caches_apart alloc C \<Longrightarrow> c \<in> C \<Longrightarrow> in_region (c + 48) 8 x \<Longrightarrow> cache_touch s c i x"
  by (simp add: cache_touch_def in_region_def cache_unat(7,8))

text \<open>A cache that is full, and the steps of an allocation from one that is not.\<close>

lemma slab_cache_full:
  assumes "slabs_rep bd k A alloc s C T m" "c \<in> C" "T c = (M, n, fs)"
  shows "not_full m c \<longleftrightarrow> n - length fs \<noteq> M"
  using cache_repD(4,7) [of m s c M n fs] slabs_repD(6) [OF assms(1,2)] by (auto simp: assms(3) not_full_def u64_eq_iff)

lemma slab_cache_alloc_steps:
  assumes "slabs_rep bd k A alloc s C T m" "c \<in> C" "T c = (M, n, fs)" "slab_cache_alloc m alloc c = Some (p, m')"
    and False: "n - length fs \<noteq> M"
  obtains m1 m3 where "\<And>x. \<not> unlinked alloc C x \<Longrightarrow> m1 x = m x"
    "skip_full (if rd64 m1 (c + 24) \<noteq> NULL \<and> rd64 m1 (rd64 m1 (c + 24) + 48) < rd64 m1 (c + 48)
      then slab_cache_move_up m1 alloc c else m1) alloc = Some m3"
    "\<And>x. \<not> unlinked alloc C x \<Longrightarrow> m' x = m3 x" "\<And>d. d \<in> C \<Longrightarrow> not_full m' d \<longleftrightarrow> not_full m3 d"
    "p = slot c s (next_slot n fs) + 8" "slabs_rep bd k A alloc s C (T(c := (M, next_carved n fs, tl fs))) m'"
    "\<And>x. unlinked alloc C x \<Longrightarrow> \<not> cache_touch s c (next_slot n fs) x \<Longrightarrow> m' x = m x"
proof -
  note D = slabs_repD [OF assms(1)]
  have rm: "cache_room alloc s c M" "cache_rep m s c (M, n, fs)" using D(5,6) [OF assms(2)] assms(3) by simp_all
  note R = cache_repD [OF rm(2)]
  have i: "next_slot n fs < M" using live_take(1) [OF False R(1-3)] .
  have iT: "next_slot n fs < fst (T c)" using i by (simp add: assms(3))
  let ?t = "cache_touch s c (next_slot n fs)"
  have cnt: "rd64 m (c + 48) \<noteq> rd64 m (c + 56)" using slab_cache_full [OF assms(1-3)] False by (simp add: not_full_def)
  define m1 where "m1 = wr64 m (c + 48) (rd64 m (c + 48) + 1)"
  have e48: "unat (c + 48) + 8 \<le> 18446744073709551616" using cache_word_data(1) [OF D(3) assms(2) rm(1)] by blast
  have m1: "m1 x = m x" if "\<not> ?t x" for x
    using that count_touch [OF D(3) assms(2)] e48 unfolding m1_def by (intro wr64_out) blast+
  have ok1: "links_ok alloc C m1" using touch_unlinked [OF assms(1,2) iT] m1 by (intro links_same [OF D(7,3)]) blast
  define m2 where "m2 = (if rd64 m1 (c + 24) \<noteq> NULL \<and> rd64 m1 (rd64 m1 (c + 24) + 48) < rd64 m1 (c + 48)
      then slab_cache_move_up m1 alloc c else m1)"
  have r2: "relinked alloc C m1 m2" using relinked_move_up [OF D(3) ok1 assms(2)] relinked_refl [OF ok1] by (simp add: m2_def)
  obtain m3 where m3: "skip_full m2 alloc = Some m3"
    using assms(4) cnt by (auto simp: slab_cache_alloc_def Let_def m1_def [symmetric] m2_def [symmetric] split: option.splits)
  have r3: "relinked alloc C m1 m3"
    using relinked_trans [OF r2 relinked_skip_full [OF D(3) _ m3]] r2 by (simp add: relinked_def)
  then have u3: "m3 x = m1 x" if "unlinked alloc C x" for x using that by (simp add: relinked_def)
  have obj: "unat (rd64 m3 (alloc + 32)) = s"
  proof -
    note Rt = root_unat [OF D(3)]
    have ul: "unlinked alloc C x" "\<not> ?t x" if x: "in_region (alloc + 32) 8 x" for x
    proof -
      have h: "in_region (home alloc (alloc + 48)) 262144 x" using x Rt by (simp add: home_def in_region_def)
      show "unlinked alloc C x" using x Rt by (intro unlinked_in_home [OF D(3,12) h]) (auto simp: in_region_def)
      show "\<not> ?t x"
      proof
        assume t: "?t x"
        note cd = cache_touch_data(1) [OF D(3) assms(2) rm(1) i t]
        have "c = alloc + 48" by (rule homes_apart [OF D(3) assms(2) D(12) data_in_home(1) [OF D(3) assms(2) rm(1) cd] h])
        then show False using cd x Rt by (auto simp: cache_data_def in_region_def)
      qed
    qed
    have "rd64 m3 (alloc + 32) = rd64 m (alloc + 32)"
      using ul u3 m1 Rt by (intro rd64_same_on) (auto simp: same_on_def)
    then show ?thesis using D(9) by simp
  qed
  have d3: "m3 x = wr64 m (c + 48) (rd64 m (c + 48) + 1) x" if "cache_data M s c x" for x
    using data_in_home(2) [OF D(3) assms(2) rm(1) that] u3 by (simp add: m1_def)
  obtain m4 q m5 where Q: "freelist_pop m3 (c + 40) = (q, m4)"
    "(if q = NULL then (rd64 m4 (c + 16), wr64 m4 (c + 16) (rd64 m4 (c + 16) + rd64 m4 (alloc + 32))) else (q, m4))
       = (slot c s (next_slot n fs), m5)"
    "cache_rep (wr64 m5 (slot c s (next_slot n fs)) c) s c (M, next_carved n fs, tl fs)"
    "\<And>x. \<not> ?t x \<Longrightarrow> wr64 m5 (slot c s (next_slot n fs)) c x = m3 x"
    "not_full (wr64 m5 (slot c s (next_slot n fs)) c) c \<longleftrightarrow> not_full m3 c"
    by (rule cache_take [OF D(3) assms(2) rm False d3 obj]) (assumption, rule that, assumption+)
  have "slab_cache_alloc m alloc c = (case skip_full m2 alloc of None \<Rightarrow> None | Some m3 \<Rightarrow>
      (let (p, m4) = freelist_pop m3 (c + 40);
           (p, m5) = (if p = NULL then (rd64 m4 (c + 16), wr64 m4 (c + 16) (rd64 m4 (c + 16) + rd64 m4 (alloc + 32))) else (p, m4))
       in Some (p + 8, wr64 m5 p c)))"
    using cnt by (simp only: slab_cache_alloc_def Let_def m1_def m2_def sizeof_object_header_def if_False)
  also have "\<dots> = Some (slot c s (next_slot n fs) + 8, wr64 m5 (slot c s (next_slot n fs)) c)"
    by (simp only: m3 option.case Q(1) Let_def prod.case Q(2))
  finally have e: "p = slot c s (next_slot n fs) + 8" "m' = wr64 m5 (slot c s (next_slot n fs)) c" using assms(4) by simp_all
  have same: "m' x = m x" if "unlinked alloc C x" "\<not> ?t x" for x using that Q(4) u3 m1 by (simp add: e)
  have ulk: "m' x = m3 x" if "\<not> unlinked alloc C x" for x using that touch_unlinked [OF assms(1,2) iT] Q(4) unfolding e by blast
  have "links_ok alloc C m'"
    using r3 by (intro links_same [OF _ D(3) ulk]) (simp add: relinked_def)
  then have "slabs_rep bd k A alloc s C (T(c := (M, next_carved n fs, tl fs))) m'"
    using Q(3) same by (intro slabs_touch [OF assms(1,2) iT]) (simp_all add: e assms(3))
  moreover have "not_full m' d \<longleftrightarrow> not_full m3 d" if d: "d \<in> C" for d
  proof (cases "d = c")
    case True
    then show ?thesis using Q(5) by (simp add: e)
  next
    case False
    have "rd64 m' y = rd64 m3 y" if y: "y \<in> {d + 48, d + 56}" for y
    proof (rule rd64_same_on)
      have w: "cache_word (fst (T d)) s d y" using y by auto
      show "unat y + 8 \<le> 18446744073709551616" by (rule cache_word_data(1) [OF D(3) d D(5) [OF d] w])
      have "m' x = m3 x" if "in_region y 8 x" for x
      proof -
        note dd = cache_word_data(2) [OF D(3) d D(5) [OF d] w that]
        have "\<not> ?t x"
          using homes_apart [OF D(3) d assms(2) data_in_home(1) [OF D(3) d D(5) [OF d] dd] data_in_home(1) [OF D(3) assms(2) rm(1)]]
            cache_touch_data(1) [OF D(3) assms(2) rm(1) i] False by blast
        then show ?thesis using Q(4) by (simp add: e)
      qed
      then show "same_on y 8 m' m3" by (simp add: same_on_def)
    qed
    then show ?thesis by (simp add: not_full_def)
  qed
  moreover have "m1 x = m x" if "\<not> unlinked alloc C x" for x using that touch_unlinked [OF assms(1,2) iT] m1 by blast
  ultimately show thesis using that [of m1 m3] m3 [unfolded m2_def] ulk e(1) same by blast
qed

lemma slab_cache_alloc_caches:
  assumes "slabs_rep bd k A alloc s C T m" "c \<in> C" "T c = (M, n, fs)" "slab_cache_alloc m alloc c = Some (p, m')"
  shows "p = NULL \<and> m' = m
    \<or> n - length fs \<noteq> M \<and> p = slot c s (next_slot n fs) + 8
       \<and> slabs_rep bd k A alloc s C (T(c := (M, next_carved n fs, tl fs))) m'
       \<and> (\<forall>x. unlinked alloc C x \<longrightarrow> \<not> cache_touch s c (next_slot n fs) x \<longrightarrow> m' x = m x)"
proof (cases "n - length fs = M")
  case True
  then show ?thesis using assms(4) slab_cache_full [OF assms(1-3)] by (simp add: slab_cache_alloc_def not_full_def)
next
  case False
  show ?thesis by (rule slab_cache_alloc_steps [OF assms False]) (use False in blast)
qed

lemma slab_free_caches:
  assumes "slabs_rep bd k A alloc s C T m" "c \<in> C" "T c = (M, n, fs)" "i \<in> live n fs" "c = alloc + 48 \<or> 2 \<le> n - length fs"
  shows "\<exists>m'. slab_free m alloc (slot c s i + 8) = Some m' \<and> m' = slab_cache_free m alloc c (slot c s i)
    \<and> slabs_rep bd k A alloc s C (T(c := (M, n, i # fs))) m'
    \<and> (\<forall>x. unlinked alloc C x \<longrightarrow> \<not> cache_touch s c i x \<longrightarrow> m' x = m x)"
proof -
  note D = slabs_repD [OF assms(1)]
  have rm: "cache_room alloc s c M" "cache_rep m s c (M, n, fs)" using D(5,6) [OF assms(2)] assms(3) by simp_all
  note R = cache_repD [OF rm(2)]
  have i: "i < M" "i < fst (T c)" using R(10) [OF assms(4)] by (simp_all add: assms(3))
  note G = cache_give [OF D(3) assms(2) rm assms(4)]
  let ?m1 = "freelist_push m (c + 40) (slot c s i)"
  define m2 where "m2 = wr64 ?m1 (c + 48) (rd64 ?m1 (c + 48) - 1)"
  note G = G [folded m2_def]
  have ok2: "links_ok alloc C m2" using touch_unlinked [OF assms(1,2) i(2)] G(2) by (intro links_same [OF D(7,3)]) blast
  define m3 where "m3 = slab_cache_free m alloc c (slot c s i)"
  have r3: "relinked alloc C m2 m3"
    using relinked_move_down [OF D(3) ok2 assms(2)] relinked_refl [OF ok2]
    by (simp add: m3_def slab_cache_free_def Let_def m2_def [symmetric])
  have u3: "m3 x = m2 x" if "unlinked alloc C x" for x using that r3 by (simp add: relinked_def)
  have "cache_rep m3 s c (M, n, i # fs)"
    using data_in_home(2) [OF D(3) assms(2) rm(1)] u3 by (intro cache_rep_same [OF D(3) assms(2) rm(1) G(1)]) blast
  moreover have same: "m3 x = m x" if "unlinked alloc C x" "\<not> cache_touch s c i x" for x using that u3 G(2) by simp
  moreover have "links_ok alloc C m3" using r3 by (simp add: relinked_def)
  ultimately have "slabs_rep bd k A alloc s C (T(c := (M, n, i # fs))) m3"
    by (intro slabs_touch [OF assms(1,2) i(2)]) (simp_all add: assms(3))
  moreover have "slab_free m alloc (slot c s i + 8) = Some m3"
  proof -
    have "rd64 m3 (c + 48) = rd64 m2 (c + 48)"
      using cache_word_data [OF D(3) assms(2) rm(1), of "c + 48"] data_in_home(2) [OF D(3) assms(2) rm(1)] u3
      by (intro rd64_same_on) (auto simp: same_on_def)
    then have "2 \<le> n - length fs \<Longrightarrow> rd64 m3 (c + 48) \<noteq> 0" using G(3) by (auto simp flip: unat_eq_0)
    moreover have "m3 (alloc + 112) \<noteq> 0" using same [OF root_flag_untouched [OF assms(1,2) i(2)]] D(11) by simp
    moreover have "c = alloc + 48 \<Longrightarrow> c + 64 = alloc + 112" by simp
    ultimately have "\<not> (rd64 m3 (c + 48) = 0 \<and> m3 (c + 64) = 0)" using assms(5) by metis
    then show ?thesis using R(8) [OF assms(4)] by (auto simp: slab_free_def sizeof_object_header_def Let_def m3_def [symmetric])
  qed
  ultimately show ?thesis using same unfolding m3_def by blast
qed

subsection \<open>Growing\<close>

text \<open>A block of 64 pages that does not overlap any cache becomes one.\<close>

lemma new_cache_apart:
  assumes "slabs_rep bd k A alloc s C T m" "b = bptr m bd (k - 6) j" "j < 2 ^ (k - 6)" "(k - 6, j) \<notin> A"
  shows "b \<notin> C" "b \<noteq> alloc + 48" "caches_apart alloc (insert b C)" "unat b + 262144 \<le> 18446744073709551616"
    "c \<in> C \<Longrightarrow> in_region (home alloc c) 262144 x \<Longrightarrow> \<not> in_region b 262144 x"
proof -
  note D = slabs_repD [OF assms(1)]
  note lay = reach_layout [OF D(1)]
  have ap: "apart_block (home alloc c) b" if c: "c \<in> C" for c
  proof -
    obtain i where i: "(k - 6, i) \<in> A" "home alloc c = bptr m bd (k - 6) i" using D(4) [OF c] by blast
    then show ?thesis
      unfolding assms(2) i(2) using assms(3,4) lay(2) [OF i(1)] by (intro blocks_64_apart [OF lay(1) D(2)]) auto
  qed
  have P: "unat (home alloc c) + 262144 \<le> unat b \<or> unat b + 262144 \<le> unat (home alloc c)" if "c \<in> C" for c
    using ap [OF that] by (simp add: apart_block_def)
  have rh: "home alloc (alloc + 48) = alloc" by (simp add: home_def)
  have e: "unat b + 262144 \<le> 18446744073709551616" "b \<noteq> NULL" using ap [OF D(12)] by (auto simp: apart_block_def)
  note Pa = P [OF D(12), unfolded rh]
  show n48: "b \<noteq> alloc + 48" using Pa root_unat(3) [OF D(3)] by auto
  have na: "alloc \<noteq> b" using Pa by auto
  have hb: "home alloc b = b" using n48 by (simp add: home_def)
  show nb: "b \<notin> C" using P [of b] hb by auto
  show "unat b + 262144 \<le> 18446744073709551616" by (fact e(1))
  have old: "alloc + 48 \<in> C" "alloc \<notin> C" "\<And>c. c \<in> C \<Longrightarrow> home alloc c \<noteq> NULL \<and> unat (home alloc c) + 262144 \<le> 18446744073709551616"
    "\<And>c d. c \<in> C \<Longrightarrow> d \<in> C \<Longrightarrow> c \<noteq> d \<Longrightarrow> unat (home alloc c) + 262144 \<le> unat (home alloc d) \<or> unat (home alloc d) + 262144 \<le> unat (home alloc c)"
    using D(3) unfolding caches_apart_def by blast+
  show "caches_apart alloc (insert b C)"
    unfolding caches_apart_def
  proof (intro conjI ballI impI)
    show "alloc + 48 \<in> insert b C" "alloc \<notin> insert b C" using old(1,2) na by auto
    show "home alloc c \<noteq> NULL" "unat (home alloc c) + 262144 \<le> 18446744073709551616" if "c \<in> insert b C" for c
      using that old(3) e hb by auto
    show "unat (home alloc c) + 262144 \<le> unat (home alloc d) \<or> unat (home alloc d) + 262144 \<le> unat (home alloc c)"
      if "c \<in> insert b C" "d \<in> insert b C" "c \<noteq> d" for c d
      using that old(4) [of c d] P [of c] P [of d] hb by auto
  qed
  show "\<not> in_region b 262144 x" if "c \<in> C" "in_region (home alloc c) 262144 x"
    using P [OF that(1)] that(2) by (auto simp: in_region_def)
qed

lemma header_words:
  fixes m :: mem and b :: ptr
  assumes "unat b + 262144 \<le> 18446744073709551616"
  defines "m7 \<equiv> slab_cache_header m b (b + 262144)"
  shows "rd64 m7 b = 262072" "rd64 m7 (b + 16) = b + 72" "rd64 m7 (b + 24) = NULL" "rd64 m7 (b + 32) = NULL"
    "rd64 m7 (b + 40) = NULL" "rd64 m7 (b + 48) = 0" "\<not> in_region b 56 x \<Longrightarrow> m7 x = m x"
proof -
  note B = block_offsets [OF assms(1)]
  have e: "m7 = wr64 (wr64 (wr64 (wr64 (wr64 (wr64 (wr64 m b (262072)) (b + 8) b) (b + 16) (b + 72))
      (b + 24) NULL) (b + 32) NULL) (b + 40) NULL) (b + 48) 0"
    by (simp add: m7_def slab_cache_header_def Let_def sizeof_slab_cache_header_t_def)
  show "rd64 m7 b = 262072" "rd64 m7 (b + 16) = b + 72" "rd64 m7 (b + 24) = NULL" "rd64 m7 (b + 32) = NULL"
    "rd64 m7 (b + 40) = NULL" "rd64 m7 (b + 48) = 0"
    using assms(1) by (simp_all add: e rd64_wr64_apart B)
  show "m7 x = m x" if "\<not> in_region b 56 x"
  proof -
    have "wr64 m' y v x = m' x" if "unat b \<le> unat y" "unat y + 8 \<le> unat b + 56" for m' y v
      using that \<open>\<not> in_region b 56 x\<close> assms(1) by (intro wr64_out) (auto simp: in_region_def)
    then show ?thesis by (simp add: e B)
  qed
qed

lemma link_new:
  assumes "caches_apart alloc C" "links_ok alloc C m" "b \<in> C"
  shows "relinked alloc C m (slab_cache_link m alloc b)" "rd64 (slab_cache_link m alloc b) (alloc + 16) \<noteq> NULL"
    "rd64 m (alloc + 16) = NULL \<Longrightarrow> rd64 (slab_cache_link m alloc b) (alloc + 16) = b"
proof -
  note H = relink_header [OF assms(1)] and L = links_okD
  let ?l = "rd64 m (alloc + 24)"
  define m1 where "m1 = wr64 m (?l + 32) b"
  have r1: "relinked alloc C m m1" unfolding m1_def using L(4) [OF assms(2)] assms(3) by (intro H [OF assms(2), of ?l]) auto
  define m2 where "m2 = wr64 m1 (b + 24) (rd64 m1 (alloc + 24))"
  have o1: "links_ok alloc C m1" using r1 by (simp add: relinked_def)
  have r2: "relinked alloc C m1 m2" unfolding m2_def using L(4) [OF o1] assms(3) by (intro H [OF o1, of b]) auto
  define m3 where "m3 = wr64 m2 (alloc + 24) b"
  have o2: "links_ok alloc C m2" using r2 by (simp add: relinked_def)
  have bn: "b \<noteq> NULL" by (rule cache_unat(2) [OF assms(1,3)])
  have r3: "relinked alloc C m2 m3" unfolding m3_def using assms(3) bn by (intro relink_write [OF assms(1) o2]) auto
  define m4 where "m4 = (if rd64 m3 (alloc + 16) = NULL then wr64 m3 (alloc + 16) b else m3)"
  have o3: "links_ok alloc C m3" using r3 by (simp add: relinked_def)
  have r4: "relinked alloc C m3 m4"
    using relink_write [OF assms(1) o3 link_cells(2), of b] assms(3) bn relinked_refl [OF o3] by (simp add: m4_def)
  have "rd64 m (alloc + 8) \<noteq> NULL" using L(3) [OF assms(2)] cache_unat(2) [OF assms(1)] by blast
  then have e: "slab_cache_link m alloc b = m4"
    by (simp add: slab_cache_link_def Let_def m1_def [symmetric] m2_def [symmetric] m3_def [symmetric] m4_def)
  show "relinked alloc C m (slab_cache_link m alloc b)"
    unfolding e by (rule relinked_trans [OF relinked_trans [OF relinked_trans [OF r1 r2] r3] r4])
  show "rd64 (slab_cache_link m alloc b) (alloc + 16) \<noteq> NULL" unfolding e using bn by (simp add: m4_def)
  have "rd64 m3 (alloc + 16) = rd64 m (alloc + 16)"
    using header_not_ff [OF assms(1)] L(4) [OF assms(2)] assms(3)
    by (simp add: m3_def m2_def m1_def link_cells_apart [OF assms(1)])
  then show "rd64 (slab_cache_link m alloc b) (alloc + 16) = b" if "rd64 m (alloc + 16) = NULL"
    unfolding e using that by (simp add: m4_def)
qed

lemma slab_grow_caches:
  assumes "slabs_rep bd k A alloc s C T m" "rd64 m (alloc + 16) = NULL" "slab_alloc m alloc = Some (p, m')"
  shows "p = NULL \<and> m' = m
    \<or> (\<exists>b j m2. b \<notin> C \<and> (k - 6, j) \<notin> A \<and> slab_cache_alloc m2 alloc b = Some (p, m')
         \<and> slabs_rep bd k (insert (k - 6, j) A) alloc s (insert b C) (T(b := (262072 div s, 0, []))) m2
         \<and> (\<forall>d\<in>C. \<forall>x. cache_data (fst (T d)) s d x \<longrightarrow> m2 x = m x))"
proof -
  note D = slabs_repD [OF assms(1)]
  note Rt = root_unat [OF D(3)]
  obtain b mB where B: "buddy_alloc m bd 64 = Some (b, mB)"
    using assms(2,3) D(8,10) by (auto simp: slab_alloc_def split: option.splits)
  show ?thesis
  proof (cases "b = NULL")
    case True
    obtain st where st: "buddy_rep m bd k st" "tree_inv k st A" by (rule buddy_reachE [OF D(1)])
    have nz: "(64 :: u64) \<noteq> 0" by simp
    from st nz have "mB = m"
    proof (cases rule: buddy_alloc_cases)
      case (full bf)
      then show ?thesis using B by simp
    next
      case (served bf i m'' s')
      then show ?thesis using B True by simp
    qed
    then show ?thesis using assms(2,3) D(8,10) B True by (simp add: slab_alloc_def)
  next
    case False
    obtain j where j: "b = bptr m bd (k - 6) j" "j < 2 ^ (k - 6)" "(k - 6, j) \<notin> A"
      "buddy_reach bd k mB (insert (k - 6, j) A)" "keeps m mB bd k A"
      by (rule alloc_64_pages [OF D(1,2) B False])
    have ld: "load_buddy mB bd = load_buddy m bd" by (rule keeps_load [OF j(5)])
    note N = new_cache_apart [OF assms(1) j(1-3)]
    note Bo = block_offsets [OF N(4)]
    let ?D = "insert b C" and ?A = "insert (k - 6, j) A"
    have hb: "home alloc b = b" using N(2) by (simp add: home_def)
    have inC: "b \<in> ?D" by simp
    have lay: "buddy_layout m bd k" using reach_layout(1) [OF D(1)] .
    have blk: "in_block (pool_begin (load_buddy m bd)) k (k - 6, i) x \<longleftrightarrow> in_region (bptr m bd (k - 6) i) 262144 x"
      if "i < 2 ^ (k - 6)" for i x
      using region_block(3) [OF lay diff_le_self that, of x] D(2) by simp
    have sameB: "mB x = m x" if c: "c \<in> C" and x: "in_region (home alloc c) 262144 x" for c x
    proof -
      obtain i where i: "(k - 6, i) \<in> A" "home alloc c = bptr m bd (k - 6) i" using D(4) [OF c] by blast
      have "i < 2 ^ (k - 6)" using reach_layout(2) [OF D(1) i(1)] by simp
      then show ?thesis using j(5) i blk x unfolding keeps_def by auto
    qed
    have rh: "home alloc (alloc + 48) = alloc" by (simp add: home_def)
    have fldB: "rd64 mB y = rd64 m y" if "unat alloc \<le> unat y" "unat y + 8 \<le> unat alloc + 262144" for y
      using that Rt(1) sameB [OF D(12)] by (intro rd64_same_on) (auto simp: same_on_def in_region_def rh)
    define m7 where "m7 = slab_cache_header mB b (b + 262144)"
    note H = header_words [where m = mB, OF N(4), folded m7_def]
    have out7: "m7 x = mB x" if "\<not> in_region b 262144 x" for x using that by (intro H(7)) (auto simp: in_region_def)
    have fld7: "rd64 m7 y = rd64 m y" if "unat alloc \<le> unat y" "unat y + 8 \<le> unat alloc + 262144" for y
    proof -
      have "rd64 m7 y = rd64 mB y"
        using that Rt(1) N(5) [OF D(12)] by (intro rd64_same_on) (auto simp: same_on_def in_region_def rh intro!: out7)
      then show ?thesis using fldB [OF that] by simp
    qed
    have s: "8 \<le> s" "rd64 m7 (alloc + 32) = rd64 m (alloc + 32)" using D(5) [OF D(12)] Rt by (auto simp: cache_room_def intro: fld7)
    define d where "d = 262072 div rd64 m (alloc + 32)"
    have d: "unat d = 262072 div s" using D(9) by (simp add: d_def unat_div)
    define m8 where "m8 = (wr64 m7 (b + 56) d)(b + 64 := 0)"
    have b56: "unat (b + 56) + 8 \<le> 18446744073709551616" using N(4) by (simp add: Bo)
    have out8: "m8 x = mB x" if "\<not> in_region b 262144 x" for x
    proof -
      have "wr64 m7 (b + 56) d x = m7 x" using that b56 by (intro wr64_out) (auto simp: in_region_def Bo)
      moreover have "x \<noteq> b + 64" using that by (auto simp: in_region_def Bo)
      ultimately show ?thesis using out7 [OF that] by (simp add: m8_def)
    qed
    have r8: "rd64 m8 (b + 16) = b + 72" "rd64 m8 (b + 24) = NULL" "rd64 m8 (b + 32) = NULL"
      "rd64 m8 (b + 40) = NULL" "rd64 m8 (b + 48) = 0" "rd64 m8 (b + 56) = d"
      using N(4) H by (simp_all add: m8_def rd64_wr64_apart rd64_upd_apart in_region_def Bo)
    have ok8: "links_ok alloc ?D m8"
    proof -
      have "rd64 m8 a = rd64 m a" if lc: "link_cell alloc C a" for a
      proof (rule rd64_same_on)
        obtain c where c: "c \<in> C" "unat (home alloc c) \<le> unat a" "unat a + 8 \<le> unat (home alloc c) + 262144"
          by (rule link_cell_home [OF D(3) lc])
        then show "unat a + 8 \<le> 18446744073709551616" using cache_unat(3) [OF D(3) c(1)] by linarith
        have "m8 x = m x" if "in_region a 8 x" for x
        proof -
          have x: "in_region (home alloc c) 262144 x" using that c(2,3) by (auto simp: in_region_def)
          then show ?thesis using out8 N(5) [OF c(1)] sameB [OF c(1)] by simp
        qed
        then show "same_on a 8 m8 m" by (simp add: same_on_def)
      qed
      moreover have "link_cell alloc ?D a \<longleftrightarrow> link_cell alloc C a \<or> a = b + 24 \<or> a = b + 32" for a by (auto simp: link_cell_def)
      ultimately show ?thesis using D(7) r8(2,3) by (auto simp: links_ok_def)
    qed
    define m9 where "m9 = slab_cache_link m8 alloc b"
    note L = link_new [OF N(3) ok8 inC, folded m9_def]
    have u9: "m9 x = m8 x" if "unlinked alloc ?D x" for x using that L(1) by (simp add: relinked_def)
    have ok9: "links_ok alloc ?D m9" using L(1) by (simp add: relinked_def)
    have room: "cache_room alloc s b (262072 div s)"
      using s(1) div_times_less_eq_dividend [of 262072 s] by (simp add: cache_room_def hb)
    have rep8: "cache_rep m8 s b (262072 div s, 0, [])"
      using r8 d by (simp add: cache_rep_def slot_def live_def)
    have rep9: "cache_rep m9 s b (262072 div s, 0, [])"
      by (rule cache_rep_same [OF N(3) inC room rep8], rule u9, rule data_in_home(2) [OF N(3) inC room])
    have old: "m9 x = m x" if c: "c \<in> C" and x: "in_region (home alloc c) 262144 x" "unlinked alloc ?D x" for c x
      using u9 [OF x(2)] out8 [OF N(5) [OF c x(1)]] sameB [OF c x(1)] by simp
    have dat: "m9 x = m x" if c: "c \<in> C" and x: "cache_data (fst (T c)) s c x" for c x
      using data_in_home(1) [OF D(3) c D(5) [OF c] x] data_in_home(2) [OF N(3) _ D(5) [OF c] x] c by (intro old [OF c]) auto
    have rep_old: "cache_rep m9 s c (T c)" if c: "c \<in> C" for c
    proof -
      obtain M n fs where t: "T c = (M, n, fs)" by (metis prod_cases3)
      have rm: "cache_room alloc s c M" "cache_rep m s c (M, n, fs)" using D(5,6) [OF c] t by simp_all
      show ?thesis
        unfolding t
      proof (rule cache_rep_same [OF D(3) c rm])
        show "m9 x = m x" if "cache_data M s c x" for x using that dat [OF c, of x] by (simp add: t)
      qed
    qed
    have ulr: "unlinked alloc ?D x" if "in_region alloc 262144 x" "unat x < unat alloc + 8 \<or> unat alloc + 32 \<le> unat x"
      "unat x < unat alloc + 72 \<or> unat alloc + 88 \<le> unat x" for x
      using that Rt(3) D(12) by (intro unlinked_in_home [OF N(3), of "alloc + 48"]) (auto simp: rh)
    have fld9: "rd64 m9 y = rd64 m y" if "y \<in> {alloc, alloc + 32, alloc + 40}" for y
    proof (rule rd64_same_on)
      show "unat y + 8 \<le> 18446744073709551616" using that Rt(1,7,8) by auto
      show "same_on y 8 m9 m"
        unfolding same_on_def
      proof (intro allI impI)
        fix x assume "in_region y 8 x"
        then have x: "in_region alloc 262144 x" "unat x < unat alloc + 8 \<or> unat alloc + 32 \<le> unat x" "unat x < unat alloc + 72"
          using that Rt by (auto simp: in_region_def)
        show "m9 x = m x" using x rh by (intro old [OF D(12)] ulr) auto
      qed
    qed
    have flag: "m9 (alloc + 112) = m (alloc + 112)"
      using Rt rh by (intro old [OF D(12)] ulr) (auto simp: in_region_def)
    have reach: "buddy_reach bd k m9 ?A \<and> load_buddy m9 bd = load_buddy mB bd"
    proof (rule reach_writes_all [OF j(4)])
      fix x assume x: "\<And>e. e \<in> ?A \<Longrightarrow> \<not> in_block (pool_begin (load_buddy mB bd)) k e x"
      have nb: "\<not> in_region b 262144 x" using x [of "(k - 6, j)"] blk [OF j(2)] j(1) ld by simp
      have nc: "\<not> in_region (home alloc c) 262144 x" if c: "c \<in> C" for c
      proof -
        obtain i where i: "(k - 6, i) \<in> A" "home alloc c = bptr m bd (k - 6) i" using D(4) [OF c] by blast
        have "i < 2 ^ (k - 6)" using reach_layout(2) [OF D(1) i(1)] by simp
        then show ?thesis using x [of "(k - 6, i)"] blk i ld by simp
      qed
      have "unlinked alloc ?D x"
        unfolding unlinked_def
      proof (intro allI impI notI)
        fix a assume a: "link_cell alloc ?D a" "in_region a 8 x"
        obtain c where "c \<in> ?D" "unat (home alloc c) \<le> unat a" "unat a + 8 \<le> unat (home alloc c) + 262144"
          by (rule link_cell_home [OF N(3) a(1)])
        then show False using nc [of c] nb hb a(2) by (auto simp: in_region_def)
      qed
      then show "m9 x = mB x" using u9 out8 [OF nb] by simp
    qed
    have homes: "\<exists>i. (k - 6, i) \<in> ?A \<and> home alloc c = bptr m9 bd (k - 6) i" if "c \<in> ?D" for c
    proof -
      have l: "load_buddy m9 bd = load_buddy m bd" using reach ld by simp
      show ?thesis using that D(4) [of c] j(1) hb bptr_cong [OF l] by auto
    qed
    have S: "slabs_rep bd k ?A alloc s ?D (T(b := (262072 div s, 0, []))) m9"
      unfolding slabs_rep_def
    proof (intro conjI ballI)
      fix c assume "c \<in> ?D"
      then show "cache_room alloc s c (fst ((T(b := (262072 div s, 0, []))) c))" "cache_rep m9 s c ((T(b := (262072 div s, 0, []))) c)"
        using room rep9 rep_old D(5) by auto
    qed (use reach D(2,8-11) N(3) homes ok9 fld9 flag in auto)
    have e64: "b + rd64 mB (alloc + 40) * PAGE_SIZE = b + 262144"
      using fldB [of "alloc + 40"] Rt D(10) by (simp add: PAGE_SIZE_def)
    have "rd64 m (alloc + 32) \<noteq> 0" using D(9) s(1) by auto
    then have "slab_cache_init mB alloc b (b + 262144) = Some m9"
      using s(2) H(1) by (simp add: slab_cache_init_def Let_def m7_def [symmetric] d_def [symmetric] m8_def [symmetric] m9_def)
    then have "slab_cache_alloc m9 alloc (rd64 m9 (alloc + 16)) = Some (p, m')"
      using assms(2,3) D(8,10) B False e64 by (simp add: slab_alloc_def)
    moreover have "rd64 m9 (alloc + 16) = b"
    proof (rule L(3))
      have "rd64 m8 (alloc + 16) = rd64 m (alloc + 16)"
        using Rt out8 N(5) [OF D(12)] sameB [OF D(12)] by (intro rd64_same_on) (auto simp: same_on_def in_region_def rh)
      then show "rd64 m8 (alloc + 16) = NULL" using assms(2) by simp
    qed
    ultimately have "slab_cache_alloc m9 alloc b = Some (p, m')" by simp
    then show ?thesis using S N(1) j(3) dat by blast
  qed
qed

end
