(* ===== verification/Slab_System.thy ===== *)
theory Slab_System
  imports Slab_Caches
begin

section \<open>Clients of a slab with any number of caches\<close>

text \<open>
  The runs of a slab on its buddy allocator: allocations, which may take further caches, releases, and
  stores of the clients into their objects. An object is the address that \<open>slab_alloc\<close> returns, eight
  bytes behind the start of its slot, with the \<open>s - 8\<close> bytes that were asked for. A release that
  empties a cache other than the root cache is left out: it gives pages back that the slab
  still points to, which is what \<open>slab_use_after_free\<close> is about. Calls that do not return are not steps.
\<close>

definition keeps_cache :: "mem \<Rightarrow> ptr \<Rightarrow> ptr \<Rightarrow> bool" where
  "keeps_cache m alloc p \<longleftrightarrow> (let c = rd64 m (p - sizeof_object_header)
     in c = alloc + 48 \<or> 2 \<le> unat (rd64 m (c_allocated_objects c)))"

inductive slab_step :: "ptr \<Rightarrow> nat \<Rightarrow> mem \<times> ptr set \<Rightarrow> mem \<times> ptr set \<Rightarrow> bool" for alloc s where
  get: "slab_alloc m alloc = Some (p, m') \<Longrightarrow> p \<noteq> NULL \<Longrightarrow> slab_step alloc s (m, L) (m', insert p L)"
| refused: "slab_alloc m alloc = Some (NULL, m') \<Longrightarrow> slab_step alloc s (m, L) (m', L)"
| release: "p \<in> L \<Longrightarrow> keeps_cache m alloc p \<Longrightarrow> slab_free m alloc p = Some m' \<Longrightarrow> slab_step alloc s (m, L) (m', L - {p})"
| store: "p \<in> L \<Longrightarrow> in_region p (s - 8) x \<Longrightarrow> slab_step alloc s (m, L) (m(x := v), L)"

inductive_cases slab_stepE: "slab_step alloc s (m, L) (m', L')"

text \<open>The objects of the live slots, and a change that leaves their bytes as they are.\<close>

definition live_objects :: "nat \<Rightarrow> ptr set \<Rightarrow> cache_table \<Rightarrow> ptr set" where
  "live_objects s C T = {slot c s i + 8 | c i. c \<in> C \<and> i \<in> slots_live T c}"

definition keeps_bytes :: "nat \<Rightarrow> ptr set \<Rightarrow> mem \<Rightarrow> mem \<Rightarrow> bool" where
  "keeps_bytes s L m m' \<longleftrightarrow> (\<forall>p\<in>L. \<forall>x. in_region p (s - 8) x \<longrightarrow> m' x = m x)"

lemma live_object:
  assumes "slabs_rep bd k A alloc s C T m" "8 < s" "c \<in> C" "i \<in> slots_live T c"
  shows "i < fst (T c)" "unat (slot c s i + 8) = unat c + 80 + i * s" "slot c s i + 8 \<noteq> NULL" "slot c s i + 8 - 8 = slot c s i"
    "rd64 m (slot c s i) = c" "in_region (slot c s i + 8) (s - 8) x \<Longrightarrow> in_region (slot c s i) s x"
proof -
  note D = slabs_repD [OF assms(1)]
  obtain M n fs where t: "T c = (M, n, fs)" by (metis prod_cases3)
  have rm: "cache_room alloc s c M" "cache_rep m s c (M, n, fs)" using D(5,6) [OF assms(3)] t by simp_all
  have l: "i \<in> live n fs" using assms(4) t by (simp add: slots_live_def)
  have i: "i < M" using cache_repD(10) [OF rm(2) l] .
  then show "i < fst (T c)" by (simp add: t)
  note S = cache_slot [OF D(3) assms(3) rm(1) i]
  show u: "unat (slot c s i + 8) = unat c + 80 + i * s" using S(5) assms(2) by simp
  then show "slot c s i + 8 \<noteq> NULL" by (auto simp flip: unat_eq_0)
  show "slot c s i + 8 - 8 = slot c s i" by simp
  show "rd64 m (slot c s i) = c" using cache_repD(8) [OF rm(2) l] .
  show "in_region (slot c s i) s x" if "in_region (slot c s i + 8) (s - 8) x"
    using that u S(1) assms(2) by (auto simp: in_region_def)
qed

text \<open>Bytes of a slot of one cache are not bytes of another slot.\<close>

lemma slots_disjoint:
  assumes "slabs_rep bd k A alloc s C T m" "c \<in> C" "d \<in> C" "i < fst (T c)" "j < fst (T d)"
    and "in_region (slot c s i) s x" "in_region (slot d s j) s x"
  shows "c = d \<and> i = j"
proof -
  note D = slabs_repD [OF assms(1)]
  note rc = D(5) [OF assms(2)] and rd = D(5) [OF assms(3)]
  have cd: "c = d"
    using homes_apart [OF D(3) assms(2,3) data_in_home(1) [OF D(3) assms(2) rc slot_bytes(1) [OF D(3) assms(2) rc assms(4,6)]]
        data_in_home(1) [OF D(3) assms(3) rd slot_bytes(1) [OF D(3) assms(3) rd assms(5,7)]]] .
  have "i = j"
  proof (rule ccontr)
    assume "i \<noteq> j"
    then have "Suc i * s \<le> j * s \<or> Suc j * s \<le> i * s" by (metis Suc_leI linorder_neqE_nat mult_le_mono1)
    then show False
      using assms(6,7) cache_slot(1) [OF D(3) assms(2) rc assms(4)] cache_slot(1) [OF D(3) assms(3) rd assms(5)] cd
      by (auto simp: in_region_def)
  qed
  then show ?thesis using cd by simp
qed

lemma objects_distinct:
  assumes "slabs_rep bd k A alloc s C T m" "8 < s" "c \<in> C" "d \<in> C" "i < fst (T c)" "j < fst (T d)"
    and "slot c s i + 8 = slot d s j + 8"
  shows "c = d \<and> i = j"
proof (rule slots_disjoint [OF assms(1,3-6), of "slot c s i"])
  have "slot c s i = slot d s j" using assms(7) by simp
  then show "in_region (slot c s i) s (slot c s i)" "in_region (slot d s j) s (slot c s i)" using assms(2) by (simp_all add: in_region_def)
qed

lemma live_objects_disjoint:
  assumes "slabs_rep bd k A alloc s C T m" "8 < s" "p \<in> live_objects s C T" "q \<in> live_objects s C T" "p \<noteq> q"
  shows "\<not> (in_region p (s - 8) x \<and> in_region q (s - 8) x)"
proof
  assume x: "in_region p (s - 8) x \<and> in_region q (s - 8) x"
  obtain c i where p: "p = slot c s i + 8" "c \<in> C" "i \<in> slots_live T c" using assms(3) by (auto simp: live_objects_def)
  obtain d j where q: "q = slot d s j + 8" "d \<in> C" "j \<in> slots_live T d" using assms(4) by (auto simp: live_objects_def)
  note P = live_object [OF assms(1,2) p(2,3)] and Q = live_object [OF assms(1,2) q(2,3)]
  have "c = d \<and> i = j"
    using x p(1) q(1) by (intro slots_disjoint [OF assms(1) p(2) q(2) P(1) Q(1)]) (auto intro: P(6) Q(6))
  then show False using assms(5) p(1) q(1) by simp
qed

text \<open>What changes outside the links and outside the cells of one slot leaves the other objects as they are.\<close>

lemma untouched_objects:
  assumes "slabs_rep bd k A alloc s C T m" "8 < s" "c \<in> C" "i < fst (T c)"
    and "\<And>x. unlinked alloc C x \<Longrightarrow> \<not> cache_touch s c i x \<Longrightarrow> m' x = m x" "L \<subseteq> live_objects s C T - {slot c s i + 8}"
  shows "keeps_bytes s L m m'"
  unfolding keeps_bytes_def
proof (intro ballI allI impI)
  note D = slabs_repD [OF assms(1)]
  fix p x assume p: "p \<in> L" "in_region p (s - 8) x"
  have pl: "p \<in> live_objects s C T" "p \<noteq> slot c s i + 8" using p(1) assms(6) by auto
  obtain d j where q: "p = slot d s j + 8" "d \<in> C" "j \<in> slots_live T d" using pl(1) by (auto simp: live_objects_def)
  have cd: "c \<noteq> d \<or> i \<noteq> j" using pl(2) q(1) by auto
  note Q = live_object [OF assms(1,2) q(2,3)]
  have x: "in_region (slot d s j) s x" using Q(6) p(2) q(1) by simp
  note S = slot_bytes [OF D(3) q(2) D(5) [OF q(2)] Q(1) x]
  show "m' x = m x"
    using data_in_home(2) [OF D(3) q(2) D(5) [OF q(2)] S(1)] S(2) [OF assms(3) D(5) [OF assms(3)] assms(4) cd] by (intro assms(5))
qed

subsection \<open>The steps\<close>

definition slab_state_ok :: "ptr \<Rightarrow> nat \<Rightarrow> ptr \<Rightarrow> nat \<Rightarrow> mem \<Rightarrow> ptr set \<Rightarrow> bool" where
  "slab_state_ok bd k alloc s m L \<longleftrightarrow> (\<exists>A C T. slabs_rep bd k A alloc s C T m \<and> L = live_objects s C T)"

lemma live_objects_upd:
  assumes "c \<in> C" "slots_live T' c = insert i (slots_live T c)" "\<And>d. d \<noteq> c \<Longrightarrow> T' d = T d"
  shows "live_objects s C T' = insert (slot c s i + 8) (live_objects s C T)"
proof -
  have "slots_live T' d = slots_live T d" if "d \<noteq> c" for d using assms(3) [OF that] by (simp add: slots_live_def)
  then show ?thesis using assms(1,2) unfolding live_objects_def by (auto; metis insert_iff)
qed

lemma cache_alloc_objects:
  assumes "slabs_rep bd k A alloc s C T m" "8 < s" "c \<in> C" "slab_cache_alloc m alloc c = Some (p, m')"
  shows "slab_state_ok bd k alloc s m' (if p = NULL then live_objects s C T else insert p (live_objects s C T))
    \<and> p \<notin> live_objects s C T \<and> keeps_bytes s (live_objects s C T) m m'"
proof -
  note D = slabs_repD [OF assms(1)]
  obtain M n fs where t: "T c = (M, n, fs)" by (metis prod_cases3)
  have rm: "cache_room alloc s c M" "cache_rep m s c (M, n, fs)" using D(5,6) [OF assms(3)] t by simp_all
  have nn: "NULL \<notin> live_objects s C T" using live_object(3) [OF assms(1,2)] by (fastforce simp: live_objects_def)
  consider "p = NULL" "m' = m"
    | "n - length fs \<noteq> M" "p = slot c s (next_slot n fs) + 8"
      "slabs_rep bd k A alloc s C (T(c := (M, next_carved n fs, tl fs))) m'"
      "\<And>x. unlinked alloc C x \<Longrightarrow> \<not> cache_touch s c (next_slot n fs) x \<Longrightarrow> m' x = m x"
    using slab_cache_alloc_caches [OF assms(1,3) t assms(4)] by blast
  then show ?thesis
  proof cases
    case 1
    then show ?thesis using assms(1) nn by (auto simp: slab_state_ok_def keeps_bytes_def)
  next
    case 2
    let ?T = "T(c := (M, next_carved n fs, tl fs))" and ?i = "next_slot n fs"
    note V = live_take [OF 2(1) cache_repD(1-3) [OF rm(2)]]
    have lv: "slots_live ?T c = insert ?i (slots_live T c)" using V(3) by (simp add: slots_live_def t)
    have obj: "live_objects s C ?T = insert p (live_objects s C T)" unfolding 2(2) using lv by (intro live_objects_upd [OF assms(3)]) auto
    have "p \<noteq> NULL" unfolding 2(2) using live_object(3) [OF 2(3) assms(2,3), of ?i] lv by simp
    moreover have new: "p \<notin> live_objects s C T"
    proof
      assume "p \<in> live_objects s C T"
      then obtain d j where q: "p = slot d s j + 8" "d \<in> C" "j \<in> slots_live T d" by (auto simp: live_objects_def)
      have "c = d \<and> ?i = j"
        using V(1) t q(1) 2(2) by (intro objects_distinct [OF assms(1-3) q(2) _ live_object(1) [OF assms(1,2) q(2,3)]]) auto
      then show False using q(3) V(2) t by (auto simp: slots_live_def)
    qed
    moreover have "keeps_bytes s (live_objects s C T) m m'"
      using V(1) t new unfolding 2(2) by (intro untouched_objects [OF assms(1-3) _ 2(4)]) auto
    ultimately show ?thesis using 2(3) obj by (auto simp: slab_state_ok_def)
  qed
qed

lemma slab_alloc_objects:
  assumes "slab_state_ok bd k alloc s m L" "8 < s" "slab_alloc m alloc = Some (p, m')"
  shows "slab_state_ok bd k alloc s m' (if p = NULL then L else insert p L) \<and> p \<notin> L \<and> keeps_bytes s L m m'"
proof -
  obtain A C T where D: "slabs_rep bd k A alloc s C T m" "L = live_objects s C T" using assms(1) by (auto simp: slab_state_ok_def)
  show ?thesis
  proof (cases "rd64 m (alloc + 16) = NULL")
    case False
    then have c: "rd64 m (alloc + 16) \<in> C" using links_okD(1) [OF slabs_repD(7) [OF D(1)] link_cells(2)] by simp
    have "slab_cache_alloc m alloc (rd64 m (alloc + 16)) = Some (p, m')" using assms(3) False by (simp add: slab_alloc_def)
    from cache_alloc_objects [OF D(1) assms(2) c this] show ?thesis unfolding D(2) .
  next
    case True
    from slab_grow_caches [OF D(1) True assms(3)] show ?thesis
    proof (elim disjE conjE exE)
      assume "p = NULL" "m' = m"
      moreover have "NULL \<notin> L" using live_object(3) [OF D(1) assms(2)] D(2) by (fastforce simp: live_objects_def)
      ultimately show ?thesis using assms(1) by (simp add: keeps_bytes_def)
    next
      fix b j m2
      assume b: "b \<notin> C" "slab_cache_alloc m2 alloc b = Some (p, m')"
        and S: "slabs_rep bd k (insert (k - 6, j) A) alloc s (insert b C) (T(b := (262072 div s, 0, []))) m2"
        and same: "\<forall>d\<in>C. \<forall>x. cache_data (fst (T d)) s d x \<longrightarrow> m2 x = m x"
      have "slots_live (T(b := (262072 div s, 0, []))) d = (if d = b then {} else slots_live T d)" for d
        by (auto simp: slots_live_def live_def)
      then have L: "live_objects s (insert b C) (T(b := (262072 div s, 0, []))) = L"
        using b(1) unfolding D(2) live_objects_def by (auto split: if_splits; metis)
      have "keeps_bytes s L m m2"
        unfolding keeps_bytes_def D(2)
      proof (intro ballI allI impI)
        fix q x assume q: "q \<in> live_objects s C T" "in_region q (s - 8) x"
        obtain d i where d: "q = slot d s i + 8" "d \<in> C" "i \<in> slots_live T d" using q(1) by (auto simp: live_objects_def)
        note Q = live_object [OF D(1) assms(2) d(2,3)]
        note E = slabs_repD [OF D(1)]
        have "in_region (slot d s i) s x" using Q(6) q(2) d(1) by simp
        then show "m2 x = m x" using same d(2) slot_bytes(1) [OF E(3) d(2) E(5) [OF d(2)] Q(1)] by blast
      qed
      then show ?thesis using cache_alloc_objects [OF S assms(2) insertI1 b(2)] unfolding L by (auto simp: keeps_bytes_def)
    qed
  qed
qed

lemma slab_free_objects:
  assumes "slab_state_ok bd k alloc s m L" "8 < s" "p \<in> L" "keeps_cache m alloc p"
  shows "\<exists>m'. slab_free m alloc p = Some m' \<and> slab_state_ok bd k alloc s m' (L - {p}) \<and> keeps_bytes s (L - {p}) m m'"
proof -
  obtain A C T where D: "slabs_rep bd k A alloc s C T m" "L = live_objects s C T" using assms(1) by (auto simp: slab_state_ok_def)
  obtain c i where p: "p = slot c s i + 8" "c \<in> C" "i \<in> slots_live T c" using assms(3) D(2) by (auto simp: live_objects_def)
  note P = live_object [OF D(1) assms(2) p(2,3)]
  obtain M n fs where t: "T c = (M, n, fs)" by (metis prod_cases3)
  have rm: "cache_rep m s c (M, n, fs)" using slabs_repD(6) [OF D(1) p(2)] t by simp
  have i: "i \<in> live n fs" using p(3) by (simp add: slots_live_def t)
  have kc: "c = alloc + 48 \<or> 2 \<le> n - length fs"
    using assms(4) P(5) cache_repD(7) [OF rm] p(1) by (auto simp: keeps_cache_def sizeof_object_header_def)
  obtain m' where m': "slab_free m alloc p = Some m'" "slabs_rep bd k A alloc s C (T(c := (M, n, i # fs))) m'"
    "\<And>x. unlinked alloc C x \<Longrightarrow> \<not> cache_touch s c i x \<Longrightarrow> m' x = m x"
    using slab_free_caches [OF D(1) p(2) t i kc] p(1) by blast
  let ?T = "T(c := (M, n, i # fs))"
  have "slots_live T c = insert i (slots_live ?T c)" using i by (auto simp: slots_live_def t live_def)
  then have ins: "L = insert p (live_objects s C ?T)" unfolding D(2) p(1) by (intro live_objects_upd [OF p(2)]) auto
  have "p \<notin> live_objects s C ?T"
  proof
    assume "p \<in> live_objects s C ?T"
    then obtain d j where q: "p = slot d s j + 8" "d \<in> C" "j \<in> slots_live ?T d" by (auto simp: live_objects_def)
    have "c = d \<and> i = j"
      using P(1) t p(1) q(1) by (intro objects_distinct [OF m'(2) assms(2) p(2) q(2) _ live_object(1) [OF m'(2) assms(2) q(2,3)]]) auto
    then show False using q(3) by (auto simp: slots_live_def live_def)
  qed
  then have "live_objects s C ?T = L - {p}" using ins by simp
  moreover have "keeps_bytes s (L - {p}) m m'"
    using m'(3) by (intro untouched_objects [OF D(1) assms(2) p(2) P(1)]) (auto simp: D(2) p(1))
  ultimately show ?thesis using m'(1,2) unfolding slab_state_ok_def by metis
qed


lemma slab_store_objects:
  assumes "slab_state_ok bd k alloc s m L" "8 < s" "p \<in> L" "in_region p (s - 8) x"
  shows "slab_state_ok bd k alloc s (m(x := v)) L \<and> keeps_bytes s (L - {p}) m (m(x := v))"
proof -
  obtain A C T where D: "slabs_rep bd k A alloc s C T m" "L = live_objects s C T" using assms(1) by (auto simp: slab_state_ok_def)
  note E = slabs_repD [OF D(1)]
  obtain c i where p: "p = slot c s i + 8" "c \<in> C" "i \<in> slots_live T c" using assms(3) D(2) by (auto simp: live_objects_def)
  note P = live_object [OF D(1) assms(2) p(2,3)]
  have x: "in_region (slot c s i) s x" using P(6) assms(4) p(1) by simp
  obtain M n fs where t: "T c = (M, n, fs)" by (metis prod_cases3)
  have rm: "cache_room alloc s c M" "cache_rep m s c (M, n, fs)" "i \<in> live n fs" using E(5,6) [OF p(2)] p(3) t by (simp_all add: slots_live_def)
  have iM: "i < M" using P(1) t by simp
  note cd = slot_bytes(1) [OF E(3) p(2) rm(1) iM x]
  have unl: "unlinked alloc C x" by (rule data_in_home(2) [OF E(3) p(2) rm(1) cd])
  have ux: "unat x \<ge> unat c + 80 + i * s" "unat x < unat c + 72 + i * s + s"
    using assms(4) P(2) p(1) assms(2) by (auto simp: in_region_def)
  have word: "rd64 (m(x := v)) y = rd64 m y" if y: "cache_word M s c y" for y
  proof (rule rd64_upd_apart)
    show "unat y + 8 \<le> 18446744073709551616" by (rule cache_word_data(1) [OF E(3) p(2) rm(1) y])
    show "\<not> in_region y 8 x"
      using y unfolding cache_word_def
    proof (elim disjE exE conjE)
      assume "y \<in> {c + 16, c + 40, c + 48, c + 56}"
      then show ?thesis using ux(1) cache_unat(4,7-9) [OF E(3) p(2)] by (auto simp: in_region_def)
    next
      fix j assume j: "j < M" "y = slot c s j"
      note J = cache_slot(1) [OF E(3) p(2) rm(1) j(1)]
      show ?thesis
      proof (cases "i = j")
        case True
        then show ?thesis using ux(1) J j(2) by (auto simp: in_region_def)
      next
        case False
        then have "Suc i * s \<le> j * s \<or> Suc j * s \<le> i * s" by (metis Suc_leI linorder_neqE_nat mult_le_mono1)
        then show ?thesis using ux J j(2) assms(2) by (auto simp: in_region_def)
      qed
    qed
  qed
  have rep: "cache_rep (m(x := v)) s c (T c)" unfolding t using word by (intro cache_rep_words [OF E(3) p(2) rm(1,2)])
  have "slabs_rep bd k A alloc s C (T(c := T c)) (m(x := v))"
  proof (rule slabs_change [OF D(1) p(2) _ _ rep refl])
    show "links_ok alloc C (m(x := v))" using unl by (intro links_same [OF E(7,3)]) auto
    show "(m(x := v)) y = m y" if "\<not> cache_data (fst (T c)) s c y" for y using that cd t by auto
    have "x \<noteq> alloc + 112"
    proof
      assume e: "x = alloc + 112"
      have h: "in_region (home alloc (alloc + 48)) 262144 x" using e root_unat [OF E(3)] by (simp add: home_def in_region_def)
      have "c = alloc + 48" by (rule homes_apart [OF E(3) p(2) E(12) data_in_home(1) [OF E(3) p(2) rm(1) cd] h])
      then show False using ux(1) e root_unat [OF E(3)] by simp
    qed
    then show "(m(x := v)) (alloc + 112) \<noteq> 0" using E(11) by simp
  qed
  moreover have "keeps_bytes s (L - {p}) m (m(x := v))"
    unfolding keeps_bytes_def
  proof (intro ballI allI impI)
    fix q y assume q: "q \<in> L - {p}" "in_region q (s - 8) y"
    have "y \<noteq> x" using live_objects_disjoint [OF D(1) assms(2), of p q x] q assms(3,4) D(2) by auto
    then show "(m(x := v)) y = m y" by simp
  qed
  ultimately show ?thesis using D(2) by (auto simp: slab_state_ok_def)
qed

lemma slab_step_ok:
  assumes "slab_step alloc s (m, L) (m', L')" "slab_state_ok bd k alloc s m L" "8 < s"
  shows "slab_state_ok bd k alloc s m' L'"
  using assms(1)
proof cases
  case (get p)
  then show ?thesis using slab_alloc_objects [OF assms(2,3) get(2)] by simp
next
  case refused
  then show ?thesis using slab_alloc_objects [OF assms(2,3) refused(2)] by simp
next
  case (release p)
  then show ?thesis using slab_free_objects [OF assms(2,3) release(2,3)] by auto
next
  case (store p x v)
  then show ?thesis using slab_store_objects [OF assms(2,3)] by blast
qed

lemma slab_steps_ok:
  "(slab_step alloc s)\<^sup>*\<^sup>* (m, L) (m', L') \<Longrightarrow> slab_state_ok bd k alloc s m L \<Longrightarrow> 8 < s \<Longrightarrow> slab_state_ok bd k alloc s m' L'"
  by (induction rule: rtranclp_induct2) (auto intro: slab_step_ok)

text \<open>A slab with its root cache only.\<close>

lemma one_cache_rep:
  assumes "slab_rep m alloc c N s n fs ff" "N * s \<le> 262024" "slab_in_block m bd k ja A alloc"
  shows "slabs_rep bd k A alloc s {alloc + 48} (\<lambda>_. (N, n, fs)) m" "c = alloc + 48"
proof -
  note R = slab_repD [OF assms(1)]
  have I: "buddy_reach bd k m A" "6 \<le> k" "(k - 6, ja) \<in> A" "alloc = bptr m bd (k - 6) ja" "rd64 m alloc = bd"
    "rd64 m (alloc + 8) = alloc + 48" "rd64 m (alloc + 24) = alloc + 48" "rd64 m (alloc + 40) = 64"
    using assms(3) by (auto simp: slab_in_block_def)
  note lay = reach_layout [OF I(1)]
  have ja: "ja < 2 ^ (k - 6)" using lay(2) [OF I(3)] by simp
  have e: "unat alloc + 262144 \<le> 18446744073709551616"
    using region_block(2) [OF lay(1) diff_le_self ja] I(2) unfolding I(4) by simp
  note O = block_offsets [OF e]
  show c: "c = alloc + 48" using slab_addresses(3) [OF R(1)] O(6) by (simp add: u64_eq_iff)
  have g: "8 \<le> s" "unat (rd64 m (alloc + 32)) = s" "unat (rd64 m (c + 56)) = N" "rd64 m (c + 24) = NULL" "rd64 m (c + 32) = NULL"
    "m (c + 64) \<noteq> 0" "alloc \<noteq> NULL"
    using R(1) by (auto simp: slab_geometry_def)
  have rh: "home alloc (alloc + 48) = alloc" by (simp add: home_def)
  have ca: "caches_apart alloc {alloc + 48}" using e g(7) by (simp add: caches_apart_def rh)
  have "c + 64 = alloc + 112" by (simp add: c)
  then have fl: "m (alloc + 112) \<noteq> 0" using g(6) by metis
  show "slabs_rep bd k A alloc s {alloc + 48} (\<lambda>_. (N, n, fs)) m"
    unfolding slabs_rep_def
  proof (intro conjI ballI)
    show "links_ok alloc {alloc + 48} m"
      using I(6,7) R(8) g(4,5) by (auto simp: links_ok_def link_cell_def c)
    fix d assume d: "d \<in> {alloc + 48}"
    show "\<exists>j. (k - 6, j) \<in> A \<and> home alloc d = bptr m bd (k - 6) j" using d I(3,4) rh by auto
    show "cache_room alloc s d (fst (N, n, fs))" using d assms(2) g(1) O(6) by (simp add: cache_room_def rh)
    show "cache_rep m s d (N, n, fs)" using d R(2-7,11) g(3) by (simp add: cache_rep_def c)
  qed (use I(1,2,5,8) g(2) ca fl in auto)
qed

lemma one_cache_ok:
  assumes "slab_rep m alloc c N s n fs ff" "N * s \<le> 262024" "slab_in_block m bd k ja A alloc"
  shows "slab_state_ok bd k alloc s m ((\<lambda>i. slot c s i + 8) ` live n fs)"
proof -
  note R = one_cache_rep [OF assms]
  have "live_objects s {alloc + 48} (\<lambda>_. (N, n, fs)) = (\<lambda>i. slot c s i + 8) ` live n fs"
    by (auto simp: live_objects_def slots_live_def R(2))
  then show ?thesis using R(1) unfolding slab_state_ok_def by metis
qed

text \<open>
  C6: a slab with any number of caches. Starting with a slab in its block of 64 pages that has its root cache only, a client
  allocates, stores into its objects and releases them, in any order, but does not release the last
  object of a cache other than the root cache (\<open>slab_step\<close>), which gives the cache back while the slab
  still points to it. Then: the objects in use are pairwise disjoint, in whatever caches they
  lie and however the list of the caches is linked; whenever \<open>slab_alloc\<close> returns, what it returns
  is no object in use, and no byte of the objects in use has changed; and \<open>slab_free\<close> of any object
  in use, unless it is the last one of a cache other than the root cache, returns without changing a byte of
  the others.
\<close>

theorem slab_objects_private:
  assumes "slab_rep m alloc c N s n fs ff" "N * s \<le> 262024" "slab_in_block m bd k ja A alloc" "8 < s"
    and "(slab_step alloc s)\<^sup>*\<^sup>* (m, (\<lambda>i. slot c s i + 8) ` live n fs) (m', L)"
  shows "(\<forall>p\<in>L. \<forall>q\<in>L. p \<noteq> q \<longrightarrow> (\<forall>x. \<not> (in_region p (s - 8) x \<and> in_region q (s - 8) x)))
    \<and> (\<forall>p m''. slab_alloc m' alloc = Some (p, m'') \<longrightarrow> p \<notin> L \<and> keeps_bytes s L m' m'')
    \<and> (\<forall>p\<in>L. keeps_cache m' alloc p \<longrightarrow> (\<exists>m''. slab_free m' alloc p = Some m'' \<and> keeps_bytes s (L - {p}) m' m''))"
proof -
  have ok: "slab_state_ok bd k alloc s m' L"
    by (rule slab_steps_ok [OF assms(5) one_cache_ok [OF assms(1-3)] assms(4)])
  then obtain A' C T where D: "slabs_rep bd k A' alloc s C T m'" "L = live_objects s C T" by (auto simp: slab_state_ok_def)
  show ?thesis
    using live_objects_disjoint [OF D(1) assms(4)] slab_alloc_objects [OF ok assms(4)] slab_free_objects [OF ok assms(4)]
    unfolding D(2) by blast
qed

text \<open>A slab whose root cache is full takes a second cache: the objects in the two caches are disjoint.\<close>

theorem slab_objects_private_witness:
  "\<exists>m alloc b m1. slab_alloc m alloc = Some (b + 80, m1) \<and> (slab_step alloc 24)\<^sup>*\<^sup>* (m, {alloc + 128}) (m1, {b + 80, alloc + 128})
     \<and> b + 80 \<noteq> alloc + 128 \<and> \<not> (in_region (b + 80) 16 (b + 80) \<and> in_region (alloc + 128) 16 (b + 80))"
proof -
  obtain m i b mB where D: "slab_in_block m 4096 14 i {(8, i)} (bptr m 4096 8 i)"
    "slab_rep m (bptr m 4096 8 i) (bptr m 4096 8 i + 48) 1 24 1 [] False"
    "buddy_alloc m 4096 64 = Some (b, mB)" "b \<noteq> NULL"
    by (rule demo_full)
  let ?a = "bptr m 4096 8 i"
  have pre: "(1 :: nat) \<le> 1 - length ([] :: nat list)" "(24 :: nat) \<le> 131036" by simp_all
  obtain m1 where a: "slab_alloc m ?a = Some (b + 80, m1)" "apart_block ?a b"
    by (rule grown [OF D(2) pre D(1,3,4)]) blast
  have u: "unat (b + 80) = unat b + 80" using a(2) by (intro block_offsets(10)) (simp add: apart_block_def)
  have L: "(\<lambda>i. slot (?a + 48) 24 i + 8) ` live 1 [] = {?a + 128}" by (auto simp: live_def slot_def)
  have "b + 80 \<noteq> NULL" using u by (auto simp flip: unat_eq_0)
  then have st: "(slab_step ?a 24)\<^sup>*\<^sup>* (m, {?a + 128}) (m1, {b + 80, ?a + 128})"
    using slab_step.get [OF a(1)] by blast
  have 0: "(slab_step ?a 24)\<^sup>*\<^sup>* (m, (\<lambda>i. slot (?a + 48) 24 i + 8) ` live 1 []) (m, {?a + 128})" unfolding L by blast
  have 1: "(slab_step ?a 24)\<^sup>*\<^sup>* (m, (\<lambda>i. slot (?a + 48) 24 i + 8) ` live 1 []) (m1, {b + 80, ?a + 128})" unfolding L by (rule st)
  have "b + 80 \<noteq> ?a + 128" using slab_objects_private [OF D(2) _ D(1) _ 0] a(1) by auto
  moreover have "\<not> (in_region (b + 80) 16 (b + 80) \<and> in_region (?a + 128) 16 (b + 80))"
    using slab_objects_private [OF D(2) _ D(1) _ 1] calculation by auto
  ultimately show ?thesis using a(1) st by blast
qed

subsection \<open>A root cache that has been full\<close>

fun slab_frees :: "mem \<Rightarrow> ptr \<Rightarrow> ptr list \<Rightarrow> mem option" where
  "slab_frees m alloc [] = Some m"
| "slab_frees m alloc (p # ps) = (case slab_free m alloc p of None \<Rightarrow> None | Some m' \<Rightarrow> slab_frees m' alloc ps)"

lemma slab_frees_root:
  assumes "slab_rep m alloc c N s n fs False" "slabs_rep bd k A alloc s {c} T m" "T c = (N, n, fs)" "c = alloc + 48"
    and "distinct is" "set is \<subseteq> live n fs"
  shows "\<exists>m' T'. slab_frees m alloc (map (\<lambda>i. slot c s i + 8) is) = Some m'
    \<and> slab_rep m' alloc c N s n (rev is @ fs) False
    \<and> slabs_rep bd k A alloc s {c} T' m' \<and> T' c = (N, n, rev is @ fs)"
  using assms
proof (induction "is" arbitrary: m fs T)
  case (Cons i "is")
  have i: "i \<in> live n fs" using Cons.prems(6) by simp
  note F = slab_free_eq [OF Cons.prems(1) i] slab_free_rep(1,2) [OF Cons.prems(1) i]
  have "slabs_rep bd k A alloc s {c} (T(c := (N, n, i # fs))) (after_free m c s i)"
    using slab_free_caches [OF Cons.prems(2) _ Cons.prems(3) i] Cons.prems(4) F(1) by auto
  moreover have "set is \<subseteq> live n (i # fs)" using Cons.prems(5,6) unfolding F(3) by auto
  moreover have "distinct is" using Cons.prems(5) by simp
  ultimately obtain m' T' where "slab_frees (after_free m c s i) alloc (map (\<lambda>i. slot c s i + 8) is) = Some m'"
    "slab_rep m' alloc c N s n (rev is @ i # fs) False" "slabs_rep bd k A alloc s {c} T' m'" "T' c = (N, n, rev is @ i # fs)"
    using Cons.IH [OF F(2) _ _ Cons.prems(4)] by fastforce
  then show ?case using F(1) by auto
qed auto

text \<open>
  C36: a slab in its block of 64 pages that has only its root cache, which has been full, so that \<open>first_free_cache\<close> is
  \<open>NULL\<close>. After the release of any of its objects, even of all of them, the free list of the root
  cache has their slots, but \<open>first_free_cache\<close> is still \<open>NULL\<close>: the next
  allocation asks the buddy allocator for 64 pages, fails when it has none, and when it returns an
  object, this is in none of the slots of the root cache.
\<close>

theorem slab_full_never_reused:
  assumes "slab_rep m alloc c N s n fs False" "N * s \<le> 262024" "slab_in_block m bd k ja A alloc" "8 < s"
    and "distinct is" "set is \<subseteq> live n fs"
  shows "\<exists>m'. slab_frees m alloc (map (\<lambda>i. slot c s i + 8) is) = Some m'
    \<and> slab_rep m' alloc c N s n (rev is @ fs) False \<and> rd64 m' (alloc + 16) = NULL
    \<and> (\<forall>mB. buddy_alloc m' bd 64 = Some (NULL, mB) \<longrightarrow> slab_alloc m' alloc = Some (NULL, mB))
    \<and> (\<forall>p m''. slab_alloc m' alloc = Some (p, m'') \<longrightarrow> p = NULL \<or> (\<forall>i<N. p \<noteq> slot c s i + 8))"
proof -
  note O = one_cache_rep [OF assms(1-3)]
  obtain m' T' where M: "slab_frees m alloc (map (\<lambda>i. slot c s i + 8) is) = Some m'"
    "slab_rep m' alloc c N s n (rev is @ fs) False" "slabs_rep bd k A alloc s {c} T' m'" "T' c = (N, n, rev is @ fs)"
    using slab_frees_root [OF assms(1) O(1) [folded O(2)] refl O(2) assms(5,6)] by blast
  note D = slabs_repD [OF M(3)]
  have ff: "rd64 m' (alloc + 16) = NULL" using slab_repD(8) [OF M(2)] by simp
  have "p = NULL \<or> (\<forall>i<N. p \<noteq> slot c s i + 8)" if a: "slab_alloc m' alloc = Some (p, m'')" for p m''
  proof (rule ccontr)
    assume "\<not> (p = NULL \<or> (\<forall>i<N. p \<noteq> slot c s i + 8))"
    then obtain i where p: "p \<noteq> NULL" "i < N" "p = slot c s i + 8" by blast
    obtain b j m2 where b: "b \<notin> {c}" "slab_cache_alloc m2 alloc b = Some (p, m'')"
      and S: "slabs_rep bd k (insert (k - 6, j) A) alloc s (insert b {c}) (T'(b := (262072 div s, 0, []))) m2"
      using slab_grow_caches [OF M(3) ff a] p(1) by blast
    have pb: "p = slot b s 0 + 8"
      using slab_cache_alloc_caches [OF S insertI1 _ b(2)] p(1) by (simp add: next_slot_def)
    have "s \<le> N * s" using p(2) by (cases N) simp_all
    then have "s \<le> 262072" using assms(2) by linarith
    then have "0 < 262072 div s" using assms(4) by (simp add: div_greater_zero_iff)
    then have "b = c \<and> 0 = i"
      using b(1) p(2,3) pb M(4) by (intro objects_distinct [OF S assms(4)]) auto
    then show False using b(1) by simp
  qed
  moreover have "slab_alloc m' alloc = Some (NULL, mB)" if "buddy_alloc m' bd 64 = Some (NULL, mB)" for mB
    using that ff D(8,10) by (simp add: slab_alloc_def)
  ultimately show ?thesis using M(1,2) ff by blast
qed

theorem slab_full_never_reused_witness:
  "\<exists>m alloc m'. slab_rep m alloc (alloc + 48) 1 24 1 [] False \<and> slab_frees m alloc [alloc + 128] = Some m'
    \<and> slab_rep m' alloc (alloc + 48) 1 24 1 [0] False \<and> rd64 m' (alloc + 16) = NULL"
proof -
  obtain m i b mB where D: "slab_in_block m 4096 14 i {(8, i)} (bptr m 4096 8 i)"
    "slab_rep m (bptr m 4096 8 i) (bptr m 4096 8 i + 48) 1 24 1 [] False"
    by (rule demo_full)
  have l: "set [0] \<subseteq> live 1 []" by (simp add: live_def)
  have sl: "slot (bptr m 4096 8 i + 48) 24 0 + 8 = bptr m 4096 8 i + 128" by (simp add: slot_def)
  show ?thesis using slab_full_never_reused [OF D(2) _ D(1) _ _ l] D(2) sl by auto
qed

end
