(* ===== verification/Slab_Hang.thy ===== *)
theory Slab_Hang
  imports Slab_System
begin

section \<open>A slab whose list of caches has no end\<close>

text \<open>
  A cache that has been moved down in the list is its own successor. When every cache has a successor,
  the search for a cache with a free object runs in a circle: the slab takes no further pages, and
  the allocation that hands out the last free object does not return.
\<close>

subsection \<open>Lists without an end\<close>

definition no_end :: "ptr set \<Rightarrow> mem \<Rightarrow> bool" where
  "no_end C m \<longleftrightarrow> (\<forall>c\<in>C. rd64 m (c + 32) \<noteq> NULL)"

lemma no_end_write:
  assumes "caches_apart alloc C" "no_end C m" "link_cell alloc C a" "v \<noteq> NULL \<or> (\<exists>c\<in>C. a = c + 24)"
  shows "no_end C (wr64 m a v)"
  unfolding no_end_def
proof
  fix d assume d: "d \<in> C"
  have "v \<noteq> NULL \<or> a \<noteq> d + 32" using assms(4) next_prev_differ [OF assms(1) _ d] by auto
  then show "rd64 (wr64 m a v) (d + 32) \<noteq> NULL"
    using assms(2) d by (auto simp: no_end_def link_cells_apart [OF assms(1,3)])
qed

lemma no_end_same:
  assumes "no_end C m" "caches_apart alloc C" "\<And>x. \<not> unlinked alloc C x \<Longrightarrow> m' x = m x"
  shows "no_end C m'" "rd64 m' (alloc + 16) = rd64 m (alloc + 16)"
proof -
  have "rd64 m' a = rd64 m a" if lc: "link_cell alloc C a" for a
  proof (rule rd64_same_on)
    obtain c where "c \<in> C" "unat a + 8 \<le> unat (home alloc c) + 262144" by (rule link_cell_home [OF assms(2) lc])
    then show "unat a + 8 \<le> 18446744073709551616" using cache_unat(3) [OF assms(2), of c] by linarith
    show "same_on a 8 m' m" unfolding same_on_def using lc assms(3) by (auto simp: unlinked_def)
  qed
  then show "no_end C m'" "rd64 m' (alloc + 16) = rd64 m (alloc + 16)" using assms(1) by (simp_all add: no_end_def)
qed

lemma no_end_move_up:
  assumes "caches_apart alloc C" "links_ok alloc C m" "c \<in> C" "no_end C m"
  shows "no_end C (slab_cache_move_up m alloc c)" "rd64 (slab_cache_move_up m alloc c) (alloc + 16) = rd64 m (alloc + 16)"
proof -
  have "no_end C (slab_cache_move_up m alloc c) \<and> rd64 (slab_cache_move_up m alloc c) (alloc + 16) = rd64 m (alloc + 16)"
  proof (cases "rd64 m (c + 24) = NULL")
    case False
    let ?p = "rd64 m (c + 24)"
    note E = move_up_eq [OF assms(1-3) refl False]
    note h = header_not_ff [OF assms(1)]
    have nn: "c \<noteq> NULL" "rd64 m (c + 32) \<noteq> NULL" using cache_unat(2) [OF assms(1,3)] assms(3,4) by (auto simp: no_end_def)
    show ?thesis
      unfolding E(1) using E(2) assms(3) nn False h
      by (intro conjI no_end_write [OF assms(1)] assms(4)) (auto simp: link_cells_apart [OF assms(1)])
  qed (simp add: slab_cache_move_up_def assms(4))
  then show "no_end C (slab_cache_move_up m alloc c)" "rd64 (slab_cache_move_up m alloc c) (alloc + 16) = rd64 m (alloc + 16)" by blast+
qed

text \<open>The loop ends at a cache that is not full, and on a list without an end it does not run off it.\<close>

lemma skip_full_no_end:
  assumes "skip_full m alloc = Some m'" "caches_apart alloc C" "links_ok alloc C m" "no_end C m" "rd64 m (alloc + 16) \<noteq> NULL"
  shows "no_end C m' \<and> rd64 m' (alloc + 16) \<noteq> NULL \<and> not_full m' (rd64 m' (alloc + 16))"
proof -
  from assms(1) have "caches_apart alloc C \<longrightarrow> links_ok alloc C m \<longrightarrow> no_end C m \<longrightarrow> rd64 m (alloc + 16) \<noteq> NULL \<longrightarrow>
      no_end C m' \<and> rd64 m' (alloc + 16) \<noteq> NULL \<and> not_full m' (rd64 m' (alloc + 16))"
  proof (rule skip_full.raw_induct [where P = "\<lambda>m alloc m'. caches_apart alloc C \<longrightarrow> links_ok alloc C m \<longrightarrow> no_end C m \<longrightarrow>
        rd64 m (alloc + 16) \<noteq> NULL \<longrightarrow> no_end C m' \<and> rd64 m' (alloc + 16) \<noteq> NULL \<and> not_full m' (rd64 m' (alloc + 16))", rotated])
    fix loop :: "mem \<Rightarrow> ptr \<Rightarrow> mem option" and m alloc m'
    assume IH: "\<And>m alloc m'. loop m alloc = Some m' \<Longrightarrow> caches_apart alloc C \<longrightarrow> links_ok alloc C m \<longrightarrow> no_end C m \<longrightarrow>
        rd64 m (alloc + 16) \<noteq> NULL \<longrightarrow> no_end C m' \<and> rd64 m' (alloc + 16) \<noteq> NULL \<and> not_full m' (rd64 m' (alloc + 16))"
      and body: "(if rd64 m (alloc + 16) \<noteq> NULL
            \<and> rd64 m (rd64 m (alloc + 16) + 48) = rd64 m (rd64 m (alloc + 16) + 56)
          then loop (wr64 m (alloc + 16) (rd64 m (rd64 m (alloc + 16) + 32))) alloc else Some m) = Some m'"
    show "caches_apart alloc C \<longrightarrow> links_ok alloc C m \<longrightarrow> no_end C m \<longrightarrow> rd64 m (alloc + 16) \<noteq> NULL \<longrightarrow>
        no_end C m' \<and> rd64 m' (alloc + 16) \<noteq> NULL \<and> not_full m' (rd64 m' (alloc + 16))"
    proof (intro impI)
      assume ca: "caches_apart alloc C" and ok: "links_ok alloc C m" and ne: "no_end C m" and ff: "rd64 m (alloc + 16) \<noteq> NULL"
      let ?f = "rd64 m (alloc + 16)"
      have f: "?f \<in> C" using ff links_okD(1) [OF ok link_cells(2)] by blast
      show "no_end C m' \<and> rd64 m' (alloc + 16) \<noteq> NULL \<and> not_full m' (rd64 m' (alloc + 16))"
      proof (cases "rd64 m (?f + 48) = rd64 m (?f + 56)")
        case True
        let ?m1 = "wr64 m (alloc + 16) (rd64 m (?f + 32))"
        have nx: "rd64 m (?f + 32) \<noteq> NULL" "rd64 m (?f + 32) \<in> insert NULL C"
          using ne f links_okD(2) [OF ok link_cells(5) [OF f]] by (auto simp: no_end_def)
        have "alloc + 16 \<noteq> alloc + 8" "alloc + 16 \<noteq> alloc + 24" by simp_all
        then have "links_ok alloc C ?m1" using relink_write [OF ca ok link_cells(2) nx(2)] by (simp add: relinked_def)
        moreover have "no_end C ?m1" using nx(1) by (intro no_end_write [OF ca ne link_cells(2)]) simp
        moreover have "loop ?m1 alloc = Some m'" using body True ff by simp
        ultimately show ?thesis using IH [of ?m1 alloc m'] ca nx(1) by simp
      next
        case False
        then have "m' = m" using body by simp
        then show ?thesis using ne ff False by (simp add: not_full_def)
      qed
    qed
  qed
  then show ?thesis using assms(2-5) by blast
qed

subsection \<open>The objects that are left\<close>

definition left_in :: "nat \<times> nat \<times> nat list \<Rightarrow> nat" where
  "left_in t = (case t of (M, n, fs) \<Rightarrow> M - (n - length fs))"

definition endless :: "ptr \<Rightarrow> nat \<Rightarrow> block set \<Rightarrow> ptr \<Rightarrow> nat \<Rightarrow> ptr set \<Rightarrow> cache_table \<Rightarrow> mem \<Rightarrow> bool" where
  "endless bd k A alloc s C T m \<longleftrightarrow> slabs_rep bd k A alloc s C T m \<and> finite C \<and> no_end C m
     \<and> rd64 m (alloc + 16) \<noteq> NULL \<and> not_full m (rd64 m (alloc + 16))"

lemma endless_alloc:
  assumes "endless bd k A alloc s C T m" "slab_alloc m alloc = Some (p, m')"
  shows "\<exists>T'. endless bd k A alloc s C T' m' \<and> Suc (\<Sum>c\<in>C. left_in (T' c)) = (\<Sum>c\<in>C. left_in (T c))"
proof -
  have E: "slabs_rep bd k A alloc s C T m" "finite C" "no_end C m" "rd64 m (alloc + 16) \<noteq> NULL" "not_full m (rd64 m (alloc + 16))"
    using assms(1) by (auto simp: endless_def)
  note D = slabs_repD [OF E(1)]
  let ?c = "rd64 m (alloc + 16)"
  have c: "?c \<in> C" using E(4) links_okD(1) [OF D(7) link_cells(2)] by blast
  obtain M n fs where t: "T ?c = (M, n, fs)" by (metis prod_cases3)
  have rm: "cache_room alloc s ?c M" "cache_rep m s ?c (M, n, fs)" using D(5,6) [OF c] t by simp_all
  note R = cache_repD [OF rm(2)]
  have call: "slab_cache_alloc m alloc ?c = Some (p, m')" using assms(2) E(4) by (simp add: slab_alloc_def)
  have nf: "n - length fs \<noteq> M" using E(5) slab_cache_full [OF E(1) c t] by simp
  obtain m1 m3 where S: "\<And>x. \<not> unlinked alloc C x \<Longrightarrow> m1 x = m x"
    "skip_full (if rd64 m1 (?c + 24) \<noteq> NULL \<and> rd64 m1 (rd64 m1 (?c + 24) + 48) < rd64 m1 (?c + 48)
      then slab_cache_move_up m1 alloc ?c else m1) alloc = Some m3"
    "\<And>x. \<not> unlinked alloc C x \<Longrightarrow> m' x = m3 x" "\<And>d. d \<in> C \<Longrightarrow> not_full m' d \<longleftrightarrow> not_full m3 d"
    "slabs_rep bd k A alloc s C (T(?c := (M, next_carved n fs, tl fs))) m'"
    by (rule slab_cache_alloc_steps [OF E(1) c t call nf]) (rule that, assumption+)
  let ?m2 = "if rd64 m1 (?c + 24) \<noteq> NULL \<and> rd64 m1 (rd64 m1 (?c + 24) + 48) < rd64 m1 (?c + 48)
      then slab_cache_move_up m1 alloc ?c else m1"
  have ok1: "links_ok alloc C m1" by (rule links_same [OF D(7,3) S(1)])
  note N1 = no_end_same [OF E(3) D(3) S(1)]
  have ok2: "links_ok alloc C ?m2" using relinked_move_up [OF D(3) ok1 c] ok1 by (simp add: relinked_def)
  have N2: "no_end C ?m2" "rd64 ?m2 (alloc + 16) \<noteq> NULL" using no_end_move_up [OF D(3) ok1 c N1(1)] N1 E(4) by simp_all
  have N3: "no_end C m3" "rd64 m3 (alloc + 16) \<noteq> NULL" "not_full m3 (rd64 m3 (alloc + 16))"
    using skip_full_no_end [OF S(2) D(3) ok2 N2] by blast+
  note N4 = no_end_same [OF N3(1) D(3) S(3)]
  let ?T = "T(?c := (M, next_carved n fs, tl fs))"
  have "rd64 m' (alloc + 16) \<in> C" using links_okD(1) [OF slabs_repD(7) [OF S(5)] link_cells(2)] N4(2) N3(2) by simp
  then have "endless bd k A alloc s C ?T m'" using S(4,5) E(2) N3(2,3) N4 by (simp add: endless_def)
  moreover have "Suc (left_in (?T ?c)) = left_in (T ?c)"
    using live_take(7) [OF nf cache_repD(1-3) [OF rm(2)]] cache_repD(1) [OF rm(2)] nf t by (simp add: left_in_def)
  then have "Suc (\<Sum>d\<in>C. left_in (?T d)) = (\<Sum>d\<in>C. left_in (T d))"
    using E(2) c by (simp add: sum.remove)
  ultimately show ?thesis by blast
qed

lemma endless_left:
  assumes "endless bd k A alloc s C T m"
  shows "0 < (\<Sum>c\<in>C. left_in (T c))"
proof -
  have E: "slabs_rep bd k A alloc s C T m" "finite C" "rd64 m (alloc + 16) \<noteq> NULL" "not_full m (rd64 m (alloc + 16))"
    using assms by (auto simp: endless_def)
  note D = slabs_repD [OF E(1)]
  have c: "rd64 m (alloc + 16) \<in> C" using E(3) links_okD(1) [OF D(7) link_cells(2)] by blast
  obtain M n fs where t: "T (rd64 m (alloc + 16)) = (M, n, fs)" by (metis prod_cases3)
  have "cache_rep m s (rd64 m (alloc + 16)) (M, n, fs)" using D(6) [OF c] t by simp
  then have "0 < left_in (T (rd64 m (alloc + 16)))"
    using cache_repD(1) [of m s _ M n fs] slab_cache_full [OF E(1) c t] E(4) by (fastforce simp: left_in_def t)
  then show ?thesis using E(2) c by (simp add: sum.remove)
qed

text \<open>Allocations one after the other.\<close>

fun slab_allocs :: "nat \<Rightarrow> mem \<Rightarrow> ptr \<Rightarrow> mem option" where
  "slab_allocs 0 m alloc = Some m"
| "slab_allocs (Suc j) m alloc = (case slab_alloc m alloc of None \<Rightarrow> None | Some (p, m') \<Rightarrow> slab_allocs j m' alloc)"

lemma endless_allocs:
  "endless bd k A alloc s C T m \<Longrightarrow> slab_allocs j m alloc = Some m' \<Longrightarrow> j < (\<Sum>c\<in>C. left_in (T c))"
proof (induction j arbitrary: m T)
  case 0
  then show ?case using endless_left by blast
next
  case (Suc j)
  obtain p m1 where a: "slab_alloc m alloc = Some (p, m1)" "slab_allocs j m1 alloc = Some m'"
    using Suc.prems(2) by (auto split: option.splits)
  obtain T' where T: "endless bd k A alloc s C T' m1" "Suc (\<Sum>c\<in>C. left_in (T' c)) = (\<Sum>c\<in>C. left_in (T c))"
    using endless_alloc [OF Suc.prems(1) a(1)] by blast
  show ?case using Suc.IH [OF T(1) a(2)] T(2) by simp
qed

subsection \<open>How a list loses its end\<close>

lemma second_cache:
  assumes "slab_rep m alloc c N s N fs False" "length fs < N" "s \<le> 131036" "N * s \<le> 262024"
    and "slab_in_block m bd k ja A alloc" "buddy_alloc m bd 64 = Some (b, mB)" "b \<noteq> NULL"
  obtains m1 A' where "slab_alloc m alloc = Some (b + 80, m1)" "b \<noteq> c"
    "slabs_rep bd k A' alloc s {b, c} ((\<lambda>_. (N, N, fs))(b := (262072 div s, 1, []))) m1"
    "rd64 m1 (alloc + 16) = b" "rd64 m1 (c + 32) = b" "rd64 m1 (c + 24) = NULL" "rd64 m1 (b + 32) = NULL"
proof -
  have l: "1 \<le> N - length fs" using assms(2) by simp
  note R = slab_repD [OF assms(1)] and O = one_cache_rep [OF assms(1,4,5)]
  obtain m1 where G: "slab_alloc m alloc = Some (b + 80, m1)" "apart_block alloc b" "rd64 m1 (b + 32) = NULL" "rd64 m1 (alloc + 80) = b"
    "\<And>x. in_region alloc 262144 x \<Longrightarrow> \<not> in_region (alloc + 16) 16 x \<Longrightarrow> \<not> in_region (alloc + 80) 8 x \<Longrightarrow> m1 x = m x"
    "rd64 m1 (alloc + 16) = b"
    by (rule grown [OF assms(1) l assms(3,5-7)]) (rule that, assumption+)
  have ff: "rd64 m (alloc + 16) = NULL" using R(8) by simp
  have e: "unat alloc + 262144 \<le> 18446744073709551616" "unat b + 262144 \<le> 18446744073709551616" using G(2) by (simp_all add: apart_block_def)
  note Oa = block_offsets [OF e(1)] and Ob = block_offsets [OF e(2)]
  have bn: "b + 80 \<noteq> NULL" using Ob(10) by (auto simp flip: unat_eq_0)
  obtain b' j m2 where g: "b' \<notin> {alloc + 48}" "slab_cache_alloc m2 alloc b' = Some (b + 80, m1)"
    "slabs_rep bd k (insert (k - 6, j) A) alloc s (insert b' {alloc + 48}) ((\<lambda>_. (N, N, fs))(b' := (262072 div s, 0, []))) m2"
    using slab_grow_caches [OF O(1) ff G(1)] bn by blast
  let ?T = "(\<lambda>_. (N, N, fs))(b' := (262072 div s, 0, []))"
  have t: "?T b' = (262072 div s, 0, [])" by simp
  note K = slab_cache_alloc_caches [OF g(3) insertI1 t g(2)]
  have "b + 80 = b' + 80" using K bn by (simp add: slot_def next_slot_def)
  then have b': "b' = b" by simp
  have eq: "?T(b' := (262072 div s, next_carved 0 [], tl [])) = (\<lambda>_. (N, N, fs))(b := (262072 div s, 1, []))"
    by (auto simp: b' next_carved_def)
  have "slabs_rep bd k (insert (k - 6, j) A) alloc s (insert b' {alloc + 48}) (?T(b' := (262072 div s, next_carved 0 [], tl []))) m1"
    using K bn by blast
  then have S: "slabs_rep bd k (insert (k - 6, j) A) alloc s {b, c} ((\<lambda>_. (N, N, fs))(b := (262072 div s, 1, []))) m1"
    unfolding eq unfolding b' O(2) [symmetric] .
  have pv: "rd64 m1 (alloc + 72) = NULL"
  proof -
    have "rd64 m1 (alloc + 72) = rd64 m (alloc + 72)"
      using e(1) by (intro rd64_same_on) (auto simp: same_on_def in_region_def Oa intro!: G(5))
    moreover have "rd64 m (c + 24) = NULL" using R(1) by (simp add: slab_geometry_def)
    moreover have "c + 24 = alloc + 72" by (simp add: O(2))
    ultimately show ?thesis by simp
  qed
  have e: "c + 32 = alloc + 80" "c + 24 = alloc + 72" and bc: "b \<noteq> c" using g(1) b' by (simp_all add: O(2))
  show thesis by (rule that [OF G(1) bc S G(6)]) (unfold e, fact G(4), fact pv, fact G(3))
qed

text \<open>The release of the only object of the first of two caches.\<close>

lemma first_emptied:
  assumes "slabs_rep bd k A alloc s {b, c} T m" "c = alloc + 48" "b \<noteq> c" "T c = (N, N, fs)" "live N fs = {i}" "T b = (d, 1, [])" "2 \<le> d"
    and "rd64 m (alloc + 16) = b" "rd64 m (c + 32) = b" "rd64 m (c + 24) = NULL"
  shows "\<exists>m' T'. slab_free m alloc (slot c s i + 8) = Some m' \<and> endless bd k A alloc s {b, c} T' m'
    \<and> (\<Sum>c\<in>{b, c}. left_in (T' c)) = d - 1 + N"
proof -
  note D = slabs_repD [OF assms(1)]
  have inC: "c \<in> {b, c}" "b \<in> {b, c}" by simp_all
  have i: "i \<in> live N fs" using assms(5) by simp
  have rm: "cache_room alloc s c N" "cache_rep m s c (N, N, fs)" using D(5,6) [OF inC(1)] assms(4) by simp_all
  note R = cache_repD [OF rm(2)]
  have cardl: "N - length fs = 1"
  proof -
    have "card (live N fs) = N - length fs"
      unfolding live_def using R(2,3) by (subst card_Diff_subset) (auto simp: distinct_card)
    then show ?thesis using assms(5) by simp
  qed
  let ?T = "T(c := (N, N, i # fs))" and ?m' = "slab_cache_free m alloc c (slot c s i)"
  obtain m' where F: "slab_free m alloc (slot c s i + 8) = Some m'" "m' = ?m'" "slabs_rep bd k A alloc s {b, c} ?T m'"
    using slab_free_caches [OF assms(1) inC(1) assms(4) i] assms(2) by blast
  let ?m1 = "freelist_push m (c + 40) (slot c s i)"
  define m2 where "m2 = wr64 ?m1 (c + 48) (rd64 ?m1 (c + 48) - 1)"
  note G = cache_give [OF D(3) inC(1) rm i, folded m2_def]
  have iT: "i < fst (T c)" using R(10) [OF i] assms(4) by simp
  have un: "m2 x = m x" if "\<not> unlinked alloc {b, c} x" for x using that touch_unlinked [OF assms(1) inC(1) iT] G(2) by blast
  have ok2: "links_ok alloc {b, c} m2" by (rule links_same [OF D(7,3) un])
  have lk: "rd64 m2 a = rd64 m a" if lc: "link_cell alloc {b, c} a" for a
  proof (rule rd64_same_on)
    obtain c' where "c' \<in> {b, c}" "unat a + 8 \<le> unat (home alloc c') + 262144" by (rule link_cell_home [OF D(3) lc])
    then show "unat a + 8 \<le> 18446744073709551616" using cache_unat(3) [OF D(3), of c'] by linarith
    show "same_on a 8 m2 m" unfolding same_on_def using lc un by (auto simp: unlinked_def)
  qed
  have bcount: "unat (rd64 m2 (b + 48)) = 1"
  proof -
    have rb: "cache_room alloc s b d" "cache_rep m s b (d, 1, [])" using D(5,6) [OF inC(2)] assms(6) by simp_all
    have "rd64 m2 (b + 48) = rd64 m (b + 48)"
    proof (rule rd64_same_on)
      have w: "cache_word d s b (b + 48)" by simp
      show "unat (b + 48) + 8 \<le> 18446744073709551616" by (rule cache_word_data(1) [OF D(3) inC(2) rb(1) w])
      have "m2 x = m x" if "in_region (b + 48) 8 x" for x
      proof (rule G(2))
        note db = data_in_home(1) [OF D(3) inC(2) rb(1) cache_word_data(2) [OF D(3) inC(2) rb(1) w that]]
        show "\<not> cache_touch s c i x"
          using homes_apart [OF D(3) inC(1,2) data_in_home(1) [OF D(3) inC(1) rm(1) cache_touch_data(1) [OF D(3) inC(1) rm(1) R(10) [OF i]]] db]
            assms(3) by blast
      qed
      then show "same_on (b + 48) 8 m2 m" by (simp add: same_on_def)
    qed
    then show ?thesis using cache_repD(7) [OF rb(2)] by simp
  qed
  have bn: "b \<noteq> NULL" using cache_unat(2) [OF D(3) inC(2)] .
  have nx: "rd64 m2 (c + 32) = b" "rd64 m2 (c + 24) = NULL" "rd64 m2 (alloc + 16) = b" using lk assms(8-10) by simp_all
  have "rd64 m2 (c + 48) < rd64 m2 (b + 48)" using G(3) cardl bcount by (simp add: word_less_nat_alt)
  moreover have "rd64 m2 (c + 48) = rd64 ?m1 (c + 48) - 1" by (simp add: m2_def)
  ultimately have mv: "m' = slab_cache_move_down m2 alloc c"
    using nx(1) bn by (simp add: F(2) slab_cache_free_def Let_def m2_def [symmetric])
  note E = move_down_eq [OF D(3) ok2 inC(1) nx(1) bn]
  note lc = link_cells_apart [OF D(3)] and nd = next_prev_differ [OF D(3)]
  have h: "x + 24 \<noteq> alloc + 16" "x + 32 \<noteq> alloc + 16" if "x \<in> {b, c}" for x using header_not_ff [OF D(3) that] .
  have cn: "c \<noteq> NULL" using cache_unat(2) [OF D(3) inC(1)] .
  have d1: "c + 24 \<noteq> c + 32" "b + 24 \<noteq> b + 32" "c + 24 \<noteq> b + 32" "b + 24 \<noteq> c + 32" using nd inC by blast+
  have "rd64 m' (c + 32) = c" "rd64 m' (b + 32) = c" "rd64 m' (alloc + 16) = b"
    unfolding mv E(1) using nx(3) d1 assms(3) h [OF inC(1)] h [OF inC(2)]
    by (simp_all add: lc)
  moreover have "not_full m' b" using slab_cache_full [OF F(3) inC(2)] assms(3,6,7) by auto
  ultimately have "endless bd k A alloc s {b, c} ?T m'" using F(3) cn bn by (simp add: endless_def no_end_def)
  moreover have "(\<Sum>c\<in>{b, c}. left_in (?T c)) = d - 1 + N"
    using assms(3,6) cardl R(9) by (simp add: left_in_def)
  ultimately show ?thesis using F(1) by blast
qed

text \<open>
  C37: a sequence of calls of which one does not return. A slab in its block of 64 pages has only its root
  cache, whose slots of at most 131036 bytes have all been handed out, and exactly one of its objects is still in use. The next allocation
  takes a second cache, when the buddy allocator has 64 pages for it. When then, with no call in between, that object of the root cache is released, the
  two caches have room for \<open>262072 div s - 1 + N\<close> further objects; but of so many allocations in a row,
  one does not return: the one that hands out the last free object, or an earlier one, looks for a
  cache with a free object in a circle for ever. (The other source
  of a result \<open>None\<close> of \<open>slab_alloc\<close>, setting up a cache, is not reached: \<open>first_free_cache\<close> is never
  \<open>NULL\<close> here.)
\<close>

theorem slab_alloc_hangs:
  assumes "slab_rep m alloc c N s N fs False" "live N fs = {i}" "s \<le> 131036" "N * s \<le> 262024"
    and "slab_in_block m bd k ja A alloc" "buddy_alloc m bd 64 = Some (b, mB)" "b \<noteq> NULL"
  shows "\<exists>m1 m2. slab_alloc m alloc = Some (b + 80, m1) \<and> slab_free m1 alloc (slot c s i + 8) = Some m2
    \<and> slab_allocs (262072 div s - 1 + N) m2 alloc = None"
proof -
  note R = slab_repD [OF assms(1)]
  have "card (live N fs) = N - length fs"
    unfolding live_def using R(3,4) by (subst card_Diff_subset) (auto simp: distinct_card)
  then have l: "length fs < N" using assms(2) by simp
  obtain m1 A' where S: "slab_alloc m alloc = Some (b + 80, m1)" "b \<noteq> c"
    "slabs_rep bd k A' alloc s {b, c} ((\<lambda>_. (N, N, fs))(b := (262072 div s, 1, []))) m1"
    "rd64 m1 (alloc + 16) = b" "rd64 m1 (c + 32) = b" "rd64 m1 (c + 24) = NULL"
    by (rule second_cache [OF assms(1) l assms(3-7)]) (rule that, assumption+)
  let ?T = "(\<lambda>_. (N, N, fs))(b := (262072 div s, 1, []))"
  have T: "?T c = (N, N, fs)" "?T b = (262072 div s, 1, [])" using S(2) by simp_all
  have s: "8 \<le> s" using R(1) by (simp add: slab_geometry_def)
  then have "262072 div 131036 \<le> 262072 div s" using assms(3) by (intro div_le_mono2) auto
  then have d: "2 \<le> 262072 div s" by simp
  have c: "c = alloc + 48" by (rule one_cache_rep(2) [OF assms(1,4,5)])
  obtain m2 T' where E: "slab_free m1 alloc (slot c s i + 8) = Some m2" "endless bd k A' alloc s {b, c} T' m2"
    "(\<Sum>c\<in>{b, c}. left_in (T' c)) = 262072 div s - 1 + N"
    using first_emptied [OF S(3) c S(2) T(1) assms(2) T(2) d S(4-6)] by blast
  have "slab_allocs (262072 div s - 1 + N) m2 alloc = None"
  proof (rule ccontr)
    assume "slab_allocs (262072 div s - 1 + N) m2 alloc \<noteq> None"
    then show False using endless_allocs [OF E(2)] E(3) by fastforce
  qed
  then show ?thesis using S(1) E(1) by blast
qed

theorem slab_alloc_hangs_witness:
  "\<exists>m alloc b m1 m2. slab_alloc m alloc = Some (b + 80, m1) \<and> slab_free m1 alloc (alloc + 128) = Some m2
     \<and> slab_allocs 10919 m2 alloc = None"
proof -
  obtain m j b mB where D: "slab_in_block m 4096 14 j {(8, j)} (bptr m 4096 8 j)"
    "slab_rep m (bptr m 4096 8 j) (bptr m 4096 8 j + 48) 1 24 1 [] False"
    "buddy_alloc m 4096 64 = Some (b, mB)" "b \<noteq> NULL"
    by (rule demo_full)
  have l: "live 1 [] = {0}" by (auto simp: live_def)
  have sl: "slot (bptr m 4096 8 j + 48) 24 0 + 8 = bptr m 4096 8 j + 128" by (simp add: slot_def)
  have n: "262072 div 24 - 1 + 1 = (10919 :: nat)" "(24 :: nat) \<le> 131036" "1 * 24 \<le> (262024 :: nat)" by simp_all
  obtain m1 m2 where "slab_alloc m (bptr m 4096 8 j) = Some (b + 80, m1)"
    "slab_free m1 (bptr m 4096 8 j) (slot (bptr m 4096 8 j + 48) 24 0 + 8) = Some m2"
    "slab_allocs (262072 div 24 - 1 + 1) m2 (bptr m 4096 8 j) = None"
    using slab_alloc_hangs [OF D(2) l n(2,3) D(1,3,4)] by blast
  then show ?thesis unfolding sl n(1) by blast
qed

end
