(* ===== verification/Penguin_Stores.thy ===== *)
theory Penguin_Stores
  imports Penguin_System
begin

section \<open>The objects of the heap are private memories\<close>

text \<open>
  What a program expects of \<open>malloc\<close> and \<open>free\<close>: that what it writes into an object stays there
  until it writes again or gives the object back, whatever else happens. The contract is a locale
  that extends the one of sources of pages by the memory of the objects; the buddy allocator and the
  heap both meet it.
\<close>

subsection \<open>The contract\<close>

datatype ('r, 'a, 'v) request = New 'r | Drop nat | Store_at nat 'a 'v

locale memory_source = page_source ok get put good separate
  for ok :: "'s \<Rightarrow> 'b set \<Rightarrow> bool" and get :: "'s \<Rightarrow> 'r \<Rightarrow> ('b \<times> 's) option"
    and put :: "'s \<Rightarrow> 'b \<Rightarrow> 's" and good :: "'b \<Rightarrow> bool" and separate :: "'b \<Rightarrow> 'b \<Rightarrow> bool" +
  fixes region :: "'s \<Rightarrow> 'b \<Rightarrow> 'a set"
    and byte :: "'s \<Rightarrow> 'a \<Rightarrow> 'v"
    and store :: "'s \<Rightarrow> 'a \<Rightarrow> 'v \<Rightarrow> 's"
  assumes separate_regions: "ok s A \<Longrightarrow> a \<in> A \<Longrightarrow> b \<in> A \<Longrightarrow> separate a b \<Longrightarrow> region s a \<inter> region s b = {}"
    and get_keeps: "ok s A \<Longrightarrow> get s r = Some (b, s') \<Longrightarrow> a \<in> A
        \<Longrightarrow> region s' a = region s a \<and> (\<forall>x\<in>region s a. byte s' x = byte s x)"
    and put_keeps: "ok s A \<Longrightarrow> b \<in> A \<Longrightarrow> good b \<Longrightarrow> a \<in> A \<Longrightarrow> a \<noteq> b
        \<Longrightarrow> region (put s b) a = region s a \<and> (\<forall>x\<in>region s a. byte (put s b) x = byte s x)"
    and store_ok: "ok s A \<Longrightarrow> b \<in> A \<Longrightarrow> x \<in> region s b
        \<Longrightarrow> ok (store s x v) A \<and> (\<forall>a\<in>A. region (store s x v) a = region s a) \<and> byte (store s x v) = (byte s)(x := v)"
begin

text \<open>
  A client: the objects it holds are a list, and it can ask for a new one, drop one, and store a
  value at a place of one.
\<close>

fun act :: "'s \<times> 'b list \<Rightarrow> ('r, 'a, 'v) request \<Rightarrow> 's \<times> 'b list" where
  "act c (New r) = serve c (Get r)"
| "act c (Drop n) = serve c (Put n)"
| "act c (Store_at n x v) =
     (if n < length (snd c) \<and> x \<in> region (fst c) (snd c ! n) then (store (fst c) x v, snd c) else c)"

lemma act_served: "served c \<Longrightarrow> served (act c q)"
proof (cases q)
  case (Store_at n x v)
  assume c: "served c"
  show ?thesis
  proof (cases "n < length (snd c) \<and> x \<in> region (fst c) (snd c ! n)")
    case True
    then show ?thesis
      using c store_ok [of "fst c" "set (snd c)" "snd c ! n" x v] by (simp add: Store_at served_def)
  qed (use c Store_at in auto)
qed (simp_all add: serve_served)

text \<open>The value at the place \<open>x\<close> of the object \<open>a\<close> after a request, and after a list of requests.\<close>

fun effect :: "'b \<Rightarrow> 'a \<Rightarrow> 's \<times> 'b list \<Rightarrow> ('r, 'a, 'v) request \<Rightarrow> 'v \<Rightarrow> 'v" where
  "effect a x c (Store_at n y v) w =
     (if n < length (snd c) \<and> snd c ! n = a \<and> y = x then v else w)"
| "effect a x c q w = w"

fun history :: "'b \<Rightarrow> 'a \<Rightarrow> 's \<times> 'b list \<Rightarrow> ('r, 'a, 'v) request list \<Rightarrow> 'v \<Rightarrow> 'v" where
  "history a x c [] w = w"
| "history a x c (q # qs) w = history a x (act c q) qs (effect a x c q w)"

text \<open>The object is held all the time.\<close>

fun held :: "'b \<Rightarrow> 's \<times> 'b list \<Rightarrow> ('r, 'a, 'v) request list \<Rightarrow> bool" where
  "held a c [] \<longleftrightarrow> a \<in> set (snd c)"
| "held a c (q # qs) \<longleftrightarrow> a \<in> set (snd c) \<and> held a (act c q) qs"

lemma held_now: "held a c qs \<Longrightarrow> a \<in> set (snd c)"
  by (cases qs) auto

lemma act_private:
  assumes "served c" "a \<in> set (snd c)" "a \<in> set (snd (act c q))" "x \<in> region (fst c) a"
  shows "region (fst (act c q)) a = region (fst c) a \<and> byte (fst (act c q)) x = effect a x c q (byte (fst c) x)"
proof -
  obtain s live where c: "c = (s, live)" by (cases c)
  have s: "ok s (set live)" "distinct live" "a \<in> set live" "x \<in> region s a"
    using assms by (simp_all add: c served_def)
  show ?thesis
  proof (cases q)
    case (New r)
    then show ?thesis using get_keeps [OF s(1) _ s(3)] s(4) by (auto simp: c split: option.splits)
  next
    case (Drop n)
    show ?thesis
    proof (cases "n < length live \<and> good (live ! n)")
      case True
      have l: "live = take n live @ live ! n # drop (Suc n) live" using True by (simp add: id_take_nth_drop)
      have "distinct (take n live @ live ! n # drop (Suc n) live)" using s(2) by (subst (asm) l)
      then have "a \<noteq> live ! n" using assms(3) True Drop by (auto simp: c)
      then show ?thesis using put_keeps [OF s(1) _ _ s(3)] True s(4) Drop by (simp add: c)
    qed (use Drop c in auto)
  next
    case (Store_at n y v)
    show ?thesis
    proof (cases "n < length live \<and> y \<in> region s (live ! n)")
      case True
      note W = store_ok [OF s(1) nth_mem [OF conjunct1 [OF True]] conjunct2 [OF True], of v]
      have "live ! n = a" if "y = x"
      proof (rule ccontr)
        assume "live ! n \<noteq> a"
        then have "region s (live ! n) \<inter> region s a = {}"
          using True s(1,3) separated [OF s(1)] by (intro separate_regions [OF s(1)]) auto
        then show False using that True s(4) by auto
      qed
      then show ?thesis using W True s(3) by (auto simp: c Store_at)
    next
      case False
      then show ?thesis using s(4) by (auto simp: c Store_at)
    qed
  qed
qed

text \<open>
  Whatever is asked for, dropped and stored elsewhere in the meantime: the memory of an object that
  is held stays where it is, and holds what has been stored through the object.
\<close>

lemma private_memory:
  "served c \<Longrightarrow> held a c qs \<Longrightarrow> x \<in> region (fst c) a \<Longrightarrow>
     region (fst (foldl act c qs)) a = region (fst c) a
     \<and> byte (fst (foldl act c qs)) x = history a x c qs (byte (fst c) x)"
proof (induction qs arbitrary: c)
  case (Cons q qs)
  have "a \<in> set (snd c)" "held a (act c q) qs" using Cons.prems(2) by auto
  note P = act_private [OF Cons.prems(1) this(1) held_now [OF this(2)] Cons.prems(3)]
  show ?case using Cons.IH [OF act_served [OF Cons.prems(1)] \<open>held a (act c q) qs\<close>] P Cons.prems(3) by simp
qed simp

lemma act_all: "served c \<Longrightarrow> served (foldl act c qs)"
  by (induction qs arbitrary: c) (simp_all add: act_served)

end

subsection \<open>The buddy allocator\<close>

definition block_region :: "ptr \<Rightarrow> nat \<Rightarrow> mem \<Rightarrow> block \<Rightarrow> ptr set" where
  "block_region alloc k m b = {x. in_block (pool_begin (load_buddy m alloc)) k b x}"

lemma block_region_keeps:
  assumes "keeps m m' alloc k B" "b \<in> B"
  shows "block_region alloc k m' b = block_region alloc k m b \<and> (\<forall>x\<in>block_region alloc k m b. m' x = m x)"
  using assms by (simp add: keeps_def block_region_def)

interpretation bm: memory_source "buddy_reach alloc k" "buddy_get_block alloc" "buddy_put_block alloc"
  "\<lambda>b. even (snd b)" "disjoint_blocks k" "block_region alloc k" "\<lambda>m. m" "\<lambda>m x v. m(x := v)"
proof unfold_locales
  fix m A and a b :: block
  assume r: "buddy_reach alloc k m A" and ab: "a \<in> A" "b \<in> A" "disjoint_blocks k a b"
  then show "block_region alloc k m a \<inter> block_region alloc k m b = {}"
    unfolding block_region_def disjoint_blocks_def using in_block_page by blast
next
  fix m A r b m' a
  assume r: "buddy_reach alloc k m A" "buddy_get_block alloc m r = Some (b, m')" "a \<in> A"
  obtain p where p: "r \<noteq> 0" "buddy_alloc m alloc r = Some (p, m')" "p \<noteq> NULL"
    using r(2) by (auto simp: buddy_get_block_def split: if_splits option.splits)
  obtain s where s: "buddy_rep m alloc k s" "tree_inv k s A" by (rule buddy_reachE [OF r(1)])
  from s p(1) have "keeps m m' alloc k A"
    by (cases rule: buddy_alloc_cases) (use p in auto)
  then show "block_region alloc k m' a = block_region alloc k m a \<and> (\<forall>x\<in>block_region alloc k m a. m' x = m x)"
    using r(3) by (rule block_region_keeps)
next
  fix m A and b a :: block
  assume r: "buddy_reach alloc k m A" "b \<in> A" "even (snd b)" "a \<in> A" "a \<noteq> b"
  obtain s where s: "buddy_rep m alloc k s" "tree_inv k s A" "k \<le> 31" by (rule buddy_reachE [OF r(1)])
  have b: "(fst b, snd b) \<in> A" using r(2) by simp
  obtain m' where m': "buddy_free m alloc (bptr m alloc (fst b) (snd b)) = Some m'" "keeps m m' alloc k (A - {(fst b, snd b)})"
    by (rule buddy_free_even [OF s(1,2) b r(3) s(3)])
  have "buddy_put_block alloc m b = m'" by (simp add: buddy_put_block_def m'(1))
  then show "block_region alloc k (buddy_put_block alloc m b) a = block_region alloc k m a
      \<and> (\<forall>x\<in>block_region alloc k m a. buddy_put_block alloc m b x = m x)"
    using m'(2) r(4,5) by (intro block_region_keeps [where B = "A - {b}"]) auto
next
  fix m A and b :: block and x v
  assume r: "buddy_reach alloc k m A" "b \<in> A" "x \<in> block_region alloc k m b"
  have "buddy_reach alloc k (m(x := v)) A \<and> load_buddy (m(x := v)) alloc = load_buddy m alloc"
    using r(3) by (intro reach_writes [OF r(1,2)]) (auto simp: block_region_def)
  then show "buddy_reach alloc k (m(x := v)) A
      \<and> (\<forall>a\<in>A. block_region alloc k (m(x := v)) a = block_region alloc k m a) \<and> m(x := v) = m(x := v)"
    by (simp add: block_region_def)
qed

subsection \<open>The heap\<close>












end
