(* ===== verification/Kernel.thy ===== *)
theory Kernel
  imports Prelude
begin

section \<open>What the kernel modules share\<close>

text \<open>
  The three kernel modules return an error number or a value, format text into byte arrays, wait
  for events, and acquire and release resources of the kernel. This theory holds the types for
  that and the kernel's counterparts of the C string functions: \<open>strsep\<close>, \<open>scnprintf\<close> (which
  returns the number of bytes written without the terminating zero) and \<open>strscpy\<close>. A character
  array is a list of its bytes, all of them, so that its length is the size of the array; a write
  at an offset overwrites the bytes from there on, and a write past the end would make the list
  longer, which the invariants of the arrays exclude.
\<close>

subsection \<open>Results\<close>

datatype errno = EIO | EAGAIN | ENOMEM | EFAULT | EBUSY | EINVAL | EMSGSIZE | ERESTARTSYS

text \<open>A call that may sleep: it still waits, fails, or returns a value.\<close>

datatype 'a outcome = Asleep | Fail errno | Done 'a

text \<open>What ends a sleep: a signal, or a wake-up, after which the state of the device is read again.\<close>

datatype 's wake = Interrupted | Woken 's

subsection \<open>Character arrays\<close>

definition NUL :: char where "NUL = CHR 0x00"
definition NEWLINE :: char where "NEWLINE = CHR 0x0A"

text \<open>The C string that starts at the first byte.\<close>

definition cstr :: "string \<Rightarrow> string" where
  "cstr s = takeWhile (\<lambda>c. c \<noteq> NUL) s"

definition write_at :: "'a list \<Rightarrow> nat \<Rightarrow> 'a list \<Rightarrow> 'a list" where
  "write_at buf off xs = take off buf @ xs @ drop (off + length xs) buf"

definition scnprintf :: "string \<Rightarrow> u64 \<Rightarrow> u64 \<Rightarrow> string \<Rightarrow> string \<times> u64" where
  "scnprintf buf off sz s =
     (if sz = 0 then (buf, 0)
      else let out = take (unat sz - 1) s
           in (write_at buf (unat off) (out @ [NUL]), of_nat (length out)))"

definition strscpy :: "string \<Rightarrow> string \<Rightarrow> u64 \<Rightarrow> string" where
  "strscpy dst src sz = (if sz = 0 then dst else write_at dst 0 (take (unat sz - 1) (cstr src) @ [NUL]))"

text \<open>\<open>strsep\<close> returns the token and the new value of the pointer it is given.\<close>

definition strsep :: "string option \<Rightarrow> char \<Rightarrow> string option \<times> string option" where
  "strsep p d =
     (case p of
        None \<Rightarrow> (None, None)
      | Some s \<Rightarrow>
          (Some (takeWhile (\<lambda>c. c \<noteq> d) s),
           case dropWhile (\<lambda>c. c \<noteq> d) s of [] \<Rightarrow> None | _ # rest \<Rightarrow> Some rest))"

text \<open>\<open>%d\<close> and \<open>%.*s\<close>\<close>

fun dec_nat :: "nat \<Rightarrow> string" where
  "dec_nat n = (if n < 10 then [char_of (n + 48)] else dec_nat (n div 10) @ [char_of (n mod 10 + 48)])"

declare dec_nat.simps [simp del]

definition dec_int :: "int \<Rightarrow> string" where
  "dec_int i = (if i < 0 then ''-'' @ dec_nat (nat (- i)) else dec_nat (nat i))"

definition prec_str :: "int \<Rightarrow> string \<Rightarrow> string" where
  "prec_str n s = (if n < 0 then cstr s else take (nat n) (cstr s))"

subsection \<open>Lemmas on character arrays\<close>

lemma length_write_at [simp]:
  "off + length xs \<le> length buf \<Longrightarrow> length (write_at buf off xs) = length buf"
  by (simp add: write_at_def)

lemma take_write_at [simp]: "off \<le> length buf \<Longrightarrow> take off (write_at buf off xs) = take off buf"
  by (simp add: write_at_def)

lemma take_write_at_all:
  "off \<le> length buf \<Longrightarrow> k \<le> length xs \<Longrightarrow> take (off + k) (write_at buf off xs) = take off buf @ take k xs"
  by (simp add: write_at_def)

lemma nth_write_at:
  "off \<le> length buf \<Longrightarrow> k < length xs \<Longrightarrow> write_at buf off xs ! (off + k) = xs ! k"
  by (simp add: write_at_def nth_append)

lemma scnprintf_bytes:
  assumes "scnprintf buf off sz s = (buf', n)" "0 < unat sz" "unat off + unat sz \<le> length buf"
  shows "unat n = min (length s) (unat sz - 1)" "length buf' = length buf"
    and "take (unat off) buf' = take (unat off) buf"
    and "take (unat off + unat n) buf' = take (unat off) buf @ take (unat sz - 1) s"
    and "buf' ! (unat off + unat n) = NUL"
proof -
  have z: "sz \<noteq> 0" using assms(2) by auto
  let ?out = "take (unat sz - 1) s"
  have b: "buf' = write_at buf (unat off) (?out @ [NUL])" "n = of_nat (length ?out)"
    using assms(1) z by (auto simp: scnprintf_def Let_def)
  have l: "length ?out < unat sz" using assms(2) by (simp add: min_less_iff_disj)
  then show n: "unat n = min (length s) (unat sz - 1)"
    unfolding b(2) using unat_lt64 [of sz] by (subst unat_of_nat64) (use l in linarith, simp)
  have nl: "unat n = length ?out" using n by simp
  show "length buf' = length buf" unfolding b(1) using l assms(3) by (subst length_write_at) auto
  show "take (unat off) buf' = take (unat off) buf" unfolding b(1) using assms(3) by simp
  show "take (unat off + unat n) buf' = take (unat off) buf @ ?out"
    unfolding nl b(1) using assms(3) by (subst take_write_at_all) (auto simp: min_def)
  have "write_at buf (unat off) (?out @ [NUL]) ! (unat off + length ?out) = (?out @ [NUL]) ! length ?out"
    using assms(3) by (intro nth_write_at) auto
  then show "buf' ! (unat off + unat n) = NUL" unfolding nl b(1) by (simp only: nth_append_length)
qed

lemma cstr_id: "NUL \<notin> set s \<Longrightarrow> cstr s = s"
  by (auto simp: cstr_def takeWhile_eq_all_conv)

lemma NUL_notin_cstr [simp]: "NUL \<notin> set (cstr s)"
  by (auto simp: cstr_def dest: set_takeWhileD)

lemma cstr_append_NUL [simp]: "NUL \<notin> set s \<Longrightarrow> cstr (s @ NUL # r) = s"
  by (induction s) (auto simp: cstr_def)

lemma length_cstr_le: "length (cstr s) \<le> length s"
  by (simp add: cstr_def length_takeWhile_le)

lemma strsep_Some:
  assumes "d \<notin> set a"
  shows "strsep (Some (a @ d # b)) d = (Some a, Some b)"
proof -
  have "takeWhile (\<lambda>c. c \<noteq> d) (a @ d # b) = a" "dropWhile (\<lambda>c. c \<noteq> d) (a @ d # b) = d # b"
    using assms by (auto simp: takeWhile_append dropWhile_append takeWhile_eq_all_conv)
  then show ?thesis by (simp add: strsep_def)
qed

lemma strsep_last: "d \<notin> set a \<Longrightarrow> strsep (Some a) d = (Some a, None)"
proof -
  assume d: "d \<notin> set a"
  then have "takeWhile (\<lambda>c. c \<noteq> d) a = a" by (auto simp: takeWhile_eq_all_conv)
  moreover have "dropWhile (\<lambda>c. c \<noteq> d) a = []" using d by (auto simp: dropWhile_eq_Nil_conv)
  ultimately show ?thesis unfolding strsep_def option.case by (metis list.simps(4))
qed

lemma strsep_None [simp]: "strsep None d = (None, None)"
  by (simp add: strsep_def)

lemma length_dec_nat_le: "n < 10 \<Longrightarrow> length (dec_nat n) = 1"
  by (simp add: dec_nat.simps)

lemma dec_nat_digits: "set (dec_nat n) \<subseteq> char_of ` {48..57 :: nat}"
proof (induction n rule: dec_nat.induct)
  case (1 n)
  show ?case
  proof (cases "n < 10")
    case True
    then have "dec_nat n = [char_of (n + 48)]" "n + 48 \<in> {48..57}" by (simp_all add: dec_nat.simps)
    then show ?thesis by (simp del: atLeastAtMost_iff add: image_eqI)
  next
    case False
    then have "set (dec_nat (n div 10)) \<subseteq> char_of ` {48..57 :: nat}" by (rule 1)
    moreover have "n mod 10 + 48 \<in> {48..57}" by simp
    ultimately show ?thesis by (subst dec_nat.simps) (auto intro!: imageI simp del: atLeastAtMost_iff)
  qed
qed

lemma drop_take_append:
  assumes "i \<le> j" "j \<le> k"
  shows "drop i (take j xs) @ drop j (take k xs) = drop i (take k xs)"
proof -
  have "take (k - i) (drop i xs) = take (j - i) (drop i xs) @ take (k - j) (drop (j - i) (drop i xs))"
    using take_add [of "j - i" "k - j" "drop i xs"] assms by simp
  then show ?thesis using assms(1) by (simp add: drop_take)
qed

lemma take_length_take: "take (length (take n xs)) xs = take n xs"
  by (simp add: min_def)

subsection \<open>Resources\<close>

text \<open>
  What a module acquires from the kernel and gives back, in the order of its calls. A trace is run
  against the set of what is held: acquiring what is held already, or releasing or using what is
  not, is an error.
\<close>

datatype 'r event = Acquire 'r | Release 'r | Use 'r

fun run_events :: "'r set \<Rightarrow> 'r event list \<Rightarrow> 'r set option" where
  "run_events H [] = Some H"
| "run_events H (Acquire r # es) = (if r \<in> H then None else run_events (insert r H) es)"
| "run_events H (Release r # es) = (if r \<in> H then run_events (H - {r}) es else None)"
| "run_events H (Use r # es) = (if r \<in> H then run_events H es else None)"

lemma run_events_append:
  "run_events H (es @ fs) = (case run_events H es of None \<Rightarrow> None | Some H' \<Rightarrow> run_events H' fs)"
  by (induction H es rule: run_events.induct) auto

end
