(* ===== verification/Telegram.thy ===== *)
theory Telegram
  imports Kernel
begin

section \<open>The Telegram character devices (tgfs.h, bus.c, chat.c, main.c)\<close>

text \<open>
  Ten chat devices, each with an append-only buffer of text, and one bus device with a queue of
  32 messages to the daemon. A process writes a line to a chat: it is appended to the buffer of
  the chat and queued on the bus. The daemon reads lines from the bus, and writes \<open>IN\<close> and \<open>SET\<close>
  commands to it, which append to the buffer of a chat or set its Telegram id.

  Every operation is one step under the mutex of its device. A reader that finds nothing gives the
  mutex up and sleeps: what the device has become when it wakes up is an argument. The failure of
  \<open>copy_to_user\<close> and \<open>copy_from_user\<close> is the argument \<open>fault\<close>, and \<open>kstrtoint\<close> is a
  parameter. Log output and the fields of the kernel's own (\<open>cdev\<close>, \<open>lock\<close>, \<open>waitq\<close>) are left
  out of the records, and \<open>write_pos\<close>, which no code uses.
\<close>

subsection \<open>The state (tgfs.h)\<close>

definition MAX_CHATS :: nat where "MAX_CHATS = 10"
definition BUS_QUEUE_SIZE :: u64 where "BUS_QUEUE_SIZE = 32"
definition BUS_MESSAGE_SIZE :: u64 where "BUS_MESSAGE_SIZE = 128"
definition MSG_BUFF_SIZE :: u64 where "MSG_BUFF_SIZE = 4096"
definition CHAT_NAME_SIZE :: u64 where "CHAT_NAME_SIZE = 32"
definition CHAT_ID_BUFF_SIZE :: u64 where "CHAT_ID_BUFF_SIZE = 64"

record chat_dev =
  chat_name :: string
  chat_buffer :: string
  chat_buf_len :: u64
  chat_id :: string

record bus_message =
  payload :: string
  msg_len :: u64

record tg_bus_dev =
  bus_queue :: "bus_message list"
  bus_count :: u64
  bus_head :: u64
  bus_tail :: u64

subsection \<open>The bus (bus.c)\<close>

text \<open>\<open>"OUT|%d|%.*s\n"\<close>, with the length converted to \<open>int\<close>.\<close>

definition out_line :: "int \<Rightarrow> string \<Rightarrow> u64 \<Rightarrow> string" where
  "out_line chat_idx msg len =
     ''OUT|'' @ dec_int chat_idx @ ''|'' @ prec_str (int_of_size len) msg @ [NEWLINE]"

definition bus_enqueue_outgoing :: "tg_bus_dev \<Rightarrow> int \<Rightarrow> string \<Rightarrow> u64 \<Rightarrow> tg_bus_dev" where
  "bus_enqueue_outgoing bus chat_idx msg len =
     (if BUS_QUEUE_SIZE \<le> bus_count bus then bus
      else
        let bm = bus_queue bus ! unat (bus_tail bus);
            (p, n) = scnprintf (payload bm) 0 BUS_MESSAGE_SIZE (out_line chat_idx msg len)
        in bus\<lparr>bus_queue := (bus_queue bus)[unat (bus_tail bus) := \<lparr>payload = p, msg_len = n\<rparr>],
               bus_tail := (bus_tail bus + 1) mod BUS_QUEUE_SIZE,
               bus_count := bus_count bus + 1\<rparr>)"

text \<open>
  The loop of \<open>bus_read\<close> that waits for a message. The second argument is the bus at the time
  the mutex is taken, and the list says how the sleeps end.
\<close>

fun bus_wait :: "bool \<Rightarrow> tg_bus_dev \<Rightarrow> tg_bus_dev wake list \<Rightarrow> unit outcome \<times> tg_bus_dev" where
  "bus_wait nonblock bus wakes =
     (if bus_count bus \<noteq> 0 then (Done (), bus)
      else if nonblock then (Fail EAGAIN, bus)
      else case wakes of
             [] \<Rightarrow> (Asleep, bus)
           | Interrupted # _ \<Rightarrow> (Fail ERESTARTSYS, bus)
           | Woken bus' # rest \<Rightarrow> bus_wait nonblock bus' rest)"

declare bus_wait.simps [simp del]

definition bus_take :: "u64 \<Rightarrow> bool \<Rightarrow> tg_bus_dev \<Rightarrow> string outcome \<times> tg_bus_dev" where
  "bus_take count fault bus =
     (let bm = bus_queue bus ! unat (bus_head bus) in
      if count < msg_len bm then (Fail EMSGSIZE, bus)
      else if fault then (Fail EFAULT, bus)
      else (Done (take (unat (msg_len bm)) (payload bm)),
            bus\<lparr>bus_head := (bus_head bus + 1) mod BUS_QUEUE_SIZE, bus_count := bus_count bus - 1\<rparr>))"

definition bus_read ::
  "bool \<Rightarrow> u64 \<Rightarrow> bool \<Rightarrow> tg_bus_dev wake list \<Rightarrow> tg_bus_dev \<Rightarrow> string outcome \<times> tg_bus_dev" where
  "bus_read nonblock count fault wakes bus =
     (case bus_wait nonblock bus wakes of
        (Done _, b) \<Rightarrow> bus_take count fault b
      | (Fail e, b) \<Rightarrow> (Fail e, b)
      | (Asleep, b) \<Rightarrow> (Asleep, b))"

text \<open>
  \<open>bus_write\<close>: the text \<open>scnprintf\<close> appends to the buffer of a chat and the new \<open>buf_len\<close>, as
  \<open>chat_write\<close> below appends them too.
\<close>

definition chat_append :: "chat_dev \<Rightarrow> string \<Rightarrow> chat_dev" where
  "chat_append chat text =
     (let (b, n) = scnprintf (chat_buffer chat) (chat_buf_len chat) (MSG_BUFF_SIZE - chat_buf_len chat) text
      in chat\<lparr>chat_buffer := b, chat_buf_len := chat_buf_len chat + n\<rparr>)"

definition bus_write ::
  "(string \<Rightarrow> int option) \<Rightarrow> string \<Rightarrow> u64 \<Rightarrow> bool \<Rightarrow> chat_dev list \<Rightarrow> (errno + u64) \<times> chat_dev list" where
  "bus_write kstrtoint ubuf count fault chats =
     (if BUS_MESSAGE_SIZE \<le> count then (Inl EINVAL, chats)
      else if fault then (Inl EFAULT, chats)
      else
        let tmp = cstr (take (unat count) ubuf);
            (cmd, p) = strsep (Some tmp) (CHR ''|'');
            (idx_str, p) = strsep p (CHR ''|'')
        in case (cmd, idx_str) of
             (Some cmd, Some idx_str) \<Rightarrow>
               (case kstrtoint idx_str of
                  None \<Rightarrow> (Inl EINVAL, chats)
                | Some chat_idx \<Rightarrow>
                    if chat_idx < 0 \<or> int MAX_CHATS \<le> chat_idx then (Inl EINVAL, chats)
                    else
                      let i = nat chat_idx; chat = chats ! i in
                      if cmd = ''IN'' then
                        (case strsep p (CHR ''|'') of
                           (Some arg1, Some arg2) \<Rightarrow>
                             (Inr count, chats[i := chat_append chat (''['' @ arg1 @ ''] '' @ arg2 @ [NEWLINE])])
                         | _ \<Rightarrow> (Inl EINVAL, chats))
                      else if cmd = ''SET'' then
                        (case p of
                           None \<Rightarrow> (Inl EINVAL, chats)
                         | Some arg1 \<Rightarrow>
                             (Inr count, chats[i := chat\<lparr>chat_id := strscpy (chat_id chat) arg1 CHAT_ID_BUFF_SIZE\<rparr>]))
                      else (Inl EINVAL, chats))
           | _ \<Rightarrow> (Inl EINVAL, chats))"

definition EPOLLIN :: u32 where "EPOLLIN = 0x1"
definition EPOLLOUT :: u32 where "EPOLLOUT = 0x4"
definition EPOLLRDNORM :: u32 where "EPOLLRDNORM = 0x40"
definition EPOLLWRNORM :: u32 where "EPOLLWRNORM = 0x100"

definition bus_poll :: "tg_bus_dev \<Rightarrow> u32" where
  "bus_poll bus =
     (let mask = EPOLLOUT OR EPOLLWRNORM in
      if 0 < bus_count bus then mask OR (EPOLLIN OR EPOLLRDNORM) else mask)"

subsection \<open>The chats (chat.c)\<close>

text \<open>\<open>*ppos >= chat->buf_len\<close> compares as unsigned 64-bit numbers.\<close>

fun chat_wait :: "bool \<Rightarrow> u64 \<Rightarrow> chat_dev \<Rightarrow> chat_dev wake list \<Rightarrow> unit outcome \<times> chat_dev" where
  "chat_wait nonblock ppos chat wakes =
     (if ppos < chat_buf_len chat then (Done (), chat)
      else if nonblock then (Fail EAGAIN, chat)
      else case wakes of
             [] \<Rightarrow> (Asleep, chat)
           | Interrupted # _ \<Rightarrow> (Fail ERESTARTSYS, chat)
           | Woken chat' # rest \<Rightarrow> chat_wait nonblock ppos chat' rest)"

declare chat_wait.simps [simp del]

text \<open>The result is the bytes copied to the user, and the new position.\<close>

definition chat_read ::
  "bool \<Rightarrow> u64 \<Rightarrow> bool \<Rightarrow> u64 \<Rightarrow> chat_dev wake list \<Rightarrow> chat_dev \<Rightarrow> string outcome \<times> u64" where
  "chat_read nonblock count fault ppos wakes chat =
     (case chat_wait nonblock ppos chat wakes of
        (Done _, c) \<Rightarrow>
          let n = min count (chat_buf_len c - ppos) in
          if fault then (Fail EFAULT, ppos)
          else (Done (take (unat n) (drop (unat ppos) (chat_buffer c))), ppos + n)
      | (Fail e, _) \<Rightarrow> (Fail e, ppos)
      | (Asleep, _) \<Rightarrow> (Asleep, ppos))"

definition chat_write ::
  "nat \<Rightarrow> string \<Rightarrow> u64 \<Rightarrow> bool \<Rightarrow> chat_dev list \<times> tg_bus_dev \<Rightarrow> (errno + u64) \<times> chat_dev list \<times> tg_bus_dev" where
  "chat_write i ubuf count fault s =
     (case s of (chats, bus) \<Rightarrow>
        if MSG_BUFF_SIZE \<le> count then (Inl EINVAL, chats, bus)
        else if fault then (Inl EFAULT, chats, bus)
        else
          let tmp = take (unat count) ubuf @ [NUL] in
          (Inr count, chats[i := chat_append (chats ! i) (''[User] '' @ cstr tmp @ [NEWLINE])],
           bus_enqueue_outgoing bus (int i) tmp count))"

definition chat_poll :: "u64 \<Rightarrow> chat_dev \<Rightarrow> u32" where
  "chat_poll f_pos chat =
     (let mask = EPOLLOUT OR EPOLLWRNORM in
      if f_pos < chat_buf_len chat then mask OR (EPOLLIN OR EPOLLRDNORM) else mask)"

subsection \<open>Loading and unloading (main.c)\<close>

datatype tg_resource =
    Chats_region | Class | Chat_lock nat | Chat_cdev nat | Chat_device nat
  | Bus_lock | Bus_region | Bus_cdev | Bus_device

text \<open>The mode is octal 666.\<close>

definition telegram_devnode :: "u32 option \<Rightarrow> u32 option" where
  "telegram_devnode mode = map_option (\<lambda>_. 0x1B6) mode"

text \<open>
  What the calls of the kernel return: an error number, or success. The results of \<open>cdev_add\<close> and
  \<open>device_create\<close> for the chats and of \<open>device_create\<close> for the bus are not looked at.
\<close>

record tg_kernel =
  chats_region_ret :: "errno option"
  class_create_ret :: "errno option"
  chat_cdev_ret :: "nat \<Rightarrow> errno option"
  chat_device_ret :: "nat \<Rightarrow> errno option"
  bus_region_ret :: "errno option"
  bus_cdev_ret :: "errno option"
  bus_device_ret :: "errno option"

text \<open>What a call acquires when it succeeds.\<close>

definition attempt :: "errno option \<Rightarrow> tg_resource \<Rightarrow> tg_resource event list" where
  "attempt ret r = (case ret of None \<Rightarrow> [Acquire r] | Some _ \<Rightarrow> [])"

text \<open>One pass of the loop over the chats; \<open>snprintf\<close> writes \<open>"chat_%d"\<close>.\<close>

definition init_chat :: "nat \<Rightarrow> chat_dev \<Rightarrow> chat_dev" where
  "init_chat i chat =
     chat\<lparr>chat_name := fst (scnprintf (chat_name chat) 0 CHAT_NAME_SIZE (''chat_'' @ dec_int (int i + 1))),
          chat_buf_len := 0\<rparr>"

definition init_chat_events :: "tg_kernel \<Rightarrow> nat \<Rightarrow> tg_resource event list" where
  "init_chat_events k i =
     Acquire (Chat_lock i) # attempt (chat_cdev_ret k i) (Chat_cdev i) @ attempt (chat_device_ret k i) (Chat_device i)"

definition exit_chat_events :: "nat \<Rightarrow> tg_resource event list" where
  "exit_chat_events i = [Release (Chat_device i), Release (Chat_cdev i)]"

definition unwind_events :: "tg_resource event list" where
  "unwind_events = concat (map exit_chat_events [0..<MAX_CHATS]) @ [Release Class, Release Chats_region]"

definition telegram_init ::
  "tg_kernel \<Rightarrow> chat_dev list \<Rightarrow> errno option \<times> chat_dev list \<times> tg_resource event list" where
  "telegram_init k chats =
     (case chats_region_ret k of
        Some e \<Rightarrow> (Some e, chats, [])
      | None \<Rightarrow>
          let es = [Acquire Chats_region] in
          case class_create_ret k of
            Some e \<Rightarrow> (Some e, chats, es @ [Release Chats_region])
          | None \<Rightarrow>
              let es = es @ [Acquire Class] @ concat (map (init_chat_events k) [0..<MAX_CHATS])
                         @ [Acquire Bus_lock];
                  chats = map (\<lambda>i. init_chat i (chats ! i)) [0..<MAX_CHATS]
              in case bus_region_ret k of
                   Some e \<Rightarrow> (Some e, chats, es @ unwind_events)
                 | None \<Rightarrow>
                     let es = es @ [Acquire Bus_region] in
                     case bus_cdev_ret k of
                       Some e \<Rightarrow> (Some e, chats, es @ [Release Bus_region] @ unwind_events)
                     | None \<Rightarrow> (None, chats, es @ [Acquire Bus_cdev] @ attempt (bus_device_ret k) Bus_device))"

definition telegram_exit :: "tg_resource event list" where
  "telegram_exit = [Release Bus_device, Release Bus_cdev, Release Bus_region] @ unwind_events"

end
