(* ===== verification/Telegram_Bus.thy ===== *)
theory Telegram_Bus
  imports Telegram
begin

section \<open>The bus is a bounded queue\<close>

text \<open>
  The ring buffer of the bus implements a queue of lines with room for 32. The interface is a
  locale: what \<open>put\<close> and \<open>get\<close> do to the list of the lines queued. Whatever is put in and taken
  out, the lines taken out, followed by those still queued, are the lines accepted, in order.
\<close>

subsection \<open>The interface\<close>

text \<open>
  \<open>ok r a\<close> says that the request \<open>r\<close> is one that can take the item \<open>a\<close>; a request that
  cannot leaves the queue as it is.
\<close>

datatype ('x, 'r) queue_op = Put 'x | Take 'r

locale bounded_fifo =
  fixes wf :: "'s \<Rightarrow> bool" and items :: "'s \<Rightarrow> 'a list" and cap :: nat and enc :: "'x \<Rightarrow> 'a"
    and put :: "'s \<Rightarrow> 'x \<Rightarrow> 's" and ok :: "'r \<Rightarrow> 'a \<Rightarrow> bool" and get :: "'s \<Rightarrow> 'r \<Rightarrow> ('a \<times> 's) option"
  assumes items_bounded: "wf s \<Longrightarrow> length (items s) \<le> cap"
    and put_wf: "wf s \<Longrightarrow> wf (put s x)"
    and put_items: "wf s \<Longrightarrow> items (put s x) = (if length (items s) < cap then items s @ [enc x] else items s)"
    and get_empty: "wf s \<Longrightarrow> items s = [] \<Longrightarrow> get s r = None"
    and get_refused: "wf s \<Longrightarrow> items s = a # as \<Longrightarrow> \<not> ok r a \<Longrightarrow> get s r = None"
    and get_items: "wf s \<Longrightarrow> items s = a # as \<Longrightarrow> ok r a \<Longrightarrow> \<exists>s'. get s r = Some (a, s') \<and> wf s' \<and> items s' = as"
begin

text \<open>The state after an operation, what it accepted and what it delivered.\<close>

fun step :: "'s \<Rightarrow> ('x, 'r) queue_op \<Rightarrow> 's \<times> 'a list \<times> 'a list" where
  "step s (Put x) = (put s x, if length (items s) < cap then [enc x] else [], [])"
| "step s (Take r) = (case get s r of None \<Rightarrow> (s, [], []) | Some (a, s') \<Rightarrow> (s', [], [a]))"

fun run :: "'s \<Rightarrow> ('x, 'r) queue_op list \<Rightarrow> 's \<times> 'a list \<times> 'a list" where
  "run s [] = (s, [], [])"
| "run s (x # xs) = (case step s x of (s, acc, out) \<Rightarrow>
     case run s xs of (s, acc', out') \<Rightarrow> (s, acc @ acc', out @ out'))"

lemma step_fifo:
  assumes "wf s" "step s x = (s', acc, out)"
  shows "wf s' \<and> items s @ acc = out @ items s'"
proof (cases x)
  case (Put y)
  then show ?thesis using assms by (auto simp: put_wf put_items split: if_splits)
next
  case (Take r)
  show ?thesis
  proof (cases "items s")
    case Nil
    then show ?thesis using assms get_empty [of s r] Take by simp
  next
    case (Cons a as)
    then show ?thesis
      using assms get_refused [of s a as r] get_items [of s a as r] Take by (cases "ok r a") auto
  qed
qed

lemma run_fifo:
  "wf s \<Longrightarrow> run s xs = (s', acc, out) \<Longrightarrow> wf s' \<and> items s @ acc = out @ items s'"
proof (induction xs arbitrary: s s' acc out)
  case Nil
  then show ?case by simp
next
  case (Cons x xs)
  obtain s1 acc1 out1 where 1: "step s x = (s1, acc1, out1)" by (metis prod_cases3)
  obtain s2 acc2 out2 where 2: "run s1 xs = (s2, acc2, out2)" by (metis prod_cases3)
  have "wf s1" "items s @ acc1 = out1 @ items s1" using step_fifo [OF Cons.prems(1) 1] by auto
  moreover from this have "wf s2" "items s1 @ acc2 = out2 @ items s2" using Cons.IH [OF _ 2] by auto
  ultimately have "wf s2" "items s @ acc1 @ acc2 = out1 @ out2 @ items s2" by (metis append_assoc)+
  then show ?case using Cons.prems(2) 1 2 by simp
qed

end

subsection \<open>The bus implements it\<close>

definition message :: "bus_message \<Rightarrow> string" where
  "message bm = take (unat (msg_len bm)) (payload bm)"

definition bus_slot :: "tg_bus_dev \<Rightarrow> nat \<Rightarrow> nat" where
  "bus_slot bus i = (unat (bus_head bus) + i) mod 32"

text \<open>The lines queued, from the head on.\<close>

definition bus_items :: "tg_bus_dev \<Rightarrow> string list" where
  "bus_items bus = map (\<lambda>i. message (bus_queue bus ! bus_slot bus i)) [0..<unat (bus_count bus)]"

definition bus_wf :: "tg_bus_dev \<Rightarrow> bool" where
  "bus_wf bus \<longleftrightarrow> length (bus_queue bus) = 32 \<and> unat (bus_count bus) \<le> 32
     \<and> unat (bus_head bus) < 32 \<and> unat (bus_tail bus) = bus_slot bus (unat (bus_count bus))
     \<and> (\<forall>bm\<in>set (bus_queue bus). length (payload bm) = 128 \<and> unat (msg_len bm) < 128)"

text \<open>What is queued for a message: the line, cut to the 127 bytes that fit.\<close>

definition queued_line :: "nat \<times> string \<times> u64 \<Rightarrow> string" where
  "queued_line m = (case m of (i, msg, len) \<Rightarrow> take 127 (out_line (int i) msg len))"

definition bus_put :: "tg_bus_dev \<Rightarrow> nat \<times> string \<times> u64 \<Rightarrow> tg_bus_dev" where
  "bus_put bus m = (case m of (i, msg, len) \<Rightarrow> bus_enqueue_outgoing bus (int i) msg len)"

text \<open>A read that is not woken up: whether it may sleep, the room it has and whether copying fails.\<close>

definition read_ok :: "bool \<times> u64 \<times> bool \<Rightarrow> string \<Rightarrow> bool" where
  "read_ok r line = (case r of (nonblock, count, fault) \<Rightarrow> length line \<le> unat count \<and> \<not> fault)"

definition bus_get :: "tg_bus_dev \<Rightarrow> bool \<times> u64 \<times> bool \<Rightarrow> (string \<times> tg_bus_dev) option" where
  "bus_get bus r = (case r of (nonblock, count, fault) \<Rightarrow>
     case bus_read nonblock count fault [] bus of (Done line, bus') \<Rightarrow> Some (line, bus') | _ \<Rightarrow> None)"

lemma unat_next_slot:
  assumes "unat (i :: u64) < 32"
  shows "unat ((i + 1) mod 32) = (unat i + 1) mod 32"
proof -
  have "unat (i + 1) = unat i + 1" using assms by (intro unat_add_one) simp
  then show ?thesis by (simp add: unat_mod)
qed

lemma bus_slot_less [simp]: "bus_slot bus i < 32"
  by (simp add: bus_slot_def)

lemma mod_32: "a < 64 \<Longrightarrow> a mod 32 = (if a < 32 then a else a - (32 :: nat))"
  by (simp add: le_mod_geq)

lemma bus_slot_inj:
  assumes "bus_slot bus i = bus_slot bus j" "i < 32" "j < 32" "unat (bus_head bus) < 32"
  shows "i = j"
  using assms by (simp add: bus_slot_def mod_32 split: if_splits)

lemma bus_enqueue_wf:
  assumes "bus_wf bus" "unat (bus_count bus) < 32"
  shows "bus_wf (bus_enqueue_outgoing bus i msg len)
    \<and> bus_items (bus_enqueue_outgoing bus i msg len) = bus_items bus @ [take 127 (out_line i msg len)]"
proof -
  let ?t = "unat (bus_tail bus)" and ?c = "unat (bus_count bus)"
  let ?bm = "bus_queue bus ! ?t" and ?line = "out_line i msg len"
  have W: "length (bus_queue bus) = 32" "unat (bus_head bus) < 32" "?t = bus_slot bus ?c"
    "\<And>bm. bm \<in> set (bus_queue bus) \<Longrightarrow> length (payload bm) = 128 \<and> unat (msg_len bm) < 128"
    using assms(1) by (auto simp: bus_wf_def)
  have t: "?t < 32" using W(3) by simp
  then have pl: "length (payload ?bm) = 128" using W(1,4) by simp
  obtain p n where pn: "scnprintf (payload ?bm) 0 BUS_MESSAGE_SIZE ?line = (p, n)" by fastforce
  have P: "unat n = min (length ?line) 127" "length p = 128" "take (unat n) p = take 127 ?line"
    using scnprintf_bytes [OF pn] pl by (auto simp: BUS_MESSAGE_SIZE_def)
  define bus' where "bus' = bus_enqueue_outgoing bus i msg len"
  have b': "bus' = bus\<lparr>bus_queue := (bus_queue bus)[?t := \<lparr>payload = p, msg_len = n\<rparr>],
      bus_tail := (bus_tail bus + 1) mod 32, bus_count := bus_count bus + 1\<rparr>"
    using assms(2) pn
    by (simp add: bus'_def bus_enqueue_outgoing_def Let_def BUS_QUEUE_SIZE_def word_le_nat_alt)
  have c': "unat (bus_count bus') = ?c + 1"
    unfolding b' using assms(2) by (simp add: unat_add_one)
  have slot: "bus_slot bus' j = bus_slot bus j" for j unfolding b' by (simp add: bus_slot_def)
  have "unat (bus_tail bus') = (?t + 1) mod 32" unfolding b' using unat_next_slot [OF t] by simp
  also have "\<dots> = bus_slot bus (?c + 1)" unfolding W(3) bus_slot_def by presburger
  finally have t': "unat (bus_tail bus') = bus_slot bus' (unat (bus_count bus'))"
    unfolding slot c' by simp
  have "length (payload bm) = 128 \<and> unat (msg_len bm) < 128" if "bm \<in> set (bus_queue bus')" for bm
    using that W(4) P(1,2) set_update_subset_insert [of "bus_queue bus"] unfolding b' by fastforce
  moreover have "length (bus_queue bus') = 32" "unat (bus_head bus') < 32" unfolding b' using W(1,2) by simp_all
  ultimately have "bus_wf bus'"
    unfolding bus_wf_def using t' c' assms(2) by simp
  moreover have "bus_items bus' = bus_items bus @ [take 127 ?line]"
  proof -
    have "message (bus_queue bus' ! bus_slot bus j) = message (bus_queue bus ! bus_slot bus j)" if "j < ?c" for j
    proof -
      have "?t \<noteq> bus_slot bus j" using bus_slot_inj [of bus j ?c] that assms(2) W(2,3) by auto
      then show ?thesis unfolding b' by simp
    qed
    moreover have "message (bus_queue bus' ! bus_slot bus ?c) = take 127 ?line"
      using P(3) W(1,3) t unfolding b' by (simp add: message_def)
    ultimately show ?thesis unfolding bus_items_def c' slot by simp
  qed
  ultimately show ?thesis by (simp add: bus'_def)
qed

lemma bus_enqueue_full:
  "32 \<le> unat (bus_count bus) \<Longrightarrow> bus_enqueue_outgoing bus i msg len = bus"
  by (simp add: bus_enqueue_outgoing_def BUS_QUEUE_SIZE_def word_le_nat_alt)

lemma length_bus_items [simp]: "length (bus_items bus) = unat (bus_count bus)"
  by (simp add: bus_items_def)

lemma bus_take_wf:
  assumes "bus_wf bus" "bus_items bus = line # rest"
  shows "\<exists>bus'. bus_wf bus' \<and> bus_items bus' = rest
    \<and> bus_take count fault bus =
        (if unat count < length line then (Fail EMSGSIZE, bus)
         else if fault then (Fail EFAULT, bus) else (Done line, bus'))"
proof -
  let ?h = "unat (bus_head bus)" and ?c = "unat (bus_count bus)"
  have c: "?c = Suc (length rest)" using assms(2) length_bus_items [of bus] by simp
  have W: "length (bus_queue bus) = 32" "?h < 32" "unat (bus_tail bus) = bus_slot bus ?c" "?c \<le> 32"
    "\<And>bm. bm \<in> set (bus_queue bus) \<Longrightarrow> length (payload bm) = 128 \<and> unat (msg_len bm) < 128"
    using assms(1) by (auto simp: bus_wf_def)
  have line: "line = message (bus_queue bus ! ?h)" "rest = map (\<lambda>i. message (bus_queue bus ! bus_slot bus (Suc i))) [0..<length rest]"
  proof -
    have "bus_items bus = message (bus_queue bus ! bus_slot bus 0)
        # map (\<lambda>i. message (bus_queue bus ! bus_slot bus (Suc i))) [0..<length rest]"
      unfolding bus_items_def c by (simp add: upt_conv_Cons map_Suc_upt [symmetric] del: upt_Suc)
    then show "line = message (bus_queue bus ! ?h)"
      "rest = map (\<lambda>i. message (bus_queue bus ! bus_slot bus (Suc i))) [0..<length rest]"
      using assms(2) W(2) by (simp_all add: bus_slot_def)
  qed
  define bus' where "bus' = bus\<lparr>bus_head := (bus_head bus + 1) mod 32, bus_count := bus_count bus - 1\<rparr>"
  have hm: "bus_queue bus ! ?h \<in> set (bus_queue bus)" using W(1,2) by simp
  then have "length line = unat (msg_len (bus_queue bus ! ?h))"
    using W(5) [OF hm] by (simp add: line(1) message_def)
  then have t: "bus_take count fault bus =
      (if unat count < length line then (Fail EMSGSIZE, bus)
       else if fault then (Fail EFAULT, bus) else (Done line, bus'))"
    by (simp add: bus_take_def Let_def line(1) message_def bus'_def BUS_QUEUE_SIZE_def word_less_nat_alt)
  have c': "unat (bus_count bus') = length rest"
    using c by (simp add: bus'_def unat_minus_one unat_gt_0 flip: unat_eq_0)
  have slot: "bus_slot bus' j = bus_slot bus (Suc j)" for j
    using unat_next_slot [OF W(2)] by (simp add: bus'_def bus_slot_def) presburger
  have "bus_wf bus'"
    unfolding bus_wf_def c' slot using W c unat_next_slot [OF W(2)] by (auto simp: bus'_def)
  moreover have "bus_items bus' = rest"
    unfolding bus_items_def c' slot by (subst (2) line(2)) (simp add: bus'_def)
  ultimately show ?thesis using t by blast
qed

lemma bus_read_now:
  "bus_read nonblock count fault wakes bus =
     (if bus_items bus \<noteq> [] then bus_take count fault bus
      else if nonblock then (Fail EAGAIN, bus)
      else case wakes of
             [] \<Rightarrow> (Asleep, bus)
           | Interrupted # _ \<Rightarrow> (Fail ERESTARTSYS, bus)
           | Woken bus' # rest \<Rightarrow> bus_read nonblock count fault rest bus')"
proof -
  have "bus_items bus = [] \<longleftrightarrow> bus_count bus = 0" by (simp add: bus_items_def unat_eq_0)
  then show ?thesis
    by (simp add: bus_read_def bus_wait.simps [of nonblock bus] split: list.splits wake.splits)
qed

interpretation bus: bounded_fifo bus_wf bus_items 32 queued_line bus_put read_ok bus_get
proof
  fix bus :: tg_bus_dev and m :: "nat \<times> string \<times> u64"
  assume wf: "bus_wf bus"
  then show "length (bus_items bus) \<le> 32" by (simp add: bus_wf_def)
  obtain i msg len where m: "m = (i, msg, len)" by (metis prod_cases3)
  show "bus_wf (bus_put bus m)"
    using bus_enqueue_wf [OF wf] bus_enqueue_full [of bus] wf
    by (cases "unat (bus_count bus) < 32") (simp_all add: bus_put_def m)
  show "bus_items (bus_put bus m) = (if length (bus_items bus) < 32 then bus_items bus @ [queued_line m] else bus_items bus)"
    using bus_enqueue_wf [OF wf] bus_enqueue_full [of bus]
    by (simp add: bus_put_def queued_line_def m)
next
  fix bus r assume "bus_wf bus" "bus_items bus = []"
  then show "bus_get bus r = None"
    by (cases r) (simp add: bus_get_def bus_read_now [of _ _ _ _ bus])
next
  fix bus line rest r assume *: "bus_wf bus" "bus_items bus = line # rest" "\<not> read_ok r line"
  then show "bus_get bus r = None"
    using bus_take_wf [OF *(1,2), of "fst (snd r)" "snd (snd r)"]
    by (cases r) (auto simp: bus_get_def bus_read_now [of _ _ _ _ bus] read_ok_def)
next
  fix bus line rest r assume *: "bus_wf bus" "bus_items bus = line # rest" "read_ok r line"
  then show "\<exists>bus'. bus_get bus r = Some (line, bus') \<and> bus_wf bus' \<and> bus_items bus' = rest"
    using bus_take_wf [OF *(1,2), of "fst (snd r)" "snd (snd r)"]
    by (cases r) (auto simp: bus_get_def bus_read_now [of _ _ _ _ bus] read_ok_def)
qed

subsection \<open>The theorems\<close>

text \<open>
  A session of the bus: messages queued by the chats and reads of the daemon, with the lines
  accepted and the lines delivered.
\<close>

fun bus_session ::
  "tg_bus_dev \<Rightarrow> (nat \<times> string \<times> u64, bool \<times> u64 \<times> bool) queue_op list
    \<Rightarrow> tg_bus_dev \<times> string list \<times> string list" where
  "bus_session b [] = (b, [], [])"
| "bus_session b (Put (i, msg, len) # ops) =
     (case bus_session (bus_enqueue_outgoing b (int i) msg len) ops of (b', acc, out) \<Rightarrow>
        (b', (if bus_count b < BUS_QUEUE_SIZE then [take 127 (out_line (int i) msg len)] else []) @ acc, out))"
| "bus_session b (Take (nonblock, count, fault) # ops) =
     (case bus_read nonblock count fault [] b of
        (Done line, b1) \<Rightarrow> (case bus_session b1 ops of (b', acc, out) \<Rightarrow> (b', acc, line # out))
      | _ \<Rightarrow> bus_session b ops)"

lemma bus_session_Put:
  "bus_session b (Put m # ops) =
     (case bus_session (bus_put b m) ops of (b', acc, out) \<Rightarrow>
        (b', (if length (bus_items b) < 32 then [queued_line m] else []) @ acc, out))"
  by (cases m) (simp add: bus_put_def queued_line_def BUS_QUEUE_SIZE_def word_less_nat_alt)

lemma bus_session_Take:
  "bus_session b (Take r # ops) =
     (case bus_get b r of
        None \<Rightarrow> bus_session b ops
      | Some (line, b1) \<Rightarrow> (case bus_session b1 ops of (b', acc, out) \<Rightarrow> (b', acc, line # out)))"
  by (cases r) (simp add: bus_get_def split: prod.splits outcome.splits)

lemma bus_session_run: "bus_session b ops = bus.run b ops"
proof (induction ops arbitrary: b)
  case (Cons x ops)
  then show ?case
    by (cases x) (auto simp only: bus_session_Put bus_session_Take bus.run.simps bus.step.simps append.simps
        split: prod.splits option.splits)+
qed simp

definition demo_bus :: tg_bus_dev where
  "demo_bus = \<lparr>bus_queue = replicate 32 \<lparr>payload = replicate 128 NUL, msg_len = 0\<rparr>,
     bus_count = 0, bus_head = 0, bus_tail = 0\<rparr>"

lemma demo_bus_wf: "bus_wf demo_bus" "bus_items demo_bus = []"
  by (simp_all add: bus_wf_def demo_bus_def bus_slot_def bus_items_def)

text \<open>
  C7: the ring buffer of the bus is a bounded queue: in every session, from a well-formed bus, the
  lines read followed by the lines still queued are the lines queued before followed by those
  accepted, each cut to 127 bytes, in order. No line is lost, duplicated or reordered, also not by a
  read that fails, and the bus stays well-formed.
\<close>

theorem bus_fifo:
  assumes "bus_wf b" "bus_session b ops = (b', accepted, delivered)"
  shows "bus_wf b' \<and> bus_items b @ accepted = delivered @ bus_items b'"
  using assms unfolding bus_session_run by (rule bus.run_fifo)

theorem bus_fifo_witness:
  "\<exists>b' acc out. bus_session demo_bus [Put (0, ''hi'', 2), Take (True, 512, False), Put (1, ''x'', 1)] = (b', acc, out)
     \<and> acc = out @ bus_items b'"
proof -
  obtain b' acc out where
    r: "bus_session demo_bus [Put (0, ''hi'', 2), Take (True, 512, False), Put (1, ''x'', 1)] = (b', acc, out)"
    by (metis prod_cases3)
  show ?thesis using bus_fifo [OF demo_bus_wf(1) r] r demo_bus_wf(2) by auto
qed

text \<open>
  What a read returns that is not woken up. On an empty bus it fails with \<open>EAGAIN\<close> when it may
  not sleep, and sleeps otherwise. Else it fails with \<open>EMSGSIZE\<close> when the oldest line does not fit,
  with \<open>EFAULT\<close> when the copy fails, and both leave the bus as it is; or it delivers exactly the
  oldest line and removes it.
\<close>

theorem bus_read_outcome:
  assumes "bus_wf b"
  shows "case bus_items b of
      [] \<Rightarrow> bus_read nonblock count fault [] b = ((if nonblock then Fail EAGAIN else Asleep), b)
    | line # rest \<Rightarrow>
        if unat count < length line then bus_read nonblock count fault [] b = (Fail EMSGSIZE, b)
        else if fault then bus_read nonblock count fault [] b = (Fail EFAULT, b)
        else \<exists>b'. bus_read nonblock count fault [] b = (Done line, b') \<and> bus_wf b' \<and> bus_items b' = rest"
proof (cases "bus_items b")
  case Nil
  then show ?thesis by (simp add: bus_read_now [of nonblock count fault "[]" b])
next
  case (Cons line rest)
  then have r: "bus_read nonblock count fault [] b = bus_take count fault b"
    by (simp add: bus_read_now [of nonblock count fault "[]" b])
  show ?thesis using bus_take_wf [OF assms Cons, of count fault] unfolding r Cons list.case by metis
qed

theorem bus_read_outcome_witness:
  "bus_read True 512 False [] demo_bus = (Fail EAGAIN, demo_bus)"
  using bus_read_outcome [OF demo_bus_wf(1), of True 512 False] demo_bus_wf(2) by simp

end
