(* ===== verification/Telegram_Props.thy ===== *)
theory Telegram_Props
  imports Telegram_Chat
begin

section \<open>The Telegram module as a whole\<close>

subsection \<open>Invariants of the system\<close>

text \<open>
  The operations of user processes that change the module's state: writes to a chat, and writes to
  and reads from the bus. The chat a process writes to is one of the ten devices.
\<close>

datatype tg_op =
    Chat_write nat string u64 bool
  | Bus_write string u64 bool
  | Bus_read bool u64 bool

fun tg_step :: "(string \<Rightarrow> int option) \<Rightarrow> chat_dev list \<times> tg_bus_dev \<Rightarrow> tg_op \<Rightarrow> chat_dev list \<times> tg_bus_dev" where
  "tg_step kstrtoint s (Chat_write i ubuf count fault) =
     (if i < MAX_CHATS then snd (chat_write i ubuf count fault s) else s)"
| "tg_step kstrtoint s (Bus_write ubuf count fault) =
     (snd (bus_write kstrtoint ubuf count fault (fst s)), snd s)"
| "tg_step kstrtoint s (Bus_read nonblock count fault) =
     (fst s, snd (bus_read nonblock count fault [] (snd s)))"

definition tg_inv :: "chat_dev list \<times> tg_bus_dev \<Rightarrow> bool" where
  "tg_inv s \<longleftrightarrow> length (fst s) = MAX_CHATS \<and> (\<forall>c\<in>set (fst s). chat_wf c) \<and> bus_wf (snd s)"

text \<open>Every chat still has the text it had, in the same place.\<close>

definition keeps_text :: "chat_dev list \<Rightarrow> chat_dev list \<Rightarrow> bool" where
  "keeps_text chats chats' \<longleftrightarrow>
     (\<forall>i<MAX_CHATS. \<exists>more. content (chats' ! i) = content (chats ! i) @ more)"

lemma keeps_text_refl [intro, simp]: "keeps_text chats chats"
  by (simp add: keeps_text_def)

lemma keeps_text_trans: "keeps_text a b \<Longrightarrow> keeps_text b c \<Longrightarrow> keeps_text a c"
  unfolding keeps_text_def by (metis append_assoc)

lemma update_chat:
  assumes "length chats = MAX_CHATS" "\<forall>c\<in>set chats. chat_wf c" "i < MAX_CHATS" "chat_wf c"
    "\<exists>more. content c = content (chats ! i) @ more"
  shows "length (chats[i := c]) = MAX_CHATS \<and> (\<forall>c\<in>set (chats[i := c]). chat_wf c) \<and> keeps_text chats (chats[i := c])"
  using assms set_update_subset_insert [of chats i c]
  by (auto simp: keeps_text_def nth_list_update)

lemma append_chat:
  assumes "length chats = MAX_CHATS" "\<forall>c\<in>set chats. chat_wf c" "i < MAX_CHATS"
  shows "length (chats[i := chat_append (chats ! i) t]) = MAX_CHATS
    \<and> (\<forall>c\<in>set (chats[i := chat_append (chats ! i) t]). chat_wf c)
    \<and> keeps_text chats (chats[i := chat_append (chats ! i) t])"
  using chat_append_wf [of "chats ! i" t] assms by (intro update_chat) auto

lemma set_chat_id:
  assumes "length chats = MAX_CHATS" "\<forall>c\<in>set chats. chat_wf c" "i < MAX_CHATS"
  shows "length (chats[i := (chats ! i)\<lparr>chat_id := strscpy (chat_id (chats ! i)) a 64\<rparr>]) = MAX_CHATS
    \<and> (\<forall>c\<in>set (chats[i := (chats ! i)\<lparr>chat_id := strscpy (chat_id (chats ! i)) a 64\<rparr>]). chat_wf c)
    \<and> keeps_text chats (chats[i := (chats ! i)\<lparr>chat_id := strscpy (chat_id (chats ! i)) a 64\<rparr>])"
proof (intro update_chat assms)
  have "chat_wf (chats ! i)" using assms by simp
  then show "chat_wf ((chats ! i)\<lparr>chat_id := strscpy (chat_id (chats ! i)) a 64\<rparr>)"
    using strscpy_id [of "chat_id (chats ! i)" a] by (simp add: chat_wf_def)
  show "\<exists>more. content ((chats ! i)\<lparr>chat_id := strscpy (chat_id (chats ! i)) a 64\<rparr>) = content (chats ! i) @ more"
    by (simp add: content_def)
qed

text \<open>What \<open>bus_write\<close> can do.\<close>

lemma bus_write_cases:
  assumes "bus_write kstrtoint ubuf count fault chats = (r, chats')"
  obtains (error) "chats' = chats" "r = Inl (if count < 128 \<and> fault then EFAULT else EINVAL)"
  | (msg) i t where "r = Inr count" "count < 128" "i < MAX_CHATS" "chats' = chats[i := chat_append (chats ! i) t]"
  | (set_id) i a where "r = Inr count" "count < 128" "i < MAX_CHATS"
      "chats' = chats[i := (chats ! i)\<lparr>chat_id := strscpy (chat_id (chats ! i)) a 64\<rparr>]"
proof -
  define P where "P r c \<longleftrightarrow> c = chats \<and> r = Inl (if count < 128 \<and> fault then EFAULT else EINVAL)
    \<or> (\<exists>i t. r = Inr count \<and> count < 128 \<and> i < MAX_CHATS \<and> c = chats[i := chat_append (chats ! i) t])
    \<or> (\<exists>i a. r = Inr count \<and> count < 128 \<and> i < MAX_CHATS
         \<and> c = chats[i := (chats ! i)\<lparr>chat_id := strscpy (chat_id (chats ! i)) a 64\<rparr>])" for r c
  have err: "P (Inl (if count < 128 \<and> fault then EFAULT else EINVAL)) chats" by (simp add: P_def)
  have msg: "P (Inr count) (chats[nat z := chat_append (chats ! nat z) t])"
    if "\<not> 128 \<le> count" "\<not> z < 0" "\<not> int MAX_CHATS \<le> z" for z t
    unfolding P_def using that by (intro disjI2 disjI1 exI [of _ "nat z"] exI [of _ t]) auto
  have set_id: "P (Inr count) (chats[nat z := (chats ! nat z)\<lparr>chat_id := strscpy (chat_id (chats ! nat z)) a 64\<rparr>])"
    if "\<not> 128 \<le> count" "\<not> z < 0" "\<not> int MAX_CHATS \<le> z" for z a
    unfolding P_def using that by (intro disjI2 exI [of _ "nat z"] exI [of _ a]) auto
  have "P r chats'"
    using assms err msg set_id
    by (auto simp: bus_write_def Let_def BUS_MESSAGE_SIZE_def CHAT_ID_BUFF_SIZE_def
        split: if_splits prod.splits option.splits)
  then show thesis using that unfolding P_def by blast
qed

lemma chat_write_eq:
  "chat_write i ubuf count fault (chats, bus) =
     (if 4096 \<le> unat count then (Inl EINVAL, chats, bus)
      else if fault then (Inl EFAULT, chats, bus)
      else (Inr count, chats[i := chat_append (chats ! i) (''[User] '' @ cstr (take (unat count) ubuf @ [NUL]) @ [NEWLINE])],
            bus_enqueue_outgoing bus (int i) (take (unat count) ubuf @ [NUL]) count))"
  by (simp add: chat_write_def Let_def MSG_BUFF_SIZE_def word_le_nat_alt)

lemma tg_step_inv:
  assumes "tg_inv s"
  shows "tg_inv (tg_step k s x) \<and> keeps_text (fst s) (fst (tg_step k s x))"
proof -
  obtain chats bus where s: "s = (chats, bus)" by fastforce
  have I: "length chats = MAX_CHATS" "\<forall>c\<in>set chats. chat_wf c" "bus_wf bus"
    using assms by (auto simp: tg_inv_def s)
  show ?thesis
  proof (cases x)
    case (Chat_write i ubuf count fault)
    have "bus_wf (bus_enqueue_outgoing bus (int i) (take (unat count) ubuf @ [NUL]) count)"
      using bus.put_wf [OF I(3), of "(i, take (unat count) ubuf @ [NUL], count)"] by (simp add: bus_put_def)
    then show ?thesis
      using append_chat [OF I(1,2), of i] I by (simp add: Chat_write s chat_write_eq tg_inv_def)
  next
    case (Bus_write ubuf count fault)
    obtain r chats' where w: "bus_write k ubuf count fault chats = (r, chats')" by fastforce
    show ?thesis
      using w
    proof (cases rule: bus_write_cases)
      case error
      then show ?thesis using I w by (simp add: Bus_write s tg_inv_def)
    next
      case (msg i t)
      then show ?thesis using I w append_chat [OF I(1,2), of i t] by (simp add: Bus_write s tg_inv_def)
    next
      case (set_id i a)
      then show ?thesis using I w set_chat_id [OF I(1,2), of i a] by (simp add: Bus_write s tg_inv_def)
    qed
  next
    case (Bus_read nonblock count fault)
    have "bus_wf (snd (bus_read nonblock count fault [] bus))"
    proof (cases "bus_items bus")
      case Nil
      then show ?thesis using I(3) by (simp add: bus_read_now [of _ _ _ _ bus])
    next
      case (Cons line rest)
      then show ?thesis
        using bus_take_wf [OF I(3) Cons, of count fault] I(3) by (auto simp: bus_read_now [of _ _ _ _ bus])
    qed
    then show ?thesis using I by (simp add: Bus_read s tg_inv_def)
  qed
qed

definition demo_chat :: chat_dev where
  "demo_chat = \<lparr>chat_name = replicate 32 NUL, chat_buffer = replicate 4096 NUL, chat_buf_len = 0,
     chat_id = replicate 64 NUL\<rparr>"

lemma demo_inv: "tg_inv (replicate 10 demo_chat, demo_bus)"
  by (simp add: tg_inv_def MAX_CHATS_def chat_wf_def demo_chat_def demo_bus_wf)

text \<open>
  C8: whatever users and the daemon write and read, in any order and with any bytes, counts and
  failing copies, and whatever \<open>kstrtoint\<close> returns, the module stays well-formed: no write leaves
  a buffer, every buffer and every Telegram id is terminated, the queue is a queue of at most 32
  messages of less than 128 bytes; and the text of every chat is only ever appended to.
\<close>

theorem telegram_invariant:
  assumes "tg_inv s"
  shows "tg_inv (foldl (tg_step kstrtoint) s ops) \<and> keeps_text (fst s) (fst (foldl (tg_step kstrtoint) s ops))"
  using assms
proof (induction ops arbitrary: s)
  case (Cons x ops)
  have "tg_inv (tg_step kstrtoint s x)" "keeps_text (fst s) (fst (tg_step kstrtoint s x))"
    using tg_step_inv [OF Cons.prems] by blast+
  with Cons.IH [OF this(1)] show ?case unfolding foldl_Cons using keeps_text_trans by blast
qed simp

theorem telegram_invariant_witness:
  "tg_inv (foldl (tg_step (\<lambda>_. Some 3)) (replicate 10 demo_chat, demo_bus)
     [Chat_write 2 ''hi'' 2 False, Bus_write ''IN|3|bob|yo'' 11 False, Bus_read True 512 False])"
  using telegram_invariant [OF demo_inv, of "\<lambda>_. Some 3"] by blast

subsection \<open>Reading a chat\<close>

text \<open>
  A process that opens a chat and reads on and on, with any counts, however much text is
  appended between its reads, has at every moment read exactly the text of the chat up to its
  position: nothing is skipped, repeated or lost, also not when a read fails.
\<close>

theorem chat_reader_stream:
  assumes "chat_wf c" "chat_session c 0 ops = (c', pos, bytes)"
  shows "bytes = take (unat pos) (content c') \<and> length bytes = unat pos \<and> (\<exists>more. content c' = content c @ more)"
  using chat_session_stream [OF assms(1) _ assms(2)] by simp

theorem chat_reader_stream_witness:
  "\<exists>c' pos bytes. chat_session demo_chat 0 [Append ''hello'', Read True 3 False, Append ''!'', Read True 9 False] = (c', pos, bytes)
     \<and> bytes = take (unat pos) (content c')"
proof -
  have wf: "chat_wf demo_chat" by (simp add: chat_wf_def demo_chat_def)
  obtain c' pos bytes where
    r: "chat_session demo_chat 0 [Append ''hello'', Read True 3 False, Append ''!'', Read True 9 False] = (c', pos, bytes)"
    by (metis prod_cases3)
  show ?thesis using chat_reader_stream [OF wf r] r by blast
qed

subsection \<open>Writing to a chat\<close>

text \<open>What \<open>chat_write\<close> makes of the bytes of the user, for the chat and for the bus.\<close>

lemma user_line:
  assumes "length ubuf = unat count" "unat count < 4096"
  shows "cstr (take (unat count) ubuf @ [NUL]) = cstr ubuf"
    and "out_line i (take (unat count) ubuf @ [NUL]) count = ''OUT|'' @ dec_int i @ ''|'' @ cstr ubuf @ [NEWLINE]"
proof -
  show c: "cstr (take (unat count) ubuf @ [NUL]) = cstr ubuf"
    using assms(1) by (simp add: cstr_def takeWhile_append takeWhile_eq_all_conv) (metis (mono_tags, lifting) takeWhile_append takeWhile_eq_all_conv self_append_conv)
  have "length (cstr ubuf) \<le> unat count" using length_cstr_le [of ubuf] assms(1) by simp
  then show "out_line i (take (unat count) ubuf @ [NUL]) count = ''OUT|'' @ dec_int i @ ''|'' @ cstr ubuf @ [NEWLINE]"
    using assms(2) by (simp add: out_line_def prec_str_def c int_of_size_small)
qed

text \<open>
  C22: a write of less than 4096 bytes returns the number of bytes written, appends \<open>[User]\<close>, the
  text up to its first zero byte and a newline to the chat, as far as there is room, changes no
  other chat, and queues the line for the daemon if the queue is not full. A chat with 4095 bytes
  is full for ever: the write still reports success, and its text appears nowhere in the chat.
\<close>

theorem chat_write_effect:
  assumes "tg_inv (chats, bus)" "i < 10" "unat count < 4096" "length ubuf = unat count"
  shows "\<exists>chats' bus'. chat_write i ubuf count False (chats, bus) = (Inr count, chats', bus')
    \<and> content (chats' ! i) = content (chats ! i)
        @ take (4095 - length (content (chats ! i))) (''[User] '' @ cstr ubuf @ [NEWLINE])
    \<and> (\<forall>j. j \<noteq> i \<longrightarrow> chats' ! j = chats ! j)
    \<and> bus_items bus' =
        (if length (bus_items bus) < 32
         then bus_items bus @ [take 127 (''OUT|'' @ dec_int (int i) @ ''|'' @ cstr ubuf @ [NEWLINE])]
         else bus_items bus)
    \<and> (length (content (chats ! i)) = 4095 \<longrightarrow> content (chats' ! i) = content (chats ! i))"
proof -
  have I: "length chats = 10" "\<forall>c\<in>set chats. chat_wf c" "bus_wf bus"
    using assms(1) by (auto simp: tg_inv_def MAX_CHATS_def)
  note c = user_line(1) [OF assms(4,3)]
  have "out_line (int i) (take (unat count) ubuf @ [NUL]) count = ''OUT|'' @ dec_int (int i) @ ''|'' @ cstr ubuf @ [NEWLINE]"
    by (rule user_line(2) [OF assms(4,3)])
  then have q: "bus_items (bus_enqueue_outgoing bus (int i) (take (unat count) ubuf @ [NUL]) count) =
      (if length (bus_items bus) < 32
       then bus_items bus @ [take 127 (''OUT|'' @ dec_int (int i) @ ''|'' @ cstr ubuf @ [NEWLINE])]
       else bus_items bus)"
    using bus.put_items [OF I(3), of "(i, take (unat count) ubuf @ [NUL], count)"]
    by (simp add: bus_put_def queued_line_def)
  have "chat_wf (chats ! i)" using I(1,2) assms(2) by simp
  note A = chat_append_wf [OF this, of "''[User] '' @ cstr ubuf @ [NEWLINE]"]
  show ?thesis
    using assms(2,3) I(1) A q by (simp add: chat_write_eq c)
qed

theorem chat_write_effect_witness:
  "\<exists>chats' bus'. chat_write 2 ''hi'' 2 False (replicate 10 demo_chat, demo_bus) = (Inr 2, chats', bus')
     \<and> content (chats' ! 2) = ''[User] hi'' @ [NEWLINE]
     \<and> bus_items bus' = [take 127 (''OUT|'' @ dec_int 2 @ ''|hi'' @ [NEWLINE])]"
proof -
  have d: "content demo_chat = []" "replicate 10 demo_chat ! 2 = demo_chat" "cstr ''hi'' = ''hi''"
    by (simp_all add: content_def demo_chat_def cstr_def NUL_def)
  then show ?thesis
    using chat_write_effect [OF demo_inv, of 2 2 "''hi''"] by (auto simp: demo_bus_wf d simp del: take_append)
qed

subsection \<open>The line for the daemon\<close>

text \<open>
  The daemon expects every read to return one line \<open>OUT|<idx>|<msg>\<close> with its newline. That
  holds for messages of up to 120 bytes only: of a longer one the first 121 bytes are queued, and
  no newline.
\<close>

theorem outgoing_line:
  assumes "i < 10" "NUL \<notin> set msg" "length msg = unat len" "unat len < 4096"
  shows "take 127 (out_line (int i) msg len) =
    (if length msg \<le> 120 then ''OUT|'' @ dec_nat i @ ''|'' @ msg @ [NEWLINE]
     else ''OUT|'' @ dec_nat i @ ''|'' @ take 121 msg)"
proof -
  have "out_line (int i) msg len = ''OUT|'' @ dec_nat i @ ''|'' @ msg @ [NEWLINE]"
    using assms by (simp add: out_line_def prec_str_def int_of_size_small cstr_id dec_int_def)
  moreover have "length (dec_nat i) = 1" using assms(1) by (rule length_dec_nat_le)
  ultimately show ?thesis by simp
qed

theorem outgoing_line_witness:
  "take 127 (out_line 3 (replicate 200 CHR ''a'') 200) = ''OUT|'' @ dec_nat 3 @ ''|'' @ replicate 121 CHR ''a''"
  using outgoing_line [of 3 "replicate 200 CHR ''a''" 200] by (simp add: NUL_def)

subsection \<open>The commands of the daemon\<close>

text \<open>
  \<open>bus_write\<close> either fails, with \<open>EFAULT\<close> exactly when the command is short enough and could
  not be copied and with \<open>EINVAL\<close> otherwise, and changes nothing; or it returns the number of bytes
  written and changes exactly one of the ten chats, by appending to its text or by setting its id.
\<close>

theorem bus_write_outcome:
  "case bus_write kstrtoint ubuf count fault chats of (r, chats') \<Rightarrow>
     (case r of
        Inl e \<Rightarrow> chats' = chats \<and> e = (if count < 128 \<and> fault then EFAULT else EINVAL)
      | Inr n \<Rightarrow> n = count \<and> count < 128 \<and>
          (\<exists>i<10. (\<exists>t. chats' = chats[i := chat_append (chats ! i) t])
             \<or> (\<exists>a. chats' = chats[i := (chats ! i)\<lparr>chat_id := strscpy (chat_id (chats ! i)) a 64\<rparr>])))"
proof -
  obtain r chats' where w: "bus_write kstrtoint ubuf count fault chats = (r, chats')" by fastforce
  show ?thesis using w by (cases rule: bus_write_cases) (auto simp: w MAX_CHATS_def)
qed

text \<open>
  C23: the commands of the daemon's \<open>bus_inject_message\<close> and \<open>bus_set_chat_id\<close>: a line
  \<open>IN|<idx>|<sender>|<text>\<close> of less than 128 bytes appends \<open>[sender] text\<close> and a newline to
  exactly the chat \<open>idx\<close>, whatever the text is, and \<open>SET|<idx>|<id>\<close> makes the first 63 bytes of
  \<open>id\<close> the Telegram id of that chat.
\<close>

theorem bus_write_commands:
  assumes "kstrtoint idx = Some (int i)" "i < 10" "CHR ''|'' \<notin> set idx" "CHR ''|'' \<notin> set sender"
    and "NUL \<notin> set idx" "NUL \<notin> set sender" "NUL \<notin> set t"
  shows "(length (''IN|'' @ idx @ ''|'' @ sender @ ''|'' @ t) = unat count \<and> unat count < 128
      \<longrightarrow> bus_write kstrtoint (''IN|'' @ idx @ ''|'' @ sender @ ''|'' @ t) count False chats =
           (Inr count, chats[i := chat_append (chats ! i) (''['' @ sender @ ''] '' @ t @ [NEWLINE])]))
    \<and> (length (''SET|'' @ idx @ ''|'' @ t) = unat count \<and> unat count < 128
      \<longrightarrow> bus_write kstrtoint (''SET|'' @ idx @ ''|'' @ t) count False chats =
           (Inr count, chats[i := (chats ! i)\<lparr>chat_id := strscpy (chat_id (chats ! i)) t 64\<rparr>]))"
proof (intro conjI impI; elim conjE)
  have s1: "strsep (Some (''IN|'' @ idx @ ''|'' @ sender @ ''|'' @ t)) (CHR ''|'') = (Some ''IN'', Some (idx @ ''|'' @ sender @ ''|'' @ t))"
    using strsep_Some [of "CHR ''|''" "''IN''"] by simp
  have s2: "strsep (Some (''SET|'' @ idx @ ''|'' @ t)) (CHR ''|'') = (Some ''SET'', Some (idx @ ''|'' @ t))"
    using strsep_Some [of "CHR ''|''" "''SET''"] by simp
  have s3: "strsep (Some (idx @ ''|'' @ r)) (CHR ''|'') = (Some idx, Some r)" for r
    using strsep_Some [OF assms(3), of r] by simp
  have s4: "strsep (Some (sender @ ''|'' @ r)) (CHR ''|'') = (Some sender, Some r)" for r
    using strsep_Some [OF assms(4), of r] by simp
  {
    assume l: "length (''IN|'' @ idx @ ''|'' @ sender @ ''|'' @ t) = unat count" "unat count < 128"
    have "cstr (take (unat count) (''IN|'' @ idx @ ''|'' @ sender @ ''|'' @ t)) = ''IN|'' @ idx @ ''|'' @ sender @ ''|'' @ t"
      unfolding l(1) [symmetric] take_all [OF order_refl] using assms(5-7) by (intro cstr_id) (auto simp: NUL_def)
    then show "bus_write kstrtoint (''IN|'' @ idx @ ''|'' @ sender @ ''|'' @ t) count False chats =
        (Inr count, chats[i := chat_append (chats ! i) (''['' @ sender @ ''] '' @ t @ [NEWLINE])])"
      unfolding bus_write_def using l(2) assms(1,2)
      by (simp only: s1 Let_def)
        (simp add: s3 [simplified] s4 [simplified] BUS_MESSAGE_SIZE_def MAX_CHATS_def word_le_nat_alt)
  next
    assume l: "length (''SET|'' @ idx @ ''|'' @ t) = unat count" "unat count < 128"
    have "cstr (take (unat count) (''SET|'' @ idx @ ''|'' @ t)) = ''SET|'' @ idx @ ''|'' @ t"
      unfolding l(1) [symmetric] take_all [OF order_refl] using assms(5-7) by (intro cstr_id) (auto simp: NUL_def)
    then show "bus_write kstrtoint (''SET|'' @ idx @ ''|'' @ t) count False chats =
        (Inr count, chats[i := (chats ! i)\<lparr>chat_id := strscpy (chat_id (chats ! i)) t 64\<rparr>])"
      unfolding bus_write_def using l(2) assms(1,2)
      by (simp only: s2 Let_def)
        (simp add: s3 [simplified] BUS_MESSAGE_SIZE_def MAX_CHATS_def CHAT_ID_BUFF_SIZE_def word_le_nat_alt)
  }
qed

theorem bus_write_commands_witness:
  "bus_write (\<lambda>s. if s = ''3'' then Some 3 else None) ''IN|3|bob|a|b'' 12 False (replicate 10 demo_chat) =
     (Inr 12, (replicate 10 demo_chat)[3 := chat_append (replicate 10 demo_chat ! 3) (''[bob] a|b'' @ [NEWLINE])])"
  using bus_write_commands [of "\<lambda>s. if s = ''3'' then Some 3 else None" "''3''" 3 "''bob''" "''a|b''" 12 "replicate 10 demo_chat"]
  by (simp add: NUL_def)

subsection \<open>Loading and unloading\<close>

definition tg_locks :: "tg_resource set" where
  "tg_locks = insert Bus_lock (Chat_lock ` {..<MAX_CHATS})"

lemma run_attempt:
  "r \<notin> H \<Longrightarrow> run_events H (attempt ret r) = Some (if ret = None then insert r H else H)"
  by (cases ret) (simp_all add: attempt_def)

text \<open>What the loop over the first \<open>n\<close> chats acquires.\<close>

definition chats_acquired :: "tg_kernel \<Rightarrow> nat \<Rightarrow> tg_resource set" where
  "chats_acquired k n = Chat_lock ` {..<n} \<union> Chat_cdev ` {i. i < n \<and> chat_cdev_ret k i = None}
     \<union> Chat_device ` {i. i < n \<and> chat_device_ret k i = None}"

lemma run_chats_init:
  "run_events {Chats_region, Class} (concat (map (init_chat_events k) [0..<n])) =
     Some ({Chats_region, Class} \<union> chats_acquired k n)"
proof (induction n)
  case (Suc n)
  let ?H = "{Chats_region, Class} \<union> chats_acquired k n"
  have "run_events ?H (init_chat_events k n) = Some ({Chats_region, Class} \<union> chats_acquired k (Suc n))"
    by (cases "chat_cdev_ret k n"; cases "chat_device_ret k n")
      (auto simp: init_chat_events_def run_events_append attempt_def chats_acquired_def less_Suc_eq)
  then show ?case using Suc by (simp add: run_events_append)
qed (simp add: chats_acquired_def)

definition tg_loaded :: "tg_kernel \<Rightarrow> tg_resource set" where
  "tg_loaded k = {Chats_region, Class, Bus_lock} \<union> chats_acquired k MAX_CHATS"

lemma tg_loaded_fresh [simp]: "Bus_region \<notin> tg_loaded k" "Bus_cdev \<notin> tg_loaded k" "Bus_device \<notin> tg_loaded k"
  by (auto simp: tg_loaded_def chats_acquired_def)

definition load_events :: "tg_kernel \<Rightarrow> tg_resource event list" where
  "load_events k = [Acquire Chats_region, Acquire Class] @ concat (map (init_chat_events k) [0..<MAX_CHATS]) @ [Acquire Bus_lock]"

lemma run_load: "run_events {} (load_events k) = Some (tg_loaded k)"
  using run_chats_init [of k MAX_CHATS]
  by (auto simp: load_events_def run_events_append insert_commute tg_loaded_def chats_acquired_def)

text \<open>All calls for the chats whose results are ignored succeed.\<close>

definition chats_created :: "tg_kernel \<Rightarrow> bool" where
  "chats_created k \<longleftrightarrow> (\<forall>i<MAX_CHATS. chat_cdev_ret k i = None \<and> chat_device_ret k i = None)"

lemma run_exit_chats:
  assumes "n \<le> MAX_CHATS"
  shows "run_events (tg_loaded k) (concat (map exit_chat_events [0..<n])) =
     (if \<forall>i<n. chat_cdev_ret k i = None \<and> chat_device_ret k i = None
      then Some (tg_loaded k - (Chat_cdev ` {..<n} \<union> Chat_device ` {..<n})) else None)"
  using assms
proof (induction n)
  case (Suc n)
  let ?H = "tg_loaded k - (Chat_cdev ` {..<n} \<union> Chat_device ` {..<n})"
  have "Chat_device n \<in> ?H \<longleftrightarrow> chat_device_ret k n = None" "Chat_cdev n \<in> ?H \<longleftrightarrow> chat_cdev_ret k n = None"
    using Suc.prems by (auto simp: tg_loaded_def chats_acquired_def)
  then have "run_events ?H (exit_chat_events n) =
      (if chat_cdev_ret k n = None \<and> chat_device_ret k n = None
       then Some (tg_loaded k - (Chat_cdev ` {..<Suc n} \<union> Chat_device ` {..<Suc n})) else None)"
    by (auto simp: exit_chat_events_def lessThan_Suc)
  then show ?case using Suc by (auto simp: run_events_append less_Suc_eq)
qed simp

lemma run_unwind:
  "run_events (tg_loaded k) unwind_events = (if chats_created k then Some tg_locks else None)"
  using run_exit_chats [of MAX_CHATS k]
  by (auto simp: unwind_events_def run_events_append chats_created_def tg_loaded_def chats_acquired_def tg_locks_def)

text \<open>The first of the four results that are looked at which is an error.\<close>

definition tg_error :: "tg_kernel \<Rightarrow> errno option" where
  "tg_error k =
     (case chats_region_ret k of Some e \<Rightarrow> Some e
      | None \<Rightarrow> (case class_create_ret k of Some e \<Rightarrow> Some e
      | None \<Rightarrow> (case bus_region_ret k of Some e \<Rightarrow> Some e | None \<Rightarrow> bus_cdev_ret k)))"

lemma telegram_init_cases:
  obtains (early) e es where "telegram_init k chats = (Some e, chats, es)" "run_events {} es = Some {}" "tg_error k = Some e"
    "chats_region_ret k \<noteq> None \<or> class_create_ret k \<noteq> None"
  | (late) e chats' es where "telegram_init k chats = (Some e, chats', es)" "tg_error k = Some e"
    "run_events {} es = (if chats_created k then Some tg_locks else None)" "chats_region_ret k = None" "class_create_ret k = None"
  | (ok) "telegram_init k chats = (None, map (\<lambda>i. init_chat i (chats ! i)) [0..<MAX_CHATS],
      load_events k @ [Acquire Bus_region, Acquire Bus_cdev] @ attempt (bus_device_ret k) Bus_device)" "tg_error k = None"
    "chats_region_ret k = None" "class_create_ret k = None"
proof (cases "tg_error k")
  case None
  then show thesis
    by (intro ok) (auto simp: tg_error_def telegram_init_def load_events_def split: option.splits)
next
  case (Some e)
  have L: "run_events {} (load_events k @ es @ unwind_events) = (if chats_created k then Some tg_locks else None)"
    if "es = [] \<or> es = [Acquire Bus_region, Release Bus_region]" for es
    using that unfolding run_events_append [of "{}"] run_load by (auto simp: run_unwind)
  show thesis
  proof (cases "chats_region_ret k = None \<and> class_create_ret k = None")
    case True
    define es where "es = (if bus_region_ret k = None then [Acquire Bus_region, Release Bus_region] else [] :: tg_resource event list)"
    have "telegram_init k chats = (Some e, map (\<lambda>i. init_chat i (chats ! i)) [0..<MAX_CHATS], load_events k @ es @ unwind_events)"
      using Some True by (auto simp: tg_error_def telegram_init_def load_events_def es_def split: option.splits)
    then show thesis using L [of es] Some True by (intro late) (auto simp: es_def)
  next
    case False
    define es where "es = (if chats_region_ret k = None then [Acquire Chats_region, Release Chats_region] else [])"
    have "telegram_init k chats = (Some e, chats, es)"
      using Some False by (auto simp: tg_error_def telegram_init_def es_def split: option.splits)
    then show thesis using Some False by (intro early) (auto simp: es_def)
  qed
qed

text \<open>
  C32: loading and unloading, whatever calls of the kernel fail. The load fails exactly with the first
  error of the four calls whose results are looked at; failures of \<open>cdev_add\<close> and
  \<open>device_create\<close> for the chats and of \<open>device_create\<close> for the bus go unnoticed. When none of
  these fails, the calls made acquire nothing twice and release only what is held, a load that fails
  gives everything back except the mutexes, which are static memory, and unloading after a load gives
  everything back; the mutex of the bus is initialised only after the chats can be opened and written
  to, which takes it. When one of them fails, the module is loaded all the same, and unloading it, or the
  unwinding of a load that fails later, releases something that has never been acquired. After a load
  the chats are empty.
\<close>

theorem telegram_load_unload:
  "case telegram_init k chats of (err, chats', es) \<Rightarrow>
     err = tg_error k
   \<and> (chats_created k \<and> bus_device_ret k = None \<or> chats_region_ret k \<noteq> None \<or> class_create_ret k \<noteq> None \<longrightarrow>
       (\<exists>H. run_events {} es = Some H
        \<and> (case err of
              Some e \<Rightarrow> H \<subseteq> tg_locks
            | None \<Rightarrow> Acquire Bus_lock \<notin> set (takeWhile (\<lambda>e. e \<noteq> Acquire (Chat_cdev 0)) es)
                \<and> (\<exists>H'. run_events H telegram_exit = Some H' \<and> H' \<subseteq> tg_locks))))
   \<and> (chats_region_ret k = None \<and> class_create_ret k = None
        \<and> (\<not> chats_created k \<or> err = None \<and> bus_device_ret k \<noteq> None) \<longrightarrow>
       run_events {} (es @ (if err = None then telegram_exit else [])) = None)
   \<and> (err = None \<longrightarrow> length chats' = 10 \<and> (\<forall>i<10. content (chats' ! i) = []))"
proof (cases rule: telegram_init_cases [of k chats])
  case ok
  let ?es = "load_events k @ [Acquire Bus_region, Acquire Bus_cdev] @ attempt (bus_device_ret k) Bus_device"
  let ?H = "insert Bus_cdev (insert Bus_region (tg_loaded k))"
  let ?H' = "if bus_device_ret k = None then insert Bus_device ?H else ?H"
  have run: "run_events {} ?es = Some ?H'"
    unfolding run_events_append [of "{}"] run_load by (simp add: run_attempt)
  have bd: "Bus_device \<in> ?H' \<longleftrightarrow> bus_device_ret k = None" by simp
  have sub: "insert Bus_device ?H - {Bus_device} - {Bus_cdev} - {Bus_region} = tg_loaded k" by auto
  have exit: "run_events ?H' telegram_exit = (if bus_device_ret k = None \<and> chats_created k then Some tg_locks else None)"
    using sub by (simp add: telegram_exit_def run_unwind)
  have lock: "Acquire Bus_lock \<notin> set (takeWhile (\<lambda>e. e \<noteq> Acquire (Chat_cdev 0)) ?es)" if "chats_created k"
  proof -
    have "[0..<MAX_CHATS] = 0 # [1..<MAX_CHATS]" by (simp add: MAX_CHATS_def upt_conv_Cons)
    then show ?thesis using that by (simp add: init_chat_events_def load_events_def attempt_def chats_created_def MAX_CHATS_def)
  qed
  have "content (map (\<lambda>i. init_chat i (chats ! i)) [0..<MAX_CHATS] ! i) = []" if "i < 10" for i
    using that by (simp add: MAX_CHATS_def init_chat_def content_def)
  moreover have "length (map (\<lambda>i. init_chat i (chats ! i)) [0..<MAX_CHATS]) = 10" by (simp add: MAX_CHATS_def)
  moreover have "run_events {} (?es @ telegram_exit) = run_events ?H' telegram_exit"
    unfolding run_events_append [of _ ?es] run by simp
  ultimately show ?thesis using run exit lock ok(2-4) unfolding ok(1) by auto
next
  case late
  then show ?thesis by (auto simp: tg_locks_def)
next
  case early
  then show ?thesis by auto
qed

text \<open>A load whose last step fails, and one in which the device of the third chat cannot be created.\<close>

definition demo_load_calls :: tg_kernel where
  "demo_load_calls = \<lparr>chats_region_ret = None, class_create_ret = None, chat_cdev_ret = (\<lambda>_. None),
     chat_device_ret = (\<lambda>_. None), bus_region_ret = None, bus_cdev_ret = None, bus_device_ret = None\<rparr>"

theorem telegram_load_unload_witness:
  "(\<exists>chats' es H. telegram_init (demo_load_calls\<lparr>bus_cdev_ret := Some ENOMEM\<rparr>) (replicate 10 demo_chat) = (Some ENOMEM, chats', es)
     \<and> run_events {} es = Some H \<and> H \<subseteq> tg_locks)
   \<and> (\<exists>chats' es. telegram_init (demo_load_calls\<lparr>chat_device_ret := (\<lambda>_. None)(2 := Some ENOMEM)\<rparr>) (replicate 10 demo_chat)
        = (None, chats', es) \<and> run_events {} (es @ telegram_exit) = None)"
proof -
  let ?k = "demo_load_calls\<lparr>bus_cdev_ret := Some ENOMEM\<rparr>"
  let ?l = "demo_load_calls\<lparr>chat_device_ret := (\<lambda>_. None)(2 := Some ENOMEM)\<rparr>"
  have k: "chats_created ?k" "bus_device_ret ?k = None" "tg_error ?k = Some ENOMEM"
    by (simp_all add: demo_load_calls_def chats_created_def tg_error_def)
  have l: "\<not> chats_created ?l" "tg_error ?l = None" "chats_region_ret ?l = None" "class_create_ret ?l = None"
    by (simp_all add: demo_load_calls_def chats_created_def tg_error_def MAX_CHATS_def)
  show ?thesis
    using telegram_load_unload [of ?k "replicate 10 demo_chat"] telegram_load_unload [of ?l "replicate 10 demo_chat"] k l
    by (cases "telegram_init ?k (replicate 10 demo_chat)"; cases "telegram_init ?l (replicate 10 demo_chat)") auto
qed

end
