(* ===== verification/Telegram_Conc.thy ===== *)
theory Telegram_Conc
  imports Telegram_Props "HOL-Library.Multiset"
begin

section \<open>Processes that write at the same time\<close>

text \<open>
  \<open>chat_write\<close> is not one step: it changes the chat under the lock of the chat, gives that lock
  back, and then changes the bus under the lock of the bus. Between the two, other processes run.
  Here the critical sections are the steps, and a write that has left the first one and not yet
  entered the second one is pending.
\<close>

subsection \<open>The critical sections\<close>

text \<open>\<open>tmp\<close> is the copy of the bytes of the user.\<close>

definition chat_store :: "nat \<Rightarrow> string \<Rightarrow> chat_dev list \<Rightarrow> chat_dev list" where
  "chat_store i tmp chats = chats[i := chat_append (chats ! i) (''[User] '' @ cstr tmp @ [NEWLINE])]"

definition chat_notify :: "nat \<Rightarrow> string \<Rightarrow> u64 \<Rightarrow> tg_bus_dev \<Rightarrow> tg_bus_dev" where
  "chat_notify i tmp n bus = bus_enqueue_outgoing bus (int i) tmp n"

lemma chat_write_sections:
  "unat n < 4096 \<Longrightarrow> chat_write i ubuf n False (chats, bus) =
     (Inr n, chat_store i (take (unat n) ubuf @ [NUL]) chats,
      chat_notify i (take (unat n) ubuf @ [NUL]) n bus)"
  by (simp add: chat_write_eq chat_store_def chat_notify_def)

text \<open>A write: the chat, the copy of the bytes, and their number.\<close>

type_synonym user_write = "nat \<times> string \<times> u64"

definition write_ok :: "user_write \<Rightarrow> bool" where
  "write_ok w \<longleftrightarrow> (case w of (i, tmp, n) \<Rightarrow> i < MAX_CHATS \<and> unat n < 4096 \<and> length tmp = Suc (unat n)
     \<and> tmp ! unat n = NUL)"

datatype tg_event =
    Store user_write
  | Notify user_write
  | Daemon_write string u64 bool
  | Daemon_read bool u64 bool

record tg_conc =
  cchats :: "chat_dev list"
  cbus :: tg_bus_dev
  pending :: "user_write multiset"

inductive tg_event_step :: "(string \<Rightarrow> int option) \<Rightarrow> tg_conc \<Rightarrow> tg_event \<Rightarrow> tg_conc \<Rightarrow> bool" for kstrtoint where
  store: "write_ok w \<Longrightarrow> w = (i, tmp, n) \<Longrightarrow> tg_event_step kstrtoint s (Store w)
     (s\<lparr>cchats := chat_store i tmp (cchats s), pending := add_mset w (pending s)\<rparr>)"
| notify: "w \<in># pending s \<Longrightarrow> w = (i, tmp, n) \<Longrightarrow> tg_event_step kstrtoint s (Notify w)
     (s\<lparr>cbus := chat_notify i tmp n (cbus s), pending := pending s - {#w#}\<rparr>)"
| daemon_write: "tg_event_step kstrtoint s (Daemon_write ubuf n fault)
     (s\<lparr>cchats := snd (bus_write kstrtoint ubuf n fault (cchats s))\<rparr>)"
| daemon_read: "tg_event_step kstrtoint s (Daemon_read nonblock n fault)
     (s\<lparr>cbus := snd (bus_read nonblock n fault [] (cbus s))\<rparr>)"

inductive_cases tg_event_stepE: "tg_event_step kstrtoint s e s'"

inductive tg_run :: "(string \<Rightarrow> int option) \<Rightarrow> tg_conc \<Rightarrow> tg_event list \<Rightarrow> tg_conc \<Rightarrow> bool" for kstrtoint where
  nil: "tg_run kstrtoint s [] s"
| snoc: "tg_run kstrtoint s es s1 \<Longrightarrow> tg_event_step kstrtoint s1 e s2 \<Longrightarrow> tg_run kstrtoint s (es @ [e]) s2"

subsection \<open>What the chats and the bus see\<close>

text \<open>The writes in the order of their first and of their second critical sections.\<close>

fun stored :: "tg_event list \<Rightarrow> user_write list" where
  "stored [] = []"
| "stored (Store w # es) = w # stored es"
| "stored (e # es) = stored es"

fun notified :: "tg_event list \<Rightarrow> user_write list" where
  "notified [] = []"
| "notified (Notify w # es) = w # notified es"
| "notified (e # es) = notified es"

lemma stored_append [simp]: "stored (xs @ ys) = stored xs @ stored ys"
  by (induction xs rule: stored.induct) auto

lemma notified_append [simp]: "notified (xs @ ys) = notified xs @ notified ys"
  by (induction xs rule: notified.induct) auto

text \<open>The effect of an event on the chats alone, and on the bus alone.\<close>

fun chats_after :: "(string \<Rightarrow> int option) \<Rightarrow> chat_dev list \<Rightarrow> tg_event \<Rightarrow> chat_dev list" where
  "chats_after k chats (Store (i, tmp, n)) = chat_store i tmp chats"
| "chats_after k chats (Daemon_write ubuf n fault) = snd (bus_write k ubuf n fault chats)"
| "chats_after k chats _ = chats"

fun bus_after :: "tg_bus_dev \<Rightarrow> tg_event \<Rightarrow> tg_bus_dev" where
  "bus_after bus (Notify (i, tmp, n)) = chat_notify i tmp n bus"
| "bus_after bus (Daemon_read nonblock n fault) = snd (bus_read nonblock n fault [] bus)"
| "bus_after bus _ = bus"

lemma event_step_eq:
  "tg_event_step k s e s' \<Longrightarrow> cchats s' = chats_after k (cchats s) e \<and> cbus s' = bus_after (cbus s) e
     \<and> mset (stored [e]) + pending s = mset (notified [e]) + pending s'"
  by (erule tg_event_stepE) auto

lemma run_eq:
  "tg_run k s es s' \<Longrightarrow> cchats s' = foldl (chats_after k) (cchats s) es \<and> cbus s' = foldl bus_after (cbus s) es
     \<and> mset (stored es) + pending s = mset (notified es) + pending s'"
proof (induction rule: tg_run.induct)
  case (snoc s es s1 e s2)
  have "mset (stored (es @ [e])) + pending s = mset (stored [e]) + (mset (stored es) + pending s)"
    by (simp add: ac_simps del: stored.simps)
  also have "\<dots> = mset (notified es) + (mset (stored [e]) + pending s1)" using snoc.IH by (simp add: ac_simps del: stored.simps)
  also have "\<dots> = mset (notified (es @ [e])) + pending s2"
    using event_step_eq [OF snoc(2)] by (simp add: ac_simps del: stored.simps notified.simps)
  finally show ?case using snoc.IH event_step_eq [OF snoc(2)] by (simp del: stored_append notified_append)
qed simp

definition conc_inv :: "tg_conc \<Rightarrow> bool" where
  "conc_inv s \<longleftrightarrow> tg_inv (cchats s, cbus s) \<and> (\<forall>w\<in>#pending s. write_ok w)"

lemma chat_store_inv:
  assumes "tg_inv (chats, bus)" "i < MAX_CHATS"
  shows "tg_inv (chat_store i tmp chats, bus) \<and> keeps_text chats (chat_store i tmp chats)"
  using assms append_chat [of chats i] by (simp add: tg_inv_def chat_store_def)

lemma chat_notify_inv: "tg_inv (chats, bus) \<Longrightarrow> tg_inv (chats, chat_notify i tmp n bus)"
  using bus.put_wf [of bus "(i, tmp, n)"] by (simp add: tg_inv_def chat_notify_def bus_put_def)

lemma event_step_inv:
  assumes "conc_inv s" "tg_event_step k s e s'"
  shows "conc_inv s' \<and> keeps_text (cchats s) (cchats s')"
  using assms(2)
proof cases
  case (store w i tmp n)
  then show ?thesis using assms(1) chat_store_inv [of "cchats s" "cbus s" i tmp]
    by (auto simp: conc_inv_def write_ok_def)
next
  case (notify w i tmp n)
  then show ?thesis using assms(1) chat_notify_inv [of "cchats s" "cbus s" i tmp n]
    by (auto simp: conc_inv_def dest: in_diffD)
next
  case (daemon_write ubuf n fault)
  then show ?thesis using assms(1) tg_step_inv [of "(cchats s, cbus s)" k "Bus_write ubuf n fault"]
    by (simp add: conc_inv_def)
next
  case (daemon_read nonblock n fault)
  then show ?thesis using assms(1) tg_step_inv [of "(cchats s, cbus s)" k "Bus_read nonblock n fault"]
    by (simp add: conc_inv_def)
qed

lemma run_inv: "tg_run k s es s' \<Longrightarrow> conc_inv s \<Longrightarrow> conc_inv s' \<and> keeps_text (cchats s) (cchats s')"
proof (induction rule: tg_run.induct)
  case (snoc s es s1 e s2)
  then show ?case using event_step_inv [OF _ snoc(2)] keeps_text_trans by blast
qed simp

subsection \<open>The text of the chats\<close>

text \<open>
  What an event adds to the text of a chat: a line of a user, or what a command of the daemon
  leaves in an empty chat.
\<close>

definition daemon_text :: "(string \<Rightarrow> int option) \<Rightarrow> nat \<Rightarrow> string \<Rightarrow> u64 \<Rightarrow> bool \<Rightarrow> string" where
  "daemon_text k i ubuf n fault = content (snd (bus_write k ubuf n fault (replicate 10 demo_chat)) ! i)"

fun chat_text :: "(string \<Rightarrow> int option) \<Rightarrow> nat \<Rightarrow> tg_event \<Rightarrow> string" where
  "chat_text k i (Store (j, tmp, n)) = (if i = j then ''[User] '' @ cstr tmp @ [NEWLINE] else [])"
| "chat_text k i (Daemon_write ubuf n fault) = daemon_text k i ubuf n fault"
| "chat_text k i _ = []"

text \<open>What a command does to the chats does not depend on what they hold.\<close>

lemma bus_write_uniform:
  "(\<forall>chats. snd (bus_write k ubuf n fault chats) = chats)
   \<or> (\<exists>i<MAX_CHATS. \<exists>t. \<forall>chats. snd (bus_write k ubuf n fault chats) = chats[i := chat_append (chats ! i) t])
   \<or> (\<exists>i<MAX_CHATS. \<exists>a. \<forall>chats. snd (bus_write k ubuf n fault chats)
        = chats[i := (chats ! i)\<lparr>chat_id := strscpy (chat_id (chats ! i)) a 64\<rparr>])"
  (is "?none \<or> _")
proof -
  obtain cmd p where 1: "strsep (Some (cstr (take (unat n) ubuf))) (CHR ''|'') = (cmd, p)" by fastforce
  obtain idx q where 2: "strsep p (CHR ''|'') = (idx, q)" by fastforce
  obtain arg1 arg2 where 3: "strsep q (CHR ''|'') = (arg1, arg2)" by fastforce
  note D = bus_write_def Let_def 1 2 3
  show ?thesis
  proof (cases "BUS_MESSAGE_SIZE \<le> n \<or> fault \<or> cmd = None \<or> idx = None")
    case True
    then have ?none by (auto simp: D split: option.splits)
    then show ?thesis ..
  next
    case False
    then obtain c x where cx: "cmd = Some c" "idx = Some x" and nf: "\<not> BUS_MESSAGE_SIZE \<le> n" "\<not> fault" by auto
    show ?thesis
    proof (cases "\<exists>z. k x = Some z \<and> 0 \<le> z \<and> z < int MAX_CHATS")
      case True
      then obtain z where z: "k x = Some z" "\<not> z < 0" "\<not> int MAX_CHATS \<le> z" by fastforce
      then have i: "nat z < MAX_CHATS" by auto
      consider (say) a b where "c = ''IN''" "arg1 = Some a" "arg2 = Some b" | (set_id) a where "c \<noteq> ''IN''" "c = ''SET''" "q = Some a"
        | (neither) "c = ''IN'' \<and> (arg1 = None \<or> arg2 = None) \<or> c \<noteq> ''IN'' \<and> (c \<noteq> ''SET'' \<or> q = None)"
        by (cases arg1; cases arg2; cases q) blast+
      then show ?thesis
      proof cases
        case say
        have "\<forall>chats. snd (bus_write k ubuf n fault chats)
            = chats[nat z := chat_append (chats ! nat z) (''['' @ a @ ''] '' @ b @ [NEWLINE])]"
          using nf z by (simp add: D cx say)
        then show ?thesis using i by blast
      next
        case set_id
        have "\<forall>chats. snd (bus_write k ubuf n fault chats)
            = chats[nat z := (chats ! nat z)\<lparr>chat_id := strscpy (chat_id (chats ! nat z)) a 64\<rparr>]"
          using nf z by (simp add: D cx set_id(2,3) CHAT_ID_BUFF_SIZE_def)
        then show ?thesis using i by blast
      next
        case neither
        then have ?none using nf z by (auto simp: D cx split: option.splits)
        then show ?thesis ..
      qed
    next
      case False
      then have "k x = None \<or> (\<exists>z. k x = Some z \<and> (z < 0 \<or> int MAX_CHATS \<le> z))" by (cases "k x") auto
      then have ?none using nf by (auto simp: D cx)
      then show ?thesis ..
    qed
  qed
qed

lemma content_full: "chat_wf c \<Longrightarrow> take 4095 (content c) = content c"
  using length_content [of c] by (simp add: chat_wf_def)

lemma demo_chat_empty: "chat_wf demo_chat" "content demo_chat = []"
  using demo_inv by (simp_all add: tg_inv_def content_def demo_chat_def)

lemma daemon_content:
  assumes "length chats = MAX_CHATS" "\<forall>c\<in>set chats. chat_wf c" "j < MAX_CHATS"
  shows "content (snd (bus_write k ubuf n fault chats) ! j) = take 4095 (content (chats ! j) @ daemon_text k j ubuf n fault)"
proof -
  have wf: "chat_wf (chats ! j)" using assms by simp
  have j: "j < 10" using assms(3) by (simp add: MAX_CHATS_def)
  have id: "content (c\<lparr>chat_id := a\<rparr>) = content c" for c a by (simp add: content_def)
  from bus_write_uniform [of k ubuf n fault] show ?thesis
  proof (elim disjE exE conjE)
    assume "\<forall>chats. snd (bus_write k ubuf n fault chats) = chats"
    then show ?thesis using j wf by (simp add: daemon_text_def demo_chat_empty(2) content_full)
  next
    fix i t assume "\<forall>chats. snd (bus_write k ubuf n fault chats) = chats[i := chat_append (chats ! i) t]"
    then show ?thesis
      using j wf assms(1)
      by (cases "j = i") (simp_all add: daemon_text_def demo_chat_empty(2) demo_chat_empty(1) content_full chat_append_simps(2)
          MAX_CHATS_def min_def)
  next
    fix i a assume "\<forall>chats. snd (bus_write k ubuf n fault chats)
        = chats[i := (chats ! i)\<lparr>chat_id := strscpy (chat_id (chats ! i)) a 64\<rparr>]"
    then show ?thesis
      using j wf assms(1)
      by (cases "j = i") (simp_all add: daemon_text_def demo_chat_empty(2) content_full id MAX_CHATS_def)
  qed
qed

lemma event_content:
  assumes "conc_inv s" "tg_event_step k s e s'" "j < MAX_CHATS"
  shows "content (cchats s' ! j) = take 4095 (content (cchats s ! j) @ chat_text k j e)"
proof -
  have I: "length (cchats s) = MAX_CHATS" "\<forall>c\<in>set (cchats s). chat_wf c" using assms(1) by (auto simp: conc_inv_def tg_inv_def)
  then have wf: "chat_wf (cchats s ! j)" using assms(3) by simp
  from assms(2) show ?thesis
  proof cases
    case (store w i tmp n)
    then show ?thesis
      using wf I(1) assms(3) by (auto simp: chat_store_def nth_list_update chat_append_simps(2) content_full)
  next
    case (daemon_write ubuf n fault)
    then show ?thesis using daemon_content [OF I assms(3)] by simp
  qed (use wf in \<open>simp_all add: content_full\<close>)
qed

lemma run_content:
  "tg_run k s es s' \<Longrightarrow> conc_inv s \<Longrightarrow> j < MAX_CHATS \<Longrightarrow>
     content (cchats s' ! j) = take 4095 (content (cchats s ! j) @ concat (map (chat_text k j) es))"
proof (induction rule: tg_run.induct)
  case (nil s)
  then show ?case using content_full [of "cchats s ! j"] by (simp add: conc_inv_def tg_inv_def)
next
  case (snoc s es s1 e s2)
  have "content (cchats s2 ! j) = take 4095 (content (cchats s1 ! j) @ chat_text k j e)"
    using run_inv [OF snoc(1)] snoc.prems by (intro event_content [OF _ snoc(2)]) auto
  then show ?case using snoc.IH snoc.prems by (simp add: min_def)
qed

subsection \<open>The queue of the bus\<close>

text \<open>
  The writes that find room in the queue when their second section runs, those whose line is dropped
  since the queue is full, and the lines the daemon gets.
\<close>

fun accepted :: "tg_bus_dev \<Rightarrow> tg_event list \<Rightarrow> user_write list" where
  "accepted bus [] = []"
| "accepted bus (Notify w # es) =
     (if length (bus_items bus) < 32 then [w] else []) @ accepted (bus_after bus (Notify w)) es"
| "accepted bus (e # es) = accepted (bus_after bus e) es"

fun dropped :: "tg_bus_dev \<Rightarrow> tg_event list \<Rightarrow> user_write list" where
  "dropped bus [] = []"
| "dropped bus (Notify w # es) =
     (if length (bus_items bus) < 32 then [] else [w]) @ dropped (bus_after bus (Notify w)) es"
| "dropped bus (e # es) = dropped (bus_after bus e) es"

fun delivered :: "tg_bus_dev \<Rightarrow> tg_event list \<Rightarrow> string list" where
  "delivered bus [] = []"
| "delivered bus (Daemon_read nonblock n fault # es) =
     (case bus_read nonblock n fault [] bus of (Done line, _) \<Rightarrow> [line] | _ \<Rightarrow> [])
       @ delivered (bus_after bus (Daemon_read nonblock n fault)) es"
| "delivered bus (e # es) = delivered (bus_after bus e) es"

lemma bus_read_queue:
  assumes "bus_wf b" "bus_read nonblock n fault [] b = (r, b')"
  shows "bus_wf b' \<and> bus_items b = (case r of Done line \<Rightarrow> [line] | _ \<Rightarrow> []) @ bus_items b'"
proof (cases "bus_items b")
  case Nil
  then show ?thesis using assms by (auto simp: bus_read_now [of _ _ _ _ b] split: if_splits)
next
  case (Cons line rest)
  then show ?thesis
    using bus_take_wf [OF assms(1) Cons, of n fault] assms by (auto simp: bus_read_now [of _ _ _ _ b] split: if_splits)
qed

lemma bus_run_queue:
  "bus_wf b \<Longrightarrow> bus_items b @ map queued_line (accepted b es) = delivered b es @ bus_items (foldl bus_after b es)
     \<and> mset (notified es) = mset (accepted b es) + mset (dropped b es)"
proof (induction es arbitrary: b)
  case (Cons e es)
  show ?case
  proof (cases e)
    case (Notify w)
    obtain i tmp n where w: "w = (i, tmp, n)" by (metis prod_cases3)
    have b: "bus_after b (Notify w) = bus_put b w" by (simp add: w chat_notify_def bus_put_def)
    have "bus_items (bus_put b w) = bus_items b @ (if length (bus_items b) < 32 then [queued_line w] else [])"
      using bus.put_items [OF Cons.prems, of w] by simp
    then show ?thesis
      using Cons.IH [OF bus.put_wf [OF Cons.prems, of w]] unfolding Notify
      by (simp only: accepted.simps dropped.simps delivered.simps notified.simps foldl_Cons b) (auto split: if_splits)
  next
    case (Daemon_read nonblock n fault)
    obtain r b' where r: "bus_read nonblock n fault [] b = (r, b')" by fastforce
    note Q = bus_read_queue [OF Cons.prems r]
    show ?thesis using Cons.IH [of b'] Q r by (auto simp: Daemon_read split: outcome.splits)
  next
    case (Store w)
    then show ?thesis using Cons by (cases w) simp
  next
    case (Daemon_write ubuf n fault)
    then show ?thesis using Cons by simp
  qed
qed simp

definition demo_conc :: tg_conc where
  "demo_conc = \<lparr>cchats = replicate 10 demo_chat, cbus = demo_bus, pending = {#}\<rparr>"

lemma demo_conc_inv: "conc_inv demo_conc"
  using demo_inv by (simp add: conc_inv_def demo_conc_def)

text \<open>
  C12: however the critical sections of any number of writers and of the daemon interleave, the module
  stays well-formed and every chat is only appended to: its text is what it was, followed by the
  lines of the users in the order of their first sections and by the messages of the daemon in their
  place, as far as there is room. The daemon has got, and the queue holds, in order, the lines queued
  before and then those of the writes whose second section found room in the queue, in the order of
  these sections. Every write whose line went to a chat is one of these exactly once, or its line was
  dropped since the queue was full, or it is still pending.
\<close>

theorem interleaving_safe:
  assumes "conc_inv s" "tg_run k s es s'"
  shows "conc_inv s' \<and> keeps_text (cchats s) (cchats s')
    \<and> (\<forall>i<10. content (cchats s' ! i) = take 4095 (content (cchats s ! i) @ concat (map (chat_text k i) es)))
    \<and> bus_items (cbus s) @ map queued_line (accepted (cbus s) es) = delivered (cbus s) es @ bus_items (cbus s')
    \<and> mset (stored es) + pending s = mset (accepted (cbus s) es) + mset (dropped (cbus s) es) + pending s'"
proof -
  have "bus_wf (cbus s)" using assms(1) by (simp add: conc_inv_def tg_inv_def)
  then show ?thesis
    using run_inv [OF assms(2,1)] run_content [OF assms(2,1)] run_eq [OF assms(2)] bus_run_queue [of "cbus s" es]
    by (simp add: MAX_CHATS_def)
qed

text \<open>Two writers, one of which overtakes the other.\<close>

definition overtaking :: "nat \<Rightarrow> string \<Rightarrow> string \<Rightarrow> tg_event list" where
  "overtaking i a b =
     (let wa = (i, a @ [NUL], of_nat (length a)); wb = (i, b @ [NUL], of_nat (length b))
      in [Store wa, Store wb, Notify wb, Notify wa])"

lemma write_ok_text: "i < 10 \<Longrightarrow> length a < 4096 \<Longrightarrow> write_ok (i, a @ [NUL], of_nat (length a))"
  by (simp add: write_ok_def MAX_CHATS_def unat_of_nat64 nth_append)

lemma overtaking_run:
  assumes "i < 10" "length a < 4096" "length b < 4096"
  shows "\<exists>s'. tg_run k s (overtaking i a b) s'"
proof -
  let ?wa = "(i, a @ [NUL], of_nat (length a)) :: user_write" and ?wb = "(i, b @ [NUL], of_nat (length b)) :: user_write"
  define s1 where "s1 = s\<lparr>cchats := chat_store i (a @ [NUL]) (cchats s), pending := add_mset ?wa (pending s)\<rparr>"
  define s2 where "s2 = s1\<lparr>cchats := chat_store i (b @ [NUL]) (cchats s1), pending := add_mset ?wb (pending s1)\<rparr>"
  define s3 where "s3 = s2\<lparr>cbus := chat_notify i (b @ [NUL]) (of_nat (length b)) (cbus s2), pending := pending s2 - {#?wb#}\<rparr>"
  define s4 where "s4 = s3\<lparr>cbus := chat_notify i (a @ [NUL]) (of_nat (length a)) (cbus s3), pending := pending s3 - {#?wa#}\<rparr>"
  have "tg_event_step k s (Store ?wa) s1" "tg_event_step k s1 (Store ?wb) s2"
    unfolding s1_def s2_def by (rule store [OF write_ok_text [OF assms(1,2)] refl], rule store [OF write_ok_text [OF assms(1,3)] refl])
  moreover have "tg_event_step k s2 (Notify ?wb) s3" "tg_event_step k s3 (Notify ?wa) s4"
    unfolding s3_def s4_def by (rule notify [OF _ refl], simp add: s1_def s2_def s3_def)+
  ultimately have "tg_run k s (((([] @ [Store ?wa]) @ [Store ?wb]) @ [Notify ?wb]) @ [Notify ?wa]) s4"
    using tg_run.snoc [OF tg_run.snoc [OF tg_run.snoc [OF tg_run.snoc [OF tg_run.nil]]]] by blast
  then show ?thesis by (auto simp: overtaking_def Let_def)
qed

theorem interleaving_safe_witness:
  "\<exists>s'. tg_run (\<lambda>_. None) demo_conc (overtaking 0 ''a'' ''b'') s' \<and> conc_inv s' \<and> pending s' = {#}
     \<and> content (cchats s' ! 0) = ''[User] a'' @ [NEWLINE] @ ''[User] b'' @ [NEWLINE]"
proof -
  obtain s' where s': "tg_run (\<lambda>_. None) demo_conc (overtaking 0 ''a'' ''b'') s'"
    using overtaking_run [of 0 "''a''" "''b''"] by auto
  have c: "content (cchats demo_conc ! 0) = []" by (simp add: demo_conc_def demo_chat_empty)
  have "bus_items (cbus demo_conc) = []" by (simp add: demo_conc_def demo_bus_wf)
  moreover have "length (bus_items (chat_notify 0 (''b'' @ [NUL]) 1 demo_bus)) = 1"
    using bus.put_items [OF demo_bus_wf(1), of "(0, ''b'' @ [NUL], 1)"] demo_bus_wf(2)
    by (simp add: bus_put_def chat_notify_def del: length_bus_items)
  ultimately show ?thesis
    using interleaving_safe [OF demo_conc_inv s'] c s'
    by (auto simp: overtaking_def Let_def demo_conc_def cstr_def NUL_def intro!: exI [of _ s'])
qed

text \<open>
  C21: the two orders need not be the same. Whenever the chat and the queue have room for both
  lines, two processes that write to one chat can leave their lines in the chat in one order and in the queue for the daemon, and so on Telegram,
  in the other, since the lock of the chat is given back before the line is queued.
\<close>

theorem interleaving_reorders:
  assumes "conc_inv s" "i < 10" "length a < 4000" "length b < 4000" "NUL \<notin> set a" "NUL \<notin> set b"
    and "length (content (cchats s ! i)) + length a + length b < 4079" "length (bus_items (cbus s)) \<le> 30"
  shows "\<exists>s'. tg_run k s (overtaking i a b) s'
    \<and> content (cchats s' ! i) = content (cchats s ! i) @ ''[User] '' @ a @ [NEWLINE] @ ''[User] '' @ b @ [NEWLINE]
    \<and> bus_items (cbus s') = bus_items (cbus s)
        @ [take 127 (''OUT|'' @ dec_int (int i) @ ''|'' @ b @ [NEWLINE]), take 127 (''OUT|'' @ dec_int (int i) @ ''|'' @ a @ [NEWLINE])]"
proof -
  obtain s' where r: "tg_run k s (overtaking i a b) s'" using overtaking_run [of i a b k s] assms(2-4) by auto
  have c: "cstr (t @ [NUL]) = t" "out_line (int i) (t @ [NUL]) (of_nat (length t)) = ''OUT|'' @ dec_int (int i) @ ''|'' @ t @ [NEWLINE]"
    if "length t < 4000" "NUL \<notin> set t" for t
  proof -
    have u: "unat (of_nat (length t) :: u64) = length t" using that(1) by (intro unat_of_nat64) simp
    have "cstr t = t" by (rule cstr_id [OF that(2)])
    then show "cstr (t @ [NUL]) = t" "out_line (int i) (t @ [NUL]) (of_nat (length t)) = ''OUT|'' @ dec_int (int i) @ ''|'' @ t @ [NEWLINE]"
      using user_line [of t "of_nat (length t)"] that(1) by (simp_all add: u)
  qed
  have I: "length (cchats s) = 10" "chat_wf (cchats s ! i)" "bus_wf (cbus s)"
    using assms(1,2) by (auto simp: conc_inv_def tg_inv_def MAX_CHATS_def)
  let ?A = "''[User] '' @ a @ [NEWLINE]" and ?B = "''[User] '' @ b @ [NEWLINE]"
  let ?c1 = "chat_append (cchats s ! i) ?A"
  have "cchats s' ! i = chat_append ?c1 ?B"
    using run_eq [OF r] I(1) assms(2) c(1) [OF assms(3,5)] c(1) [OF assms(4,6)]
    by (simp add: overtaking_def Let_def chat_store_def)
  moreover have "content ?c1 = content (cchats s ! i) @ ?A" "chat_wf ?c1"
    using chat_append_wf [OF I(2), of ?A] assms(7) by simp_all
  moreover have "content (chat_append ?c1 ?B) = content ?c1 @ ?B"
    using chat_append_wf [OF calculation(3), of ?B] calculation(2) assms(7) by simp
  moreover have "bus_items (cbus s') = bus_items (cbus s)
      @ [take 127 (''OUT|'' @ dec_int (int i) @ ''|'' @ b @ [NEWLINE]), take 127 (''OUT|'' @ dec_int (int i) @ ''|'' @ a @ [NEWLINE])]"
  proof -
    let ?b1 = "chat_notify i (b @ [NUL]) (of_nat (length b)) (cbus s)"
    have 1: "bus_wf ?b1" "bus_items ?b1 = bus_items (cbus s) @ [take 127 (''OUT|'' @ dec_int (int i) @ ''|'' @ b @ [NEWLINE])]"
      using bus.put_wf [OF I(3), of "(i, b @ [NUL], of_nat (length b))"] bus.put_items [OF I(3), of "(i, b @ [NUL], of_nat (length b))"]
        assms(8) c(2) [OF assms(4,6)]
      by (simp_all add: bus_put_def chat_notify_def queued_line_def del: length_bus_items)
    have "cbus s' = chat_notify i (a @ [NUL]) (of_nat (length a)) ?b1"
      using run_eq [OF r] by (simp add: overtaking_def Let_def)
    then show ?thesis
      using bus.put_items [OF 1(1), of "(i, a @ [NUL], of_nat (length a))"] 1(2) assms(8) c(2) [OF assms(3,5)]
      by (simp add: bus_put_def chat_notify_def queued_line_def del: length_bus_items)
  qed
  ultimately show ?thesis using r by auto
qed

theorem interleaving_reorders_witness:
  "\<exists>s'. tg_run (\<lambda>_. None) demo_conc (overtaking 0 ''a'' ''b'') s'
    \<and> bus_items (cbus s') = [take 127 (''OUT|'' @ dec_int 0 @ ''|b'' @ [NEWLINE]), take 127 (''OUT|'' @ dec_int 0 @ ''|a'' @ [NEWLINE])]"
proof -
  have "content (cchats demo_conc ! 0) = []" "bus_items (cbus demo_conc) = []"
    by (simp_all add: demo_conc_def content_def demo_chat_def demo_bus_wf)
  then show ?thesis
    using interleaving_reorders [OF demo_conc_inv, of 0 "''a''" "''b''" "\<lambda>_. None"] by (auto simp: NUL_def simp del: take_append)
qed

end
