(* ===== verification/Telegram_Files.thy ===== *)
theory Telegram_Files
  imports Telegram_Conc
begin

section \<open>Open files of the Telegram devices\<close>

text \<open>
  The devices as processes see them: files that are opened, read, written, polled and closed through
  the tables of operations of the module. An open file is what \<open>open\<close> makes, with its own
  position; any number of files may be open on one chat. \<open>lseek\<close> and \<open>pread\<close>, which the
  module has no code for, are left out.
\<close>

subsection \<open>The file operations (bus.c, chat.c)\<close>

text \<open>\<open>inode->i_cdev\<close> is the \<open>cdev\<close> of one of the chats or that of the bus.\<close>

datatype tg_cdev = Chat_cdev_of nat | Bus_cdev_of

datatype tg_private = Chat_data nat | Bus_data

record tg_file =
  private_data :: "tg_private option"
  f_nonblock :: bool
  f_pos :: u64

type_synonym tg_devs = "chat_dev list \<times> tg_bus_dev"

text \<open>
  \<open>container_of\<close> makes the chat of its \<open>cdev\<close>. A result \<open>None\<close> here and below is undefined
  behaviour: a \<open>cdev\<close> or a private pointer of the other kind of device.
\<close>

definition chat_open :: "tg_cdev \<Rightarrow> tg_file \<Rightarrow> (int \<times> tg_file) option" where
  "chat_open i_cdev flip =
     (case i_cdev of
        Chat_cdev_of i \<Rightarrow> Some (0, flip\<lparr>private_data := Some (Chat_data i)\<rparr>)
      | Bus_cdev_of \<Rightarrow> None)"

definition chat_release :: "tg_file \<Rightarrow> int option" where
  "chat_release flip = (case private_data flip of Some (Chat_data _) \<Rightarrow> Some 0 | _ \<Rightarrow> None)"

definition bus_open :: "tg_cdev \<Rightarrow> tg_file \<Rightarrow> (int \<times> tg_file) option" where
  "bus_open i_cdev flip = Some (0, flip\<lparr>private_data := Some Bus_data\<rparr>)"

text \<open>A table of operations; the module has none of its own for the release of the bus.\<close>

record file_operations =
  fop_open :: "tg_cdev \<Rightarrow> tg_file \<Rightarrow> (int \<times> tg_file) option"
  fop_read :: "tg_file \<Rightarrow> u64 \<Rightarrow> bool \<Rightarrow> tg_devs \<Rightarrow> (string outcome \<times> u64 \<times> tg_devs) option"
  fop_write :: "(string \<Rightarrow> int option) \<Rightarrow> tg_file \<Rightarrow> string \<Rightarrow> u64 \<Rightarrow> bool \<Rightarrow> tg_devs \<Rightarrow> ((errno + u64) \<times> tg_devs) option"
  fop_poll :: "tg_file \<Rightarrow> tg_devs \<Rightarrow> u32 option"
  fop_release :: "(tg_file \<Rightarrow> int option) option"

definition chat_fops :: file_operations where
  "chat_fops = \<lparr>
     fop_open = chat_open,
     fop_read = (\<lambda>flip count fault s. case private_data flip of
        Some (Chat_data i) \<Rightarrow>
          (case chat_read (f_nonblock flip) count fault (f_pos flip) [] (fst s ! i) of (r, p) \<Rightarrow> Some (r, p, s))
      | _ \<Rightarrow> None),
     fop_write = (\<lambda>kstrtoint flip ubuf count fault s. case private_data flip of
        Some (Chat_data i) \<Rightarrow> Some (chat_write i ubuf count fault s) | _ \<Rightarrow> None),
     fop_poll = (\<lambda>flip s. case private_data flip of
        Some (Chat_data i) \<Rightarrow> Some (chat_poll (f_pos flip) (fst s ! i)) | _ \<Rightarrow> None),
     fop_release = Some chat_release\<rparr>"

definition bus_fops :: file_operations where
  "bus_fops = \<lparr>
     fop_open = bus_open,
     fop_read = (\<lambda>flip count fault s. case private_data flip of
        Some Bus_data \<Rightarrow>
          (case bus_read (f_nonblock flip) count fault [] (snd s) of (r, bus) \<Rightarrow> Some (r, f_pos flip, fst s, bus))
      | _ \<Rightarrow> None),
     fop_write = (\<lambda>kstrtoint flip ubuf count fault s. case private_data flip of
        Some Bus_data \<Rightarrow>
          (case bus_write kstrtoint ubuf count fault (fst s) of (r, chats) \<Rightarrow> Some (r, chats, snd s))
      | _ \<Rightarrow> None),
     fop_poll = (\<lambda>flip s. case private_data flip of
        Some Bus_data \<Rightarrow> Some (bus_poll (snd s)) | _ \<Rightarrow> None),
     fop_release = None\<rparr>"

text \<open>The table a \<open>cdev\<close> was initialised with by \<open>telegram_init\<close>.\<close>

definition cdev_fops :: "tg_cdev \<Rightarrow> file_operations" where
  "cdev_fops i_cdev = (case i_cdev of Chat_cdev_of _ \<Rightarrow> chat_fops | Bus_cdev_of \<Rightarrow> bus_fops)"

subsection \<open>Calls of processes\<close>

text \<open>
  A number stands for an open file, and the kernel gives a new file a number that is free. A read
  that has to sleep is a call that has not returned: the process calls again when it is woken up.
\<close>

record tg_sys =
  sys_devs :: tg_devs
  sys_files :: "nat \<Rightarrow> (tg_cdev \<times> tg_file) option"

datatype tg_call =
    Open nat tg_cdev bool
  | Read_file nat u64 bool
  | Write_file nat string u64 bool
  | Poll_file nat
  | Close nat

datatype tg_ret = Opened int | Got "string outcome" | Wrote "errno + u64" | Mask u32 | Closed int | Bad_file

definition cdev_ok :: "tg_cdev \<Rightarrow> bool" where
  "cdev_ok i_cdev = (case i_cdev of Chat_cdev_of i \<Rightarrow> i < MAX_CHATS | Bus_cdev_of \<Rightarrow> True)"

fun tg_syscall :: "(string \<Rightarrow> int option) \<Rightarrow> tg_sys \<Rightarrow> tg_call \<Rightarrow> (tg_ret \<times> tg_sys) option" where
  "tg_syscall k s (Open fd i_cdev nonblock) =
     (if sys_files s fd \<noteq> None \<or> \<not> cdev_ok i_cdev then Some (Bad_file, s)
      else map_option (\<lambda>(r, flip). (Opened r, s\<lparr>sys_files := (sys_files s)(fd \<mapsto> (i_cdev, flip))\<rparr>))
             (fop_open (cdev_fops i_cdev) i_cdev \<lparr>private_data = None, f_nonblock = nonblock, f_pos = 0\<rparr>))"
| "tg_syscall k s (Read_file fd n fault) =
     (case sys_files s fd of
        None \<Rightarrow> Some (Bad_file, s)
      | Some (i_cdev, flip) \<Rightarrow>
          map_option (\<lambda>(r, pos, devs). (Got r,
              s\<lparr>sys_devs := devs, sys_files := (sys_files s)(fd \<mapsto> (i_cdev, flip\<lparr>f_pos := pos\<rparr>))\<rparr>))
            (fop_read (cdev_fops i_cdev) flip n fault (sys_devs s)))"
| "tg_syscall k s (Write_file fd ubuf n fault) =
     (case sys_files s fd of
        None \<Rightarrow> Some (Bad_file, s)
      | Some (i_cdev, flip) \<Rightarrow>
          map_option (\<lambda>(r, devs). (Wrote r, s\<lparr>sys_devs := devs\<rparr>))
            (fop_write (cdev_fops i_cdev) k flip ubuf n fault (sys_devs s)))"
| "tg_syscall k s (Poll_file fd) =
     (case sys_files s fd of
        None \<Rightarrow> Some (Bad_file, s)
      | Some (i_cdev, flip) \<Rightarrow>
          map_option (\<lambda>mask. (Mask mask, s)) (fop_poll (cdev_fops i_cdev) flip (sys_devs s)))"
| "tg_syscall k s (Close fd) =
     (case sys_files s fd of
        None \<Rightarrow> Some (Bad_file, s)
      | Some (i_cdev, flip) \<Rightarrow>
          map_option (\<lambda>r. (Closed r, s\<lparr>sys_files := (sys_files s)(fd := None)\<rparr>))
            (case fop_release (cdev_fops i_cdev) of None \<Rightarrow> Some 0 | Some release \<Rightarrow> release flip))"

fun tg_syscalls :: "(string \<Rightarrow> int option) \<Rightarrow> tg_sys \<Rightarrow> tg_call list \<Rightarrow> ((tg_call \<times> tg_ret) list \<times> tg_sys) option" where
  "tg_syscalls k s [] = Some ([], s)"
| "tg_syscalls k s (c # cs) =
     (case tg_syscall k s c of
        None \<Rightarrow> None
      | Some (r, s1) \<Rightarrow> map_option (\<lambda>(tr, s2). ((c, r) # tr, s2)) (tg_syscalls k s1 cs))"

subsection \<open>What a process has received\<close>

text \<open>The bytes the reads of a file have returned since it was opened, added to those before.\<close>

fun receive :: "nat \<Rightarrow> string \<Rightarrow> tg_call \<times> tg_ret \<Rightarrow> string" where
  "receive fd bs (Open fd' _ _, Opened _) = (if fd' = fd then [] else bs)"
| "receive fd bs (Read_file fd' _ _, Got (Done new)) = (if fd' = fd then bs @ new else bs)"
| "receive fd bs _ = bs"

definition received :: "nat \<Rightarrow> (tg_call \<times> tg_ret) list \<Rightarrow> string" where
  "received fd tr = foldl (receive fd) [] tr"

text \<open>A file of a device of the module, as opened by it.\<close>

definition file_ok :: "tg_cdev \<times> tg_file \<Rightarrow> bool" where
  "file_ok x = (case x of (i_cdev, flip) \<Rightarrow> cdev_ok i_cdev \<and>
     private_data flip = Some (case i_cdev of Chat_cdev_of i \<Rightarrow> Chat_data i | Bus_cdev_of \<Rightarrow> Bus_data))"

definition sys_inv :: "tg_sys \<Rightarrow> bool" where
  "sys_inv s \<longleftrightarrow> tg_inv (sys_devs s) \<and> (\<forall>fd x. sys_files s fd = Some x \<longrightarrow> file_ok x)"

text \<open>The bytes received on every file of a chat are those before its position.\<close>

definition streams :: "(nat \<Rightarrow> string) \<Rightarrow> tg_sys \<Rightarrow> bool" where
  "streams got s \<longleftrightarrow> (\<forall>fd i flip. sys_files s fd = Some (Chat_cdev_of i, flip) \<longrightarrow>
     unat (f_pos flip) \<le> length (content (fst (sys_devs s) ! i))
     \<and> got fd = take (unat (f_pos flip)) (content (fst (sys_devs s) ! i)))"

lemma cdev_fops_simps [simp]:
  "cdev_fops (Chat_cdev_of i) = chat_fops" "cdev_fops Bus_cdev_of = bus_fops"
  by (simp_all add: cdev_fops_def)

lemma file_okE:
  assumes "sys_inv s" "sys_files s fd = Some x"
  obtains (chat) i flip where "x = (Chat_cdev_of i, flip)" "i < MAX_CHATS" "private_data flip = Some (Chat_data i)"
  | (bus) flip where "x = (Bus_cdev_of, flip)" "private_data flip = Some Bus_data"
proof -
  have "file_ok x" using assms unfolding sys_inv_def by blast
  then show thesis using that by (cases x; cases "fst x") (auto simp: file_ok_def cdev_ok_def)
qed

lemma streams_keep:
  assumes "sys_inv s" "streams got s" "keeps_text (fst (sys_devs s)) (fst devs)"
  shows "streams got (s\<lparr>sys_devs := devs\<rparr>)"
  unfolding streams_def
proof (intro allI impI)
  fix fd i flip assume f: "sys_files (s\<lparr>sys_devs := devs\<rparr>) fd = Some (Chat_cdev_of i, flip)"
  then have "file_ok (Chat_cdev_of i, flip)" using assms(1) by (simp add: sys_inv_def)
  then have "i < MAX_CHATS" by (simp add: file_ok_def cdev_ok_def)
  then obtain rest where "content (fst devs ! i) = content (fst (sys_devs s) ! i) @ rest"
    using assms(3) by (auto simp: keeps_text_def)
  then show "unat (f_pos flip) \<le> length (content (fst (sys_devs (s\<lparr>sys_devs := devs\<rparr>)) ! i))
      \<and> got fd = take (unat (f_pos flip)) (content (fst (sys_devs (s\<lparr>sys_devs := devs\<rparr>)) ! i))"
    using assms(2) f by (auto simp: streams_def intro: trans_le_add1)
qed

text \<open>A call that changes the devices only, as a step of the module.\<close>

lemma step_keeps:
  assumes "sys_inv s" "streams got s" "devs = tg_step k (sys_devs s) x"
  shows "sys_inv (s\<lparr>sys_devs := devs\<rparr>) \<and> keeps_text (fst (sys_devs s)) (fst devs) \<and> streams got (s\<lparr>sys_devs := devs\<rparr>)"
  using tg_step_inv [of "sys_devs s" k x] streams_keep [OF assms(1,2), of devs] assms by (simp add: sys_inv_def)

lemma set_file:
  assumes "sys_inv s" "streams got s" "file_ok (c, flip)"
    and "\<And>j. j \<noteq> fd \<Longrightarrow> got' j = got j"
    and "\<And>i. c = Chat_cdev_of i \<Longrightarrow> unat (f_pos flip) \<le> length (content (fst (sys_devs s) ! i))
      \<and> got' fd = take (unat (f_pos flip)) (content (fst (sys_devs s) ! i))"
  shows "sys_inv (s\<lparr>sys_files := (sys_files s)(fd \<mapsto> (c, flip))\<rparr>) \<and> streams got' (s\<lparr>sys_files := (sys_files s)(fd \<mapsto> (c, flip))\<rparr>)"
  using assms by (auto simp: sys_inv_def streams_def)

lemma tg_syscall_ok:
  assumes "sys_inv s" "streams got s"
  shows "\<exists>r s'. tg_syscall k s c = Some (r, s') \<and> sys_inv s' \<and> keeps_text (fst (sys_devs s)) (fst (sys_devs s'))
    \<and> streams (\<lambda>fd. receive fd (got fd) (c, r)) s'"
proof (cases c)
  case (Open fd i_cdev nonblock)
  show ?thesis
  proof (cases "sys_files s fd \<noteq> None \<or> \<not> cdev_ok i_cdev")
    case False
    define flip where "flip = \<lparr>private_data = Some (case i_cdev of Chat_cdev_of i \<Rightarrow> Chat_data i | Bus_cdev_of \<Rightarrow> Bus_data),
      f_nonblock = nonblock, f_pos = 0\<rparr>"
    have "tg_syscall k s c = Some (Opened 0, s\<lparr>sys_files := (sys_files s)(fd \<mapsto> (i_cdev, flip))\<rparr>)"
      using False by (cases i_cdev) (simp_all add: Open flip_def chat_fops_def bus_fops_def chat_open_def bus_open_def)
    moreover have "file_ok (i_cdev, flip)" using False by (simp add: file_ok_def flip_def)
    ultimately show ?thesis
      using set_file [OF assms, of i_cdev flip fd "\<lambda>j. receive j (got j) (c, Opened 0)"] by (simp add: Open flip_def)
  qed (use assms Open in simp)
next
  case (Read_file fd count fault)
  show ?thesis
  proof (cases "sys_files s fd")
    case (Some x)
    show ?thesis
      using assms(1) Some
    proof (cases rule: file_okE)
      case (chat i flip)
      obtain r p where rp: "chat_read (f_nonblock flip) count fault (f_pos flip) [] (fst (sys_devs s) ! i) = (r, p)" by fastforce
      have eq: "tg_syscall k s c = Some (Got r, s\<lparr>sys_files := (sys_files s)(fd \<mapsto> (Chat_cdev_of i, flip\<lparr>f_pos := p\<rparr>))\<rparr>)"
        using Some chat(1,3) rp by (simp add: Read_file chat_fops_def)
      have g: "unat (f_pos flip) \<le> length (content (fst (sys_devs s) ! i))"
        "got fd = take (unat (f_pos flip)) (content (fst (sys_devs s) ! i))"
        using assms(2) Some chat(1) by (auto simp: streams_def)
      have w: "chat_wf (fst (sys_devs s) ! i)" using assms(1) chat(2) by (simp add: sys_inv_def tg_inv_def)
      note B = chat_read_bytes [OF w g(1) rp]
      have "unat p \<le> length (content (fst (sys_devs s) ! i))
          \<and> receive fd (got fd) (c, Got r) = take (unat p) (content (fst (sys_devs s) ! i))"
        using B g by (cases r) (auto simp: Read_file take_add min_def)
      moreover have "receive j (got j) (c, Got r) = got j" if "j \<noteq> fd" for j using that by (cases r) (simp_all add: Read_file)
      moreover have "file_ok (Chat_cdev_of i, flip\<lparr>f_pos := p\<rparr>)" using chat by (simp add: file_ok_def cdev_ok_def)
      ultimately show ?thesis
        unfolding eq using set_file [OF assms, of "Chat_cdev_of i" "flip\<lparr>f_pos := p\<rparr>" fd "\<lambda>j. receive j (got j) (c, Got r)"] by simp
    next
      case (bus flip)
      obtain r b where rb: "bus_read (f_nonblock flip) count fault [] (snd (sys_devs s)) = (r, b)" by fastforce
      have sf: "(sys_files s)(fd \<mapsto> (Bus_cdev_of, flip)) = sys_files s" using Some bus(1) by (simp add: fun_upd_idem)
      have eq: "tg_syscall k s c = Some (Got r, s\<lparr>sys_devs := tg_step k (sys_devs s) (Bus_read (f_nonblock flip) count fault)\<rparr>)"
        using Some bus rb by (simp add: Read_file bus_fops_def sf)
      note K = step_keeps [OF assms refl, of k "Bus_read (f_nonblock flip) count fault"]
      have "receive j (got j) (c, Got r) = got j" if "j \<noteq> fd" for j using that by (cases r) (simp_all add: Read_file)
      then have "streams (\<lambda>j. receive j (got j) (c, Got r)) (s\<lparr>sys_devs := tg_step k (sys_devs s) (Bus_read (f_nonblock flip) count fault)\<rparr>)"
        using K Some bus(1) unfolding streams_def by (metis (no_types, lifting) option.inject prod.inject tg_cdev.distinct(1) tg_sys.simps(5) tg_sys.select_convs(2) tg_sys.surjective tg_sys.update_convs(1))
      then show ?thesis unfolding eq using K by simp
    qed
  qed (use assms Read_file in simp)
next
  case (Write_file fd ubuf count fault)
  show ?thesis
  proof (cases "sys_files s fd")
    case (Some x)
    show ?thesis
      using assms(1) Some
    proof (cases rule: file_okE)
      case (chat i flip)
      obtain r d where rd: "chat_write i ubuf count fault (sys_devs s) = (r, d)" by (metis surj_pair)
      then have "tg_syscall k s c = Some (Wrote r, s\<lparr>sys_devs := tg_step k (sys_devs s) (Chat_write i ubuf count fault)\<rparr>)"
        using Some chat by (simp add: Write_file chat_fops_def)
      then show ?thesis using step_keeps [OF assms refl, of k "Chat_write i ubuf count fault"] by (simp add: Write_file)
    next
      case (bus flip)
      obtain r d where rd: "bus_write k ubuf count fault (fst (sys_devs s)) = (r, d)" by fastforce
      then have "tg_syscall k s c = Some (Wrote r, s\<lparr>sys_devs := tg_step k (sys_devs s) (Bus_write ubuf count fault)\<rparr>)"
        using Some bus by (simp add: Write_file bus_fops_def)
      then show ?thesis using step_keeps [OF assms refl, of k "Bus_write ubuf count fault"] by (simp add: Write_file)
    qed
  qed (use assms Write_file in simp)
next
  case (Poll_file fd)
  show ?thesis
  proof (cases "sys_files s fd")
    case (Some x)
    show ?thesis
      using assms(1) Some by (cases rule: file_okE) (use assms Some in \<open>auto simp: Poll_file chat_fops_def bus_fops_def\<close>)
  qed (use assms Poll_file in simp)
next
  case (Close fd)
  have "sys_inv (s\<lparr>sys_files := (sys_files s)(fd := None)\<rparr>)" "streams got (s\<lparr>sys_files := (sys_files s)(fd := None)\<rparr>)"
    using assms by (auto simp: sys_inv_def streams_def)
  moreover have "tg_syscall k s c = Some (Closed 0, s\<lparr>sys_files := (sys_files s)(fd := None)\<rparr>)" if x: "sys_files s fd = Some x" for x
    using assms(1) x by (cases rule: file_okE) (simp_all add: x Close chat_fops_def bus_fops_def chat_release_def)
  ultimately show ?thesis using assms by (cases "sys_files s fd") (simp_all add: Close)
qed

lemma tg_syscalls_ok:
  "sys_inv s \<Longrightarrow> streams got s \<Longrightarrow> \<exists>tr s'. tg_syscalls k s cs = Some (tr, s') \<and> sys_inv s'
     \<and> keeps_text (fst (sys_devs s)) (fst (sys_devs s')) \<and> streams (\<lambda>fd. foldl (receive fd) (got fd) tr) s'"
proof (induction cs arbitrary: s got)
  case (Cons c cs)
  obtain r s1 where 1: "tg_syscall k s c = Some (r, s1)" "sys_inv s1" "keeps_text (fst (sys_devs s)) (fst (sys_devs s1))"
    "streams (\<lambda>fd. receive fd (got fd) (c, r)) s1"
    using tg_syscall_ok [OF Cons.prems] by blast
  obtain tr s2 where 2: "tg_syscalls k s1 cs = Some (tr, s2)" "sys_inv s2" "keeps_text (fst (sys_devs s1)) (fst (sys_devs s2))"
    "streams (\<lambda>fd. foldl (receive fd) (receive fd (got fd) (c, r)) tr) s2"
    using Cons.IH [OF 1(2,4)] by blast
  show ?case using 1 2 keeps_text_trans [OF 1(3) 2(3)] by simp
qed simp

text \<open>
  C9: whatever files processes open, read, write, poll and close, in any order, no operation finds the
  private data of the wrong kind of device, the module stays well-formed, and for every file open
  on a chat the bytes its reads have returned since it was opened are exactly the text of the chat
  up to the position of the file: nothing is skipped, repeated or lost, whoever else writes to the
  chat or reads it, and also when reads fail or give less than asked for.
\<close>

theorem open_files_stream:
  assumes "tg_inv devs"
  shows "\<exists>tr s'. tg_syscalls kstrtoint \<lparr>sys_devs = devs, sys_files = Map.empty\<rparr> calls = Some (tr, s')
    \<and> tg_inv (sys_devs s') \<and> keeps_text (fst devs) (fst (sys_devs s')) \<and> map fst tr = calls
    \<and> (\<forall>fd i flip. sys_files s' fd = Some (Chat_cdev_of i, flip) \<longrightarrow>
         i < 10 \<and> private_data flip = Some (Chat_data i)
         \<and> received fd tr = take (unat (f_pos flip)) (content (fst (sys_devs s') ! i))
         \<and> length (received fd tr) = unat (f_pos flip))"
proof -
  have trace: "tg_syscalls k s cs = Some (tr, s') \<Longrightarrow> map fst tr = cs" for k s cs tr s'
    by (induction cs arbitrary: s tr) (auto split: option.splits)
  let ?s = "\<lparr>sys_devs = devs, sys_files = Map.empty\<rparr> :: tg_sys"
  have "sys_inv ?s" "streams (\<lambda>_. []) ?s" using assms by (simp_all add: sys_inv_def streams_def)
  then obtain tr s' where r: "tg_syscalls kstrtoint ?s calls = Some (tr, s')" "sys_inv s'"
    "keeps_text (fst devs) (fst (sys_devs s'))" "streams (\<lambda>fd. foldl (receive fd) [] tr) s'"
    using tg_syscalls_ok by fastforce
  moreover have "i < 10 \<and> private_data flip = Some (Chat_data i)" if "sys_files s' fd = Some (Chat_cdev_of i, flip)" for fd i flip
    using r(2) that by (cases rule: file_okE) (simp_all add: MAX_CHATS_def)
  moreover have "tg_inv (sys_devs s')" using r(2) by (simp add: sys_inv_def)
  ultimately show ?thesis
    using trace [OF r(1)] unfolding streams_def received_def by (metis (no_types, lifting) length_take min.absorb2)
qed

theorem open_files_stream_witness:
  "\<exists>tr s'. tg_syscalls (\<lambda>_. None) \<lparr>sys_devs = (replicate 10 demo_chat, demo_bus), sys_files = Map.empty\<rparr>
      [Open 3 (Chat_cdev_of 0) True, Open 4 (Chat_cdev_of 0) True, Write_file 4 ''hi'' 2 False, Read_file 3 5 False,
       Read_file 4 100 False, Read_file 3 100 False] = Some (tr, s')
     \<and> tg_inv (sys_devs s')"
  using open_files_stream [OF demo_inv, of "\<lambda>_. None"] by blast

end
