(* ===== verification/Fat16.thy ===== *)
theory Fat16
  imports Kernel
begin

section \<open>The FAT16 file system (fat16.h, fat16.c, super.c, inode.c, dir.c, file.c)\<close>

text \<open>
  A read-only FAT16 driver. The block device is the parameter \<open>bread\<close>: the bytes of a sector, or
  \<open>None\<close> when it cannot be read. The packed structs of the disk are decoded from these bytes, on a
  little-endian machine, where \<open>le16_to_cpu\<close> and \<open>le32_to_cpu\<close> are the identity. Numbers keep
  their width, 32 bits for sectors and entries, 16 for clusters, so that all computations wrap
  around as in C. Buffers taken and given back by a function itself are left out of its result.

  Where a function divides by a number read from the disk, or follows a chain of clusters, its
  result is an \<open>option\<close>: \<open>None\<close> is a division by zero or a loop that never ends.
\<close>

subsection \<open>The structs of the disk (fat16.h)\<close>

definition FAT16_STEM_LEN :: nat where "FAT16_STEM_LEN = 8"
definition FAT16_EXTENSION_LEN :: nat where "FAT16_EXTENSION_LEN = 3"
definition FAT16_FILENAME_LEN :: nat where "FAT16_FILENAME_LEN = 11"
definition FAT16_FINAL_CLUSTER :: u32 where "FAT16_FINAL_CLUSTER = 0xFFF8"
definition FAT16_ATTR_VOLUME_ID :: u8 where "FAT16_ATTR_VOLUME_ID = 0x08"
definition FAT16_ATTR_DIRECTORY :: u8 where "FAT16_ATTR_DIRECTORY = 0x10"
definition FAT16_ATTR_LFN :: u8 where "FAT16_ATTR_LFN = 0x0F"
definition FAT16_DELETED_MAGIC :: u8 where "FAT16_DELETED_MAGIC = 0xE5"

text \<open>\<open>"FAT16"\<close> and three zero bytes, read as a little-endian number\<close>

definition fat16_fs_magic :: u64 where "fat16_fs_magic = 0x3631544146"

definition le16 :: "u8 list \<Rightarrow> nat \<Rightarrow> u16" where
  "le16 b off = ucast (b ! off) + 256 * ucast (b ! (off + 1))"

definition le32 :: "u8 list \<Rightarrow> nat \<Rightarrow> u32" where
  "le32 b off = ucast (le16 b off) + 65536 * ucast (le16 b (off + 2))"

record fat16_bpb_t =
  bpb_bootjmp :: "u8 list"
  bpb_OEM_identifier :: "u8 list"
  bpb_bytes_per_sector :: u16
  bpb_sectors_per_cluster :: u8
  bpb_reserved_sectors :: u16
  bpb_FAT_count :: u8
  bpb_root_dir_entries :: u16
  bpb_sectors_per_volume_u16 :: u16
  bpb_media_descriptor_type :: u8
  bpb_sectors_per_FAT :: u16
  bpb_sectors_per_track :: u16
  bpb_number_of_heads :: u16
  bpb_part_begin_lba :: u32
  bpb_sectors_per_volume_u32 :: u32
  bpb_drive_number :: u8
  bpb_windows_nt_flags :: u8
  bpb_signature :: u8
  bpb_volume_id :: u32
  bpb_volume_label :: "u8 list"
  bpb_system_identifier :: "u8 list"

definition read_bpb :: "u8 list \<Rightarrow> fat16_bpb_t" where
  "read_bpb b =
     \<lparr> bpb_bootjmp = take 3 b, bpb_OEM_identifier = take 8 (drop 3 b),
       bpb_bytes_per_sector = le16 b 11, bpb_sectors_per_cluster = b ! 13,
       bpb_reserved_sectors = le16 b 14, bpb_FAT_count = b ! 16, bpb_root_dir_entries = le16 b 17,
       bpb_sectors_per_volume_u16 = le16 b 19, bpb_media_descriptor_type = b ! 21,
       bpb_sectors_per_FAT = le16 b 22, bpb_sectors_per_track = le16 b 24,
       bpb_number_of_heads = le16 b 26, bpb_part_begin_lba = le32 b 28,
       bpb_sectors_per_volume_u32 = le32 b 32, bpb_drive_number = b ! 36,
       bpb_windows_nt_flags = b ! 37, bpb_signature = b ! 38, bpb_volume_id = le32 b 39,
       bpb_volume_label = take 11 (drop 43 b), bpb_system_identifier = take 8 (drop 54 b) \<rparr>"

record fat16_direntry_t =
  filename :: "u8 list"
  attr :: u8
  ntres :: u8
  creation_time_tenth :: u8
  creation_time :: u16
  creation_date :: u16
  last_access_date :: u16
  first_cluster_high :: u16
  write_time :: u16
  write_date :: u16
  first_cluster_low :: u16
  de_file_size :: u32

definition read_direntry :: "u8 list \<Rightarrow> fat16_direntry_t" where
  "read_direntry b =
     \<lparr> filename = take 11 b, attr = b ! 11, ntres = b ! 12, creation_time_tenth = b ! 13,
       creation_time = le16 b 14, creation_date = le16 b 16, last_access_date = le16 b 18,
       first_cluster_high = le16 b 20, write_time = le16 b 22, write_date = le16 b 24,
       first_cluster_low = le16 b 26, de_file_size = le32 b 28 \<rparr>"

text \<open>\<open>entries[i]\<close>\<close>

definition entry_at :: "u8 list \<Rightarrow> nat \<Rightarrow> fat16_direntry_t" where
  "entry_at buf i = read_direntry (take 32 (drop (32 * i) buf))"

record fat16_sb_info_t =
  fat_start :: u32
  root_dir_start :: u32
  data_start :: u32
  sectors_per_cluster :: u32
  bytes_per_cluster :: u32
  root_dir_entries :: u32
  bytes_per_sector :: u16
  fat_count :: u8

record fat16_inode_info_t =
  start_cluster :: u32
  file_size :: u32

subsection \<open>Geometry (fat16.h)\<close>

text \<open>An unsigned division, which faults when the divisor is zero.\<close>

definition udiv :: "'a::len word \<Rightarrow> 'a word \<Rightarrow> 'a word option" where
  "udiv a b = (if b = 0 then None else Some (a div b))"

definition fat16_fat_sector :: "fat16_bpb_t \<Rightarrow> u32" where
  "fat16_fat_sector bpb = ucast (bpb_reserved_sectors bpb)"

definition fat16_root_dir_sector :: "fat16_bpb_t \<Rightarrow> u32" where
  "fat16_root_dir_sector bpb =
     fat16_fat_sector bpb + ucast (bpb_FAT_count bpb) * ucast (bpb_sectors_per_FAT bpb)"

definition fat16_bytes_per_cluster :: "fat16_bpb_t \<Rightarrow> u32" where
  "fat16_bytes_per_cluster bpb = ucast (bpb_bytes_per_sector bpb) * ucast (bpb_sectors_per_cluster bpb)"

definition fat16_entries_per_sector :: "u32 \<Rightarrow> u32" where
  "fat16_entries_per_sector bps = bps div 32"

definition fat16_entries_per_cluster :: "u32 \<Rightarrow> u32" where
  "fat16_entries_per_cluster bpc = bpc div 32"

text \<open>The product is computed in \<open>size_t\<close>, and the quotient is cut to 32 bits.\<close>

definition fat16_root_sectors :: "u32 \<Rightarrow> u32 \<Rightarrow> u32 option" where
  "fat16_root_sectors entries bps =
     map_option (\<lambda>q. ucast q)
       (udiv ((ucast entries :: u64) * 32 + ucast bps - 1) (ucast bps))"

definition fat16_cluster_sector :: "u32 \<Rightarrow> u32 \<Rightarrow> u32 \<Rightarrow> u32" where
  "fat16_cluster_sector dstart cluster spc = dstart + (cluster - 2) * spc"

definition fat16_entry_sector :: "u32 \<Rightarrow> u32 \<Rightarrow> u32 \<Rightarrow> u32 option" where
  "fat16_entry_sector cluster_sector i entries_per_sector =
     map_option (\<lambda>q. cluster_sector + q) (udiv i entries_per_sector)"

definition fat16_entry_idx :: "u32 \<Rightarrow> u32 \<Rightarrow> u32 option" where
  "fat16_entry_idx i entries_per_sector =
     (if entries_per_sector = 0 then None else Some (i mod entries_per_sector))"

definition fat16_root_dir_sectors :: "fat16_bpb_t \<Rightarrow> u32 option" where
  "fat16_root_dir_sectors bpb =
     fat16_root_sectors (ucast (bpb_root_dir_entries bpb)) (ucast (bpb_bytes_per_sector bpb))"

definition fat16_data_sector :: "fat16_bpb_t \<Rightarrow> u32 option" where
  "fat16_data_sector bpb = map_option (\<lambda>n. fat16_root_dir_sector bpb + n) (fat16_root_dir_sectors bpb)"

definition fat16_de_is_end :: "fat16_direntry_t \<Rightarrow> bool" where
  "fat16_de_is_end de \<longleftrightarrow> filename de ! 0 = 0x00"

definition fat16_de_is_skip :: "fat16_direntry_t \<Rightarrow> bool" where
  "fat16_de_is_skip de \<longleftrightarrow>
     filename de ! 0 = FAT16_DELETED_MAGIC \<or> attr de = FAT16_ATTR_LFN
       \<or> attr de AND FAT16_ATTR_VOLUME_ID \<noteq> 0"

definition fat16_de_is_dir :: "fat16_direntry_t \<Rightarrow> bool" where
  "fat16_de_is_dir de \<longleftrightarrow> attr de AND FAT16_ATTR_DIRECTORY \<noteq> 0"

subsection \<open>Clusters (fat16.c)\<close>

type_synonym device = "u32 \<Rightarrow> u8 list option"

text \<open>The next cluster of the chain, as read from the FAT.\<close>

definition fat16_next_cluster :: "device \<Rightarrow> fat16_sb_info_t \<Rightarrow> u16 \<Rightarrow> (errno + u16) option" where
  "fat16_next_cluster bread sbi cluster =
     (let ent_per_sec = ucast (bytes_per_sector sbi) div 2 :: u32 in
      case udiv (ucast cluster) ent_per_sec of
        None \<Rightarrow> None
      | Some q \<Rightarrow>
          let fat_sector = fat_start sbi + q;
              offset = ucast cluster mod ent_per_sec
          in Some (case bread fat_sector of
                     None \<Rightarrow> Inl EIO
                   | Some data \<Rightarrow> Inr (le16 data (2 * unat offset))))"

text \<open>The loop over the sectors of a cluster, and the bytes it copies into the buffer.\<close>

fun read_sectors :: "device \<Rightarrow> fat16_sb_info_t \<Rightarrow> u32 \<Rightarrow> nat list \<Rightarrow> errno + u8 list" where
  "read_sectors bread sbi sector [] = Inr []"
| "read_sectors bread sbi sector (i # is) =
     (case bread (sector + of_nat i) of
        None \<Rightarrow> Inl EIO
      | Some data \<Rightarrow>
          (case read_sectors bread sbi sector is of
             Inl e \<Rightarrow> Inl e
           | Inr rest \<Rightarrow> Inr (take (unat (bytes_per_sector sbi)) data @ rest)))"

definition fat16_read_cluster :: "device \<Rightarrow> fat16_sb_info_t \<Rightarrow> u32 \<Rightarrow> errno + u8 list" where
  "fat16_read_cluster bread sbi cluster =
     (if FAT16_FINAL_CLUSTER \<le> cluster then Inl EINVAL
      else read_sectors bread sbi
             (fat16_cluster_sector (data_start sbi) cluster (sectors_per_cluster sbi))
             [0..<unat (sectors_per_cluster sbi)])"

subsection \<open>Names (fat16.c)\<close>

definition SPACE :: u8 where "SPACE = 0x20"
definition DOT :: u8 where "DOT = 0x2E"

text \<open>
  The two copying loops: from index \<open>i\<close> up to \<open>n\<close> or a space, as long as there is room for a byte
  and the terminating zero. \<open>out\<close> is what has been written.
\<close>

function copy_name :: "u8 list \<Rightarrow> u64 \<Rightarrow> nat \<Rightarrow> nat \<Rightarrow> u8 list \<Rightarrow> u8 list option" where
  "copy_name name83 outsz n i out =
     (if i < n \<and> name83 ! i \<noteq> SPACE then
        if outsz - 1 \<le> of_nat (length out) then None
        else copy_name name83 outsz n (i + 1) (out @ [name83 ! i])
      else Some out)"
  by pat_completeness auto
termination
  by (relation "measure (\<lambda>(name83, outsz, n, i, out). n - i)") auto

declare copy_name.simps [simp del]

text \<open>
  \<open>None\<close> is the result \<open>-1\<close>; \<open>Some s\<close> means that \<open>out\<close> holds \<open>s\<close> and a terminating zero.
\<close>

definition fat16_83_to_str :: "u8 list \<Rightarrow> u64 \<Rightarrow> u8 list option" where
  "fat16_83_to_str name83 outsz =
     (case copy_name name83 outsz FAT16_STEM_LEN 0 [] of
        None \<Rightarrow> None
      | Some out \<Rightarrow>
          if name83 ! FAT16_STEM_LEN \<noteq> SPACE then
            if outsz - 1 \<le> of_nat (length out) then None
            else copy_name name83 outsz FAT16_FILENAME_LEN FAT16_STEM_LEN (out @ [DOT])
          else Some out)"

text \<open>A C string of bytes.\<close>

definition cstr8 :: "u8 list \<Rightarrow> u8 list" where
  "cstr8 b = takeWhile (\<lambda>c. c \<noteq> 0) b"

text \<open>The loops that store the upper-case letters from \<open>off\<close> on.\<close>

definition put_upper :: "(u8 \<Rightarrow> u8) \<Rightarrow> nat \<Rightarrow> u8 list \<Rightarrow> u8 list \<Rightarrow> u8 list" where
  "put_upper toupper off s out83 = fold (\<lambda>i out. out[off + i := toupper (s ! i)]) [0..<length s] out83"

definition fat16_str_to_83 :: "(u8 \<Rightarrow> u8) \<Rightarrow> u8 list \<Rightarrow> u64 \<Rightarrow> u8 list option" where
  "fat16_str_to_83 toupper name namelen =
     (if 13 \<le> namelen then None
      else
        let buf = cstr8 (take (unat namelen) name);
            stem = takeWhile (\<lambda>c. c \<noteq> DOT) buf;
            ext = (case dropWhile (\<lambda>c. c \<noteq> DOT) buf of [] \<Rightarrow> [] | _ # e \<Rightarrow> e)
        in if FAT16_STEM_LEN < length stem \<or> FAT16_EXTENSION_LEN < length ext then None
           else Some (put_upper toupper FAT16_STEM_LEN ext
                       (put_upper toupper 0 stem (replicate FAT16_FILENAME_LEN SPACE))))"

end
