(* ===== verification/Fat16_Fs.thy ===== *)
theory Fat16_Fs
  imports Fat16
begin

section \<open>Directories, inodes, files and mounting (dir.c, inode.c, file.c, super.c)\<close>

subsection \<open>Walking a directory (dir.c)\<close>

text \<open>
  A callback gets an entry, its sector, its index in the sector and its index in the directory, and
  its own data, the state \<open>'s\<close>. A result other than 0 ends the walk and is its result.
\<close>

type_synonym 's dirent_cb = "fat16_direntry_t \<Rightarrow> u32 \<Rightarrow> u32 \<Rightarrow> u32 \<Rightarrow> 's \<Rightarrow> int \<times> 's"

datatype 'a flow = Next 'a | Return "errno + int" 'a

text \<open>
  The loop over the entries of a sector or a cluster, in which \<open>pos\<close> gives the sector and the index
  of an entry; \<open>abs_idx\<close> is part of the state.
\<close>

fun scan_entries ::
  "'s dirent_cb \<Rightarrow> u8 list \<Rightarrow> (u32 \<Rightarrow> (u32 \<times> u32) option) \<Rightarrow> nat list \<Rightarrow> u32 \<times> 's \<Rightarrow> (u32 \<times> 's) flow option" where
  "scan_entries cb buf pos [] s = Some (Next s)"
| "scan_entries cb buf pos (i # is) s =
     (let de = entry_at buf i in
      if fat16_de_is_end de then Some (Return (Inr 0) s)
      else case pos (of_nat i) of
             None \<Rightarrow> None
           | Some (sector, idx) \<Rightarrow>
               (case cb de sector idx (fst s) (snd s) of
                  (ret, data) \<Rightarrow>
                    if ret \<noteq> 0 then Some (Return (Inr ret) (fst s, data))
                    else scan_entries cb buf pos is (fst s + 1, data)))"

text \<open>The loop over the sectors of the root directory.\<close>

fun walk_root ::
  "'s dirent_cb \<Rightarrow> device \<Rightarrow> fat16_sb_info_t \<Rightarrow> nat list \<Rightarrow> u32 \<times> 's \<Rightarrow> ((errno + int) \<times> 's) option" where
  "walk_root cb bread sbi [] s = Some (Inr 0, snd s)"
| "walk_root cb bread sbi (k # ks) s =
     (case bread (root_dir_start sbi + of_nat k) of
        None \<Rightarrow> Some (Inl EIO, snd s)
      | Some data \<Rightarrow>
          (case scan_entries cb data (\<lambda>i. Some (root_dir_start sbi + of_nat k, i))
                  [0..<unat (fat16_entries_per_sector (ucast (bytes_per_sector sbi)))] s of
             None \<Rightarrow> None
           | Some (Return r s) \<Rightarrow> Some (r, snd s)
           | Some (Next s) \<Rightarrow> walk_root cb bread sbi ks s))"

text \<open>The loop over the clusters of any other directory, which a cyclic chain makes endless.\<close>

partial_function (option) walk_chain ::
  "'s dirent_cb \<Rightarrow> device \<Rightarrow> fat16_sb_info_t \<Rightarrow> u16 \<Rightarrow> u32 \<times> 's \<Rightarrow> ((errno + int) \<times> 's) option" where
  "walk_chain cb bread sbi cluster s =
     (if ucast cluster < FAT16_FINAL_CLUSTER then
        (case fat16_read_cluster bread sbi (ucast cluster) of
           Inl e \<Rightarrow> Some (Inl EIO, snd s)
         | Inr buf \<Rightarrow>
             (let eps = fat16_entries_per_sector (ucast (bytes_per_sector sbi));
                  epc = fat16_entries_per_cluster (bytes_per_cluster sbi);
                  cs = fat16_cluster_sector (data_start sbi) (ucast cluster) (sectors_per_cluster sbi)
              in case scan_entries cb buf
                        (\<lambda>i. case fat16_entry_sector cs i eps of
                               None \<Rightarrow> None
                             | Some sec \<Rightarrow> map_option (\<lambda>ix. (sec, ix)) (fat16_entry_idx i eps))
                        [0..<unat epc] s of
                   None \<Rightarrow> None
                 | Some (Return r s) \<Rightarrow> Some (r, snd s)
                 | Some (Next s) \<Rightarrow>
                     (case fat16_next_cluster bread sbi cluster of
                        None \<Rightarrow> None
                      | Some (Inl e) \<Rightarrow> Some (Inl EIO, snd s)
                      | Some (Inr cluster') \<Rightarrow> walk_chain cb bread sbi cluster' s)))
      else Some (Inr 0, snd s))"

text \<open>\<open>kmalloc_ok\<close> says whether the buffer for a cluster could be allocated.\<close>

definition fat16_dir_walk ::
  "bool \<Rightarrow> device \<Rightarrow> fat16_sb_info_t \<Rightarrow> fat16_inode_info_t \<Rightarrow> 's dirent_cb \<Rightarrow> 's \<Rightarrow> ((errno + int) \<times> 's) option" where
  "fat16_dir_walk kmalloc_ok bread sbi fi cb data =
     (if start_cluster fi = 0 then
        (case fat16_root_sectors (root_dir_entries sbi) (ucast (bytes_per_sector sbi)) of
           None \<Rightarrow> None
         | Some root_sectors \<Rightarrow> walk_root cb bread sbi [0..<unat root_sectors] (0, data))
      else if \<not> kmalloc_ok then Some (Inl ENOMEM, data)
      else walk_chain cb bread sbi (ucast (start_cluster fi)) (0, data))"

subsection \<open>Inodes (inode.c)\<close>

definition fat16_make_ino :: "fat16_sb_info_t \<Rightarrow> u32 \<Rightarrow> u32 \<Rightarrow> u64" where
  "fat16_make_ino sbi sector entry_index =
     ucast sector * ucast (bytes_per_sector sbi) + ucast entry_index * 32"

text \<open>The tables of operations an inode can get.\<close>

datatype inode_ops = File_ops | Dir_ops

record vfs_inode =
  i_ino :: u64
  i_size :: u64
  i_nlink :: nat
  i_mode :: u16
  i_ops :: inode_ops
  i_private :: "fat16_inode_info_t option"

definition S_IFDIR :: u16 where "S_IFDIR = 0x4000"
definition S_IFREG :: u16 where "S_IFREG = 0x8000"

datatype fs_resource = Inode | Inode_info | Sb_info | Buffer_head | Fs_type

text \<open>What the allocations of \<open>new_inode\<close> and \<open>kzalloc\<close> return is an argument.\<close>

definition penguin_fat16_iget ::
  "bool \<Rightarrow> bool \<Rightarrow> u64 \<Rightarrow> fat16_direntry_t \<Rightarrow> (errno + vfs_inode) \<times> fs_resource event list" where
  "penguin_fat16_iget new_inode_ok kzalloc_ok ino de =
     (if \<not> new_inode_ok then (Inl ENOMEM, [])
      else if \<not> kzalloc_ok then (Inl ENOMEM, [Acquire Inode, Release Inode])
      else
        let fi = \<lparr>start_cluster = ucast (first_cluster_low de), file_size = de_file_size de\<rparr>
        in (Inr \<lparr>i_ino = ino, i_size = ucast (file_size fi), i_nlink = 1,
                 i_mode = (if fat16_de_is_dir de then S_IFDIR OR 0x16D else S_IFREG OR 0x124),
                 i_ops = (if fat16_de_is_dir de then Dir_ops else File_ops), i_private = Some fi\<rparr>,
            [Acquire Inode, Acquire Inode_info]))"

definition penguin_fat16_get_root_inode :: "bool \<Rightarrow> bool \<Rightarrow> (errno + vfs_inode) \<times> fs_resource event list" where
  "penguin_fat16_get_root_inode new_inode_ok kzalloc_ok =
     (let fake = (read_direntry (replicate 32 0))\<lparr>attr := FAT16_ATTR_DIRECTORY, first_cluster_low := 0,
                   de_file_size := 0\<rparr>
      in penguin_fat16_iget new_inode_ok kzalloc_ok 1 fake)"

text \<open>
  The name of an entry in the buffer of 13 bytes of the callbacks, which ignore whether the
  conversion fails. \<open>strncasecmp\<close> compares the lower-case letters of the bytes up to the first zero
  byte, \<open>n\<close> of them at most.
\<close>

definition namebuf :: "fat16_direntry_t \<Rightarrow> u8 list" where
  "namebuf de = (case fat16_83_to_str (filename de) 13 of Some s \<Rightarrow> cstr8 s | None \<Rightarrow> [])"

definition strncasecmp_eq :: "(u8 \<Rightarrow> u8) \<Rightarrow> u8 list \<Rightarrow> u8 list \<Rightarrow> nat \<Rightarrow> bool" where
  "strncasecmp_eq tolower a b n \<longleftrightarrow> map tolower (take n (cstr8 a)) = map tolower (take n (cstr8 b))"

text \<open>
  A pointer to a dentry is \<open>NULL\<close>, an error pointer or a dentry, of which nothing more is
  known. What the dentry cache does to the dentry of the lookup is the list of the calls
  made for it. \<open>d_splice_alias\<close> is a parameter, what the kernel returns for an inode: as documented,
  \<open>NULL\<close> when the inode has been attached to the dentry given, another dentry when there was an alias.
\<close>

datatype 'd dentry_ptr = Null_dentry | Err_dentry errno | Dentry 'd

datatype dcache_call = D_splice_alias vfs_inode | D_add "vfs_inode option"

type_synonym 'd lookup_cbdata = "'d dentry_ptr \<times> dcache_call list"

text \<open>The data of the callback is \<open>lc->result\<close>, with the calls made so far.\<close>

definition lookup_cb ::
  "(u8 \<Rightarrow> u8) \<Rightarrow> (vfs_inode \<Rightarrow> 'd dentry_ptr) \<Rightarrow> bool \<Rightarrow> bool \<Rightarrow> fat16_sb_info_t \<Rightarrow> u8 list
     \<Rightarrow> 'd lookup_cbdata dirent_cb" where
  "lookup_cb tolower d_splice_alias new_inode_ok kzalloc_ok sbi name de entry_sector entry_idx abs_idx lc =
     (if fat16_de_is_skip de then (0, lc)
      else if length (namebuf de) \<noteq> length name \<or> \<not> strncasecmp_eq tolower (namebuf de) name (length name)
           then (0, lc)
      else case fst (penguin_fat16_iget new_inode_ok kzalloc_ok (fat16_make_ino sbi entry_sector entry_idx) de) of
             Inl e \<Rightarrow> (1, Err_dentry e, snd lc)
           | Inr inode \<Rightarrow> (1, d_splice_alias inode, snd lc @ [D_splice_alias inode]))"

text \<open>
  The result is what \<open>lookup\<close> returns, and the calls made for the dentry. A result \<open>NULL\<close> of
  \<open>d_splice_alias\<close> is not told apart from no match.
\<close>

definition penguin_fat16_lookup ::
  "(u8 \<Rightarrow> u8) \<Rightarrow> (vfs_inode \<Rightarrow> 'd dentry_ptr) \<Rightarrow> bool \<Rightarrow> bool \<Rightarrow> bool \<Rightarrow> device \<Rightarrow> fat16_sb_info_t
     \<Rightarrow> fat16_inode_info_t \<Rightarrow> u8 list \<Rightarrow> 'd lookup_cbdata option" where
  "penguin_fat16_lookup tolower d_splice_alias new_inode_ok kzalloc_ok kmalloc_ok bread sbi fi name =
     (case fat16_dir_walk kmalloc_ok bread sbi fi (lookup_cb tolower d_splice_alias new_inode_ok kzalloc_ok sbi name)
             (Null_dentry, []) of
        None \<Rightarrow> None
      | Some (Inl e, _, calls) \<Rightarrow> Some (Err_dentry e, calls)
      | Some (Inr _, Null_dentry, calls) \<Rightarrow> Some (Null_dentry, calls @ [D_add None])
      | Some (Inr _, result, calls) \<Rightarrow> Some (result, calls))"

subsection \<open>Listing a directory (dir.c)\<close>

datatype d_type = DT_DIR | DT_REG

record dirent =
  d_name :: "u8 list"
  d_ino :: u64
  d_type_of :: d_type

text \<open>
  The data of the callback is the position and what has been emitted. \<open>dir_emit\<close> succeeds as long
  as the buffer of the user accepts the entry, which is the parameter \<open>accepts\<close>.
\<close>

definition dirent_of :: "fat16_sb_info_t \<Rightarrow> fat16_direntry_t \<Rightarrow> u32 \<Rightarrow> u32 \<Rightarrow> dirent" where
  "dirent_of sbi de entry_sector entry_idx =
     \<lparr>d_name = namebuf de, d_ino = fat16_make_ino sbi entry_sector entry_idx,
      d_type_of = (if fat16_de_is_dir de then DT_DIR else DT_REG)\<rparr>"

definition iterate_cb ::
  "(dirent list \<Rightarrow> dirent \<Rightarrow> bool) \<Rightarrow> fat16_sb_info_t \<Rightarrow> int \<Rightarrow> (int \<times> dirent list) dirent_cb" where
  "iterate_cb accepts sbi start_idx de entry_sector entry_idx abs_idx ctx =
     (case ctx of (pos, emitted) \<Rightarrow>
        if int (unat abs_idx) < start_idx then (0, (pos, emitted))
        else if fat16_de_is_skip de then (0, (pos + 1, emitted))
        else
          let d = dirent_of sbi de entry_sector entry_idx in
          if \<not> accepts emitted d then (1, (pos, emitted))
          else (0, (pos + 1, emitted @ [d])))"

text \<open>
  \<open>dir_emit_dots\<close> is a parameter: whether it succeeds, and the position and entries after it. The
  result is an error number or success, and the new position and entries.
\<close>

definition penguin_fat16_iterate_shared ::
  "(int \<times> dirent list \<Rightarrow> bool \<times> int \<times> dirent list) \<Rightarrow> (dirent list \<Rightarrow> dirent \<Rightarrow> bool) \<Rightarrow> bool
     \<Rightarrow> device \<Rightarrow> fat16_sb_info_t \<Rightarrow> fat16_inode_info_t \<Rightarrow> int \<times> dirent list
     \<Rightarrow> (errno option \<times> int \<times> dirent list) option" where
  "penguin_fat16_iterate_shared emit_dots accepts kmalloc_ok bread sbi fi ctx =
     (case emit_dots ctx of
        (False, ctx) \<Rightarrow> Some (None, ctx)
      | (True, ctx) \<Rightarrow>
          (case fat16_dir_walk kmalloc_ok bread sbi fi (iterate_cb accepts sbi (fst ctx - 2)) ctx of
             None \<Rightarrow> None
           | Some (Inl e, ctx) \<Rightarrow> Some (Some e, ctx)
           | Some (Inr _, ctx) \<Rightarrow> Some (None, ctx)))"

subsection \<open>Reading a file (file.c)\<close>

text \<open>
  The loop of \<open>penguin_fat16_read_iter\<close>. \<open>out\<close> is what has been copied to the user;
  \<open>copy_ok out n\<close> says whether the next \<open>n\<close> bytes can be copied. A cluster size of 0 or a faulting
  division is the result \<open>None\<close>.
\<close>

partial_function (option) read_loop ::
  "(u8 list \<Rightarrow> u64 \<Rightarrow> bool) \<Rightarrow> device \<Rightarrow> fat16_sb_info_t \<Rightarrow> u64 \<Rightarrow> u16 \<Rightarrow> u64 \<Rightarrow> u8 list
     \<Rightarrow> ((errno + u64) \<times> u8 list) option" where
  "read_loop copy_ok bread sbi bytes_requested cluster bytes_read out =
     (if bytes_read < bytes_requested \<and> ucast cluster < FAT16_FINAL_CLUSTER then
        (case fat16_read_cluster bread sbi (ucast cluster) of
           Inl e \<Rightarrow> Some (Inl EIO, out)
         | Inr buf \<Rightarrow>
             (let n = min (ucast (bytes_per_cluster sbi)) (bytes_requested - bytes_read) in
              if \<not> copy_ok out n then Some (Inl EIO, out)
              else
                case fat16_next_cluster bread sbi cluster of
                  None \<Rightarrow> None
                | Some (Inl e) \<Rightarrow> Some (Inl EIO, out @ take (unat n) buf)
                | Some (Inr cluster') \<Rightarrow>
                    read_loop copy_ok bread sbi bytes_requested cluster' (bytes_read + n)
                      (out @ take (unat n) buf)))
      else Some (Inr bytes_read, out))"

text \<open>
  \<open>count\<close> is \<open>iov_iter_count\<close>. The result is the number of bytes read or an error, the bytes copied
  to the user, and the new \<open>ki_pos\<close>. The difference of the file size and \<open>ki_pos\<close> is compared as an
  unsigned number of 64 bits.
\<close>

definition penguin_fat16_read_iter ::
  "(u8 list \<Rightarrow> u64 \<Rightarrow> bool) \<Rightarrow> bool \<Rightarrow> device \<Rightarrow> fat16_sb_info_t \<Rightarrow> fat16_inode_info_t \<Rightarrow> u64 \<Rightarrow> u64
     \<Rightarrow> ((errno + u64) \<times> u8 list \<times> u64) option" where
  "penguin_fat16_read_iter copy_ok kmalloc_ok bread sbi ino count ki_pos =
     (let bytes_requested = (if count > ucast (file_size ino) - ki_pos
                             then ucast (file_size ino) - ki_pos else count) in
      if \<not> kmalloc_ok then Some (Inl ENOMEM, [], ki_pos)
      else
        case read_loop copy_ok bread sbi bytes_requested (ucast (start_cluster ino)) 0 [] of
          None \<Rightarrow> None
        | Some (Inl e, out) \<Rightarrow> Some (Inl e, out, ki_pos)
        | Some (Inr n, out) \<Rightarrow> Some (Inr n, out, ki_pos + n))"

subsection \<open>Mounting (super.c)\<close>

record super_block =
  s_fs_info :: "fat16_sb_info_t option"
  s_magic :: u64
  s_rdonly :: bool
  s_blocksize :: u64
  s_blocksize_bits :: nat
  s_root :: bool

text \<open>The position of the highest bit of a number that is not zero.\<close>

fun ilog2 :: "nat \<Rightarrow> nat" where
  "ilog2 n = (if n \<le> 1 then 0 else Suc (ilog2 (n div 2)))"

declare ilog2.simps [simp del]

definition penguin_fat16_put_super :: "super_block \<Rightarrow> super_block \<times> fs_resource event list" where
  "penguin_fat16_put_super sb = (sb\<lparr>s_fs_info := None\<rparr>, [Release Sb_info])"

text \<open>\<open>clear_inode\<close> only marks the inode; the kernel frees it afterwards.\<close>

definition penguin_fat16_evict_inode :: "vfs_inode \<Rightarrow> vfs_inode \<times> fs_resource event list" where
  "penguin_fat16_evict_inode inode = (inode\<lparr>i_private := None\<rparr>, [Release Inode_info])"

text \<open>
  What the kernel returns: whether \<open>kzalloc\<close>, \<open>sb_set_blocksize\<close>, and the two allocations of the
  root inode succeed. \<open>d_make_root\<close> is a function of the pointer it is given, which is an error
  pointer when the inode could not be allocated.
\<close>

record fs_kernel =
  sbi_ok :: bool
  blocksize_ok :: bool
  root_inode_ok :: bool
  root_info_ok :: bool
  d_make_root :: "errno + vfs_inode \<Rightarrow> bool"

definition sbi_of_bpb :: "fat16_bpb_t \<Rightarrow> fat16_sb_info_t option" where
  "sbi_of_bpb bpb =
     map_option (\<lambda>data.
       \<lparr>fat_start = fat16_fat_sector bpb, root_dir_start = fat16_root_dir_sector bpb, data_start = data,
        sectors_per_cluster = ucast (bpb_sectors_per_cluster bpb),
        bytes_per_cluster = fat16_bytes_per_cluster bpb,
        root_dir_entries = ucast (bpb_root_dir_entries bpb),
        bytes_per_sector = bpb_bytes_per_sector bpb, fat_count = bpb_FAT_count bpb\<rparr>)
     (fat16_data_sector bpb)"

text \<open>
  The result is an error number or success, the superblock, what was acquired and released, and the
  pointer \<open>d_make_root\<close> was called with, if it was. An error pointer is not \<open>NULL\<close>.
\<close>

definition penguin_fat16_fill_super ::
  "fs_kernel \<Rightarrow> device \<Rightarrow> super_block
     \<Rightarrow> (errno option \<times> super_block \<times> fs_resource event list \<times> (errno + vfs_inode) option) option" where
  "penguin_fat16_fill_super k bread sb =
     (if \<not> sbi_ok k then Some (Some ENOMEM, sb, [], None)
      else
        let es = [Acquire Sb_info];
            err = (\<lambda>e sb es call. Some (Some e, sb\<lparr>s_fs_info := None\<rparr>, es @ [Release Sb_info], call))
        in if \<not> blocksize_ok k then err EINVAL sb es None
           else case bread 0 of
             None \<Rightarrow> err EIO sb es None
           | Some data \<Rightarrow>
               (case sbi_of_bpb (read_bpb data) of
                  None \<Rightarrow> None
                | Some sbi \<Rightarrow>
                    let es = es @ [Acquire Buffer_head, Release Buffer_head];
                        sb = sb\<lparr>s_fs_info := Some sbi, s_magic := fat16_fs_magic, s_rdonly := True,
                                s_blocksize := ucast (bytes_per_sector sbi),
                                s_blocksize_bits := ilog2 (unat (bytes_per_sector sbi))\<rparr>;
                        (root, res) = penguin_fat16_get_root_inode (root_inode_ok k) (root_info_ok k)
                    in if \<not> d_make_root k root
                       then err ENOMEM (sb\<lparr>s_root := False\<rparr>) (es @ res) (Some root)
                       else Some (None, sb\<lparr>s_root := True\<rparr>, es @ res, Some root)))"

subsection \<open>Registering the file system (main.c)\<close>

text \<open>\<open>ret\<close> is what \<open>register_filesystem\<close> returns, \<open>None\<close> for 0.\<close>

definition penguin_fat16_init :: "errno option \<Rightarrow> errno option \<times> fs_resource event list" where
  "penguin_fat16_init ret = (ret, case ret of None \<Rightarrow> [Acquire Fs_type] | Some _ \<Rightarrow> [])"

definition penguin_fat16_exit :: "fs_resource event list" where
  "penguin_fat16_exit = [Release Fs_type]"

text \<open>
  \<open>mount_bdev\<close> opens the device named and fills the superblock by the function it is given, here
  \<open>penguin_fat16_fill_super\<close>; it is a parameter.
\<close>

definition penguin_fat16_mount ::
  "((device \<Rightarrow> super_block \<Rightarrow> (errno option \<times> super_block \<times> fs_resource event list \<times> (errno + vfs_inode) option) option) \<Rightarrow> 'm)
     \<Rightarrow> fs_kernel \<Rightarrow> 'm" where
  "penguin_fat16_mount mount_bdev k = mount_bdev (penguin_fat16_fill_super k)"

end
