(* ===== verification/Fat16_Names.thy ===== *)
theory Fat16_Names
  imports Fat16_Fs
begin

section \<open>Names of the 8.3 form\<close>

text \<open>
  The two conversions in closed form: a name on the disk is a stem and an extension padded with
  spaces, a name in memory has a dot between them.
\<close>

lemma takeWhile_take_Suc:
  "i < n \<Longrightarrow> n \<le> length xs \<Longrightarrow>
   takeWhile P (take (n - i) (drop i xs)) =
     (if P (xs ! i) then xs ! i # takeWhile P (take (n - Suc i) (drop (Suc i) xs)) else [])"
  by (simp add: Cons_nth_drop_Suc [symmetric] take_Suc_conv_app_nth Suc_diff_Suc [symmetric])

lemma copy_name_eq:
  assumes "n \<le> length name83" "length out + (n - i) < unat outsz"
  shows "copy_name name83 outsz n i out = Some (out @ takeWhile (\<lambda>c. c \<noteq> SPACE) (take (n - i) (drop i name83)))"
  using assms
proof (induction name83 outsz n i out rule: copy_name.induct)
  case (1 name83 outsz n i out)
  show ?case
  proof (cases "i < n \<and> name83 ! i \<noteq> SPACE")
    case True
    have "length out < unat outsz - 1" using True 1(3) by linarith
    moreover have "unat (outsz - 1) = unat outsz - 1" using 1(3) by (intro unat_sub_one) auto
    ultimately have room: "\<not> outsz - 1 \<le> of_nat (length out)"
    proof -
      have "length out < 18446744073709551616" using \<open>length out < unat outsz - 1\<close> unat_lt64 [of outsz] by linarith
      then have "unat (of_nat (length out) :: u64) = length out" by (rule unat_of_nat64)
      then show ?thesis
        using \<open>length out < unat outsz - 1\<close> \<open>unat (outsz - 1) = unat outsz - 1\<close>
        unfolding word_le_nat_alt by linarith
    qed
    have "copy_name name83 outsz n (i + 1) (out @ [name83 ! i])
        = Some ((out @ [name83 ! i]) @ takeWhile (\<lambda>c. c \<noteq> SPACE) (take (n - (i + 1)) (drop (i + 1) name83)))"
      using 1(2,3) True room by (intro 1(1)) auto
    then show ?thesis
      using True room 1(2) takeWhile_take_Suc [of i n name83 "\<lambda>c. c \<noteq> SPACE"]
      by (simp add: copy_name.simps [of name83 outsz n i out])
  next
    case False
    then show ?thesis
      using 1(2) takeWhile_take_Suc [of i n name83 "\<lambda>c. c \<noteq> SPACE"]
      by (cases "i < n") (auto simp: copy_name.simps [of name83 outsz n i out])
  qed
qed

definition stem_of :: "u8 list \<Rightarrow> u8 list" where
  "stem_of name83 = takeWhile (\<lambda>c. c \<noteq> SPACE) (take 8 name83)"

definition ext_of :: "u8 list \<Rightarrow> u8 list" where
  "ext_of name83 = takeWhile (\<lambda>c. c \<noteq> SPACE) (take 3 (drop 8 name83))"

lemma length_stem_ext: "length (stem_of n) \<le> 8" "length (ext_of n) \<le> 3"
  using length_takeWhile_le [of _ "take 8 n"] length_takeWhile_le [of _ "take 3 (drop 8 n)"]
  by (auto simp: stem_of_def ext_of_def intro: order_trans)

lemma fat16_83_to_str_eq:
  assumes "length name83 = 11" "12 < unat outsz"
  shows "fat16_83_to_str name83 outsz =
    Some (stem_of name83 @ (if name83 ! 8 = SPACE then [] else DOT # ext_of name83))"
proof -
  note L = length_stem_ext [of name83]
  have "unat (outsz - 1) = unat outsz - 1" using assms(2) by (intro unat_sub_one) auto
  then have room: "\<not> outsz - 1 \<le> of_nat (length (stem_of name83))"
    using L(1) assms(2) by (simp add: word_le_nat_alt unat_of_nat64)
  have s: "copy_name name83 outsz 8 0 [] = Some (stem_of name83)"
    using assms by (subst copy_name_eq) (auto simp: stem_of_def)
  have e: "copy_name name83 outsz 11 8 (stem_of name83 @ [DOT]) = Some (stem_of name83 @ DOT # ext_of name83)"
    using assms L(1) by (subst copy_name_eq) (auto simp: ext_of_def)
  show ?thesis
    using s e room by (simp add: fat16_83_to_str_def FAT16_STEM_LEN_def FAT16_FILENAME_LEN_def)
qed

lemma namebuf_eq:
  "length (filename de) = 11 \<Longrightarrow>
   namebuf de = cstr8 (stem_of (filename de) @ (if filename de ! 8 = SPACE then [] else DOT # ext_of (filename de)))"
  by (simp add: namebuf_def fat16_83_to_str_eq)

lemma put_upper_eq:
  assumes "off + length s \<le> length out"
  shows "put_upper toupper off s out = take off out @ map toupper s @ drop (off + length s) out"
proof -
  have "fold (\<lambda>i out. out[off + i := toupper (s ! i)]) [0..<k] out
      = take off out @ map toupper (take k s) @ drop (off + k) out" if "k \<le> length s" for k
    using that
  proof (induction k)
    case (Suc k)
    have "drop (off + k) out = out ! (off + k) # drop (off + Suc k) out"
      using assms Suc.prems by (simp add: Cons_nth_drop_Suc)
    then show ?case
      using Suc assms by (simp add: list_update_append take_Suc_conv_app_nth)
  qed simp
  from this [of "length s"] show ?thesis by (simp add: put_upper_def)
qed

lemma cstr8_id: "0 \<notin> set s \<Longrightarrow> cstr8 s = s"
  by (auto simp: cstr8_def takeWhile_eq_all_conv)

lemma takeWhile_spaces: "SPACE \<notin> set s \<Longrightarrow> takeWhile (\<lambda>c. c \<noteq> SPACE) (s @ replicate k SPACE) = s"
  by (induction s) (auto simp: takeWhile_eq_Nil_iff)

text \<open>
  Every name on the disk, whatever its eleven bytes are, is converted within the buffer of 13
  bytes that the callbacks use for it, so that they can ignore the result of the conversion; a
  name has at most twelve bytes.
\<close>

theorem name_always_fits:
  assumes "length name83 = 11"
  shows "\<exists>s. fat16_83_to_str name83 13 = Some s \<and> length s \<le> 12
    \<and> s = takeWhile (\<lambda>c. c \<noteq> SPACE) (take 8 name83)
          @ (if name83 ! 8 = SPACE then [] else DOT # takeWhile (\<lambda>c. c \<noteq> SPACE) (drop 8 name83))"
  using length_stem_ext [of name83] fat16_83_to_str_eq [OF assms, of 13] assms
  by (simp add: stem_of_def ext_of_def)

theorem name_always_fits_witness:
  "\<exists>s. fat16_83_to_str [65, 66, 0x20, 0x20, 0x20, 0x20, 0x20, 0x20, 67, 0x20, 0x20] 13 = Some s \<and> length s \<le> 12"
  using name_always_fits [of "[65, 66, 0x20, 0x20, 0x20, 0x20, 0x20, 0x20, 67, 0x20, 0x20]"] by auto

text \<open>
  C28: a name without spaces and zero bytes, with a stem of at most eight bytes without a dot and an
  extension of one to three bytes, or without one, is converted to eleven bytes, and these back to the
  name in upper case, when \<open>toupper\<close> gives a space for a space only and leaves the dot as it is.
\<close>

theorem name_roundtrip:
  assumes "length stem \<le> 8" "DOT \<notin> set stem" "length ext \<le> 3"
    and "name = stem @ (if ext = [] then [] else DOT # ext)" "0 \<notin> set name" "SPACE \<notin> set name"
    and "\<forall>c. toupper c = SPACE \<longrightarrow> c = SPACE" "toupper DOT = DOT"
  shows "\<exists>name83. fat16_str_to_83 toupper name (of_nat (length name)) = Some name83 \<and> length name83 = 11
    \<and> fat16_83_to_str name83 13 = Some (map toupper name)"
proof -
  let ?n = "map toupper stem @ replicate (8 - length stem) SPACE @ map toupper ext @ replicate (3 - length ext) SPACE"
  have len: "length name \<le> 12" using assms(1,3,4) by simp
  then have u: "unat (of_nat (length name) :: u64) = length name" by (simp add: unat_of_nat64)
  have buf: "cstr8 (take (unat (of_nat (length name) :: u64)) name) = name"
    unfolding u using assms(5) by (simp add: cstr8_id)
  have stem: "takeWhile (\<lambda>c. c \<noteq> DOT) name = stem"
    and ext: "(case dropWhile (\<lambda>c. c \<noteq> DOT) name of [] \<Rightarrow> [] | _ # e \<Rightarrow> e) = ext"
    using assms(2,4) by (auto simp: takeWhile_append dropWhile_append takeWhile_eq_all_conv dropWhile_eq_Nil_conv)
  have "put_upper toupper 8 ext (put_upper toupper 0 stem (replicate 11 SPACE)) = ?n"
    using assms(1,3) by (subst put_upper_eq, simp add: put_upper_eq)+ (simp add: put_upper_eq drop_append take_append)
  then have c: "fat16_str_to_83 toupper name (of_nat (length name)) = Some ?n"
    unfolding fat16_str_to_83_def buf Let_def stem ext using assms(1,3) len u
    by (simp add: word_le_nat_alt FAT16_STEM_LEN_def FAT16_EXTENSION_LEN_def FAT16_FILENAME_LEN_def)
  have sp: "SPACE \<notin> set (map toupper stem)" "SPACE \<notin> set (map toupper ext)"
  proof -
    have "SPACE \<notin> set stem" "SPACE \<notin> set ext" using assms(4,6) by (auto split: if_splits)
    then show "SPACE \<notin> set (map toupper stem)" "SPACE \<notin> set (map toupper ext)"
      using assms(7) by (auto simp: image_iff) metis+
  qed
  have l: "length ?n = 11" using assms(1,3) by simp
  have "stem_of ?n = map toupper stem"
    unfolding stem_of_def using takeWhile_spaces [OF sp(1)] assms(1) by simp
  moreover have "ext_of ?n = map toupper ext"
    unfolding ext_of_def using takeWhile_spaces [OF sp(2)] assms(1,3) by simp
  moreover have "?n ! 8 = SPACE \<longleftrightarrow> ext = []"
    using assms(1,3) sp(2) by (cases ext) (auto simp: nth_append)
  ultimately have "fat16_83_to_str ?n 13 = Some (map toupper name)"
    using fat16_83_to_str_eq [OF l, of 13] assms(4,8) by simp
  then show ?thesis using c l by blast
qed

definition ascii_upper :: "u8 \<Rightarrow> u8" where
  "ascii_upper c = (if 97 \<le> c \<and> c \<le> 122 then c - 32 else c)"

lemma ascii_upper_space: "\<forall>c. ascii_upper c = SPACE \<longrightarrow> c = SPACE"
  by (auto simp: ascii_upper_def SPACE_def diff_eq_eq)

theorem name_roundtrip_witness:
  "\<exists>name83. fat16_str_to_83 ascii_upper [97, 66, 0x2E, 99] (of_nat (length [97, 66, 0x2E, 99 :: u8])) = Some name83
     \<and> fat16_83_to_str name83 13 = Some (map ascii_upper [97, 66, 0x2E, 99])"
proof -
  have "\<exists>name83. fat16_str_to_83 ascii_upper [97, 66, 0x2E, 99] (of_nat (length [97, 66, 0x2E, 99 :: u8])) = Some name83
     \<and> length name83 = 11 \<and> fat16_83_to_str name83 13 = Some (map ascii_upper [97, 66, 0x2E, 99])"
    by (rule name_roundtrip [of "[97, 66]" "[99]"])
      (simp_all add: SPACE_def [symmetric] ascii_upper_space, simp_all add: SPACE_def DOT_def ascii_upper_def)
  then show ?thesis by blast
qed

end
