(* ===== verification/Fat16_Walk.thy ===== *)
theory Fat16_Walk
  imports Fat16_Names
begin

section \<open>Directories as lists of entries\<close>

text \<open>
  The walk of a directory, root or not, is a loop over one list: all its entries with their
  positions, in order. This is the reference that \<open>lookup\<close> and \<open>iterate_shared\<close> are proved
  correct against.
\<close>

subsection \<open>The reference\<close>

type_synonym located = "fat16_direntry_t \<times> u32 \<times> u32"

fun run_entries :: "'s dirent_cb \<Rightarrow> located list \<Rightarrow> u32 \<times> 's \<Rightarrow> (u32 \<times> 's) flow" where
  "run_entries cb [] s = Next s"
| "run_entries cb ((de, sector, idx) # es) s =
     (if fat16_de_is_end de then Return (Inr 0) s
      else case cb de sector idx (fst s) (snd s) of
             (ret, data) \<Rightarrow>
               if ret \<noteq> 0 then Return (Inr ret) (fst s, data) else run_entries cb es (fst s + 1, data))"

definition walk_result :: "(u32 \<times> 's) flow \<Rightarrow> (errno + int) \<times> 's" where
  "walk_result f = (case f of Next s \<Rightarrow> (Inr 0, snd s) | Return r s \<Rightarrow> (r, snd s))"

lemma run_entries_append:
  "run_entries cb (xs @ ys) s =
     (case run_entries cb xs s of Next s' \<Rightarrow> run_entries cb ys s' | Return r s' \<Rightarrow> Return r s')"
  by (induction cb xs s rule: run_entries.induct) (auto split: prod.splits)

text \<open>The entries of a sector of the root directory, and of a cluster.\<close>

definition sector_entries :: "fat16_sb_info_t \<Rightarrow> u32 \<Rightarrow> u8 list \<Rightarrow> located list" where
  "sector_entries sbi sector data =
     map (\<lambda>i. (entry_at data i, sector, of_nat i)) [0..<unat (bytes_per_sector sbi) div 32]"

definition cluster_entries :: "fat16_sb_info_t \<Rightarrow> u16 \<Rightarrow> u8 list \<Rightarrow> located list" where
  "cluster_entries sbi c buf =
     map (\<lambda>i. (entry_at buf i,
               fat16_cluster_sector (data_start sbi) (ucast c) (sectors_per_cluster sbi)
                 + of_nat i div fat16_entries_per_sector (ucast (bytes_per_sector sbi)),
               of_nat i mod fat16_entries_per_sector (ucast (bytes_per_sector sbi))))
       [0..<unat (bytes_per_cluster sbi) div 32]"

text \<open>
  \<open>fat_chain bread sbi c cs\<close>: the clusters \<open>cs\<close>, given with their bytes, are all readable and
  chained in the FAT from \<open>c\<close> to a final mark.
\<close>

fun fat_chain :: "device \<Rightarrow> fat16_sb_info_t \<Rightarrow> u16 \<Rightarrow> (u16 \<times> u8 list) list \<Rightarrow> bool" where
  "fat_chain bread sbi c [] \<longleftrightarrow> FAT16_FINAL_CLUSTER \<le> ucast c"
| "fat_chain bread sbi c ((d, buf) # cs) \<longleftrightarrow>
     d = c \<and> ucast c < FAT16_FINAL_CLUSTER \<and> fat16_read_cluster bread sbi (ucast c) = Inr buf
       \<and> (case fat16_next_cluster bread sbi c of Some (Inr c') \<Rightarrow> fat_chain bread sbi c' cs | _ \<Rightarrow> False)"

text \<open>The entries of a directory whose sectors are all readable.\<close>

definition root_data :: "device \<Rightarrow> fat16_sb_info_t \<Rightarrow> u8 list list \<Rightarrow> bool" where
  "root_data bread sbi datas \<longleftrightarrow>
     fat16_root_sectors (root_dir_entries sbi) (ucast (bytes_per_sector sbi)) = Some (of_nat (length datas))
     \<and> length datas < 4294967296
     \<and> (\<forall>k<length datas. bread (root_dir_start sbi + of_nat k) = Some (datas ! k))"

definition root_listing :: "fat16_sb_info_t \<Rightarrow> u8 list list \<Rightarrow> located list" where
  "root_listing sbi datas =
     concat (map (\<lambda>k. sector_entries sbi (root_dir_start sbi + of_nat k) (datas ! k)) [0..<length datas])"

definition chain_listing :: "fat16_sb_info_t \<Rightarrow> (u16 \<times> u8 list) list \<Rightarrow> located list" where
  "chain_listing sbi cs = concat (map (\<lambda>(c, buf). cluster_entries sbi c buf) cs)"

inductive dir_listing :: "device \<Rightarrow> fat16_sb_info_t \<Rightarrow> fat16_inode_info_t \<Rightarrow> located list \<Rightarrow> bool"
  for bread sbi fi where
  root: "start_cluster fi = 0 \<Longrightarrow> root_data bread sbi datas \<Longrightarrow> dir_listing bread sbi fi (root_listing sbi datas)"
| chain: "start_cluster fi \<noteq> 0 \<Longrightarrow> 32 \<le> bytes_per_sector sbi
    \<Longrightarrow> fat_chain bread sbi (ucast (start_cluster fi)) cs \<Longrightarrow> dir_listing bread sbi fi (chain_listing sbi cs)"

subsection \<open>The walk follows the reference\<close>

lemma scan_entries_run:
  assumes "\<And>i. i \<in> set is \<Longrightarrow> pos (of_nat i) = Some (f i)"
  shows "scan_entries cb buf pos is s = Some (run_entries cb (map (\<lambda>i. (entry_at buf i, f i)) is) s)"
  using assms
proof (induction "is" arbitrary: s)
  case (Cons i "is")
  obtain sec idx where f: "f i = (sec, idx)" by fastforce
  have p: "pos (of_nat i) = Some (sec, idx)" using Cons.prems [of i] f by simp
  show ?case using Cons p f by (auto simp: Let_def split: prod.splits)
qed simp

lemma unat_ucast16: "unat (ucast (b :: u16) :: u32) = unat b"
  using unsigned_less [of b, where 'a = nat] by (simp add: unsigned_ucast_eq take_bit_nat_eq_self)

lemma eps_ucast: "unat (fat16_entries_per_sector (ucast (b :: u16))) = unat b div 32"
proof -
  show ?thesis by (simp add: fat16_entries_per_sector_def unat_div unat_ucast16)
qed

lemma walk_root_run:
  assumes "\<forall>k\<in>set ks. bread (root_dir_start sbi + of_nat k) = Some (datas ! k)"
  shows "walk_root cb bread sbi ks s =
    Some (walk_result (run_entries cb
      (concat (map (\<lambda>k. sector_entries sbi (root_dir_start sbi + of_nat k) (datas ! k)) ks)) s))"
  using assms
proof (induction ks arbitrary: s)
  case Nil
  then show ?case by (simp add: walk_result_def)
next
  case (Cons k ks)
  have sc: "scan_entries cb (datas ! k) (\<lambda>i. Some (root_dir_start sbi + of_nat k, i)) [0..<unat (bytes_per_sector sbi) div 32] s
      = Some (run_entries cb (sector_entries sbi (root_dir_start sbi + of_nat k) (datas ! k)) s)"
    unfolding sector_entries_def by (rule scan_entries_run) simp
  show ?case
    using Cons.IH Cons.prems sc
    by (auto simp: eps_ucast run_entries_append walk_result_def split: flow.splits)
qed

lemma cluster_scan:
  assumes "32 \<le> bytes_per_sector sbi"
  shows "scan_entries cb buf
      (\<lambda>i. case fat16_entry_sector cs i (fat16_entries_per_sector (ucast (bytes_per_sector sbi))) of
             None \<Rightarrow> None
           | Some sec \<Rightarrow> map_option (\<lambda>ix. (sec, ix)) (fat16_entry_idx i (fat16_entries_per_sector (ucast (bytes_per_sector sbi)))))
      [0..<unat (fat16_entries_per_cluster (bytes_per_cluster sbi))] s
    = Some (run_entries cb (map (\<lambda>i. (entry_at buf i,
         cs + of_nat i div fat16_entries_per_sector (ucast (bytes_per_sector sbi)),
         of_nat i mod fat16_entries_per_sector (ucast (bytes_per_sector sbi))))
         [0..<unat (bytes_per_cluster sbi) div 32]) s)"
proof -
  let ?eps = "fat16_entries_per_sector (ucast (bytes_per_sector sbi))"
  have "32 \<le> unat (bytes_per_sector sbi)" using assms by (simp add: word_le_nat_alt)
  then have "unat ?eps \<noteq> 0" unfolding eps_ucast by simp
  then have e: "?eps \<noteq> 0" by auto
  have c: "unat (fat16_entries_per_cluster (bytes_per_cluster sbi)) = unat (bytes_per_cluster sbi) div 32"
    by (simp add: fat16_entries_per_cluster_def unat_div)
  show ?thesis
    unfolding c using e
    by (intro scan_entries_run) (simp add: fat16_entry_sector_def fat16_entry_idx_def udiv_def)
qed

lemma walk_chain_run:
  assumes "32 \<le> bytes_per_sector sbi" "fat_chain bread sbi c cs"
  shows "walk_chain cb bread sbi c s = Some (walk_result (run_entries cb (chain_listing sbi cs) s))"
  using assms(2)
proof (induction cs arbitrary: c s)
  case Nil
  then show ?case
    by (simp add: walk_chain.simps [of cb bread sbi c s] chain_listing_def walk_result_def not_less [symmetric])
next
  case (Cons x cs)
  obtain d buf where x: "x = (d, buf)" by fastforce
  obtain c' where C: "d = c" "ucast c < FAT16_FINAL_CLUSTER" "fat16_read_cluster bread sbi (ucast c) = Inr buf"
    "fat16_next_cluster bread sbi c = Some (Inr c')" "fat_chain bread sbi c' cs"
    using Cons.prems by (auto simp: x split: option.splits sum.splits)
  let ?r = "run_entries cb (cluster_entries sbi c buf) s"
  have sc: "walk_chain cb bread sbi c s =
      (case ?r of Return r s \<Rightarrow> Some (r, snd s) | Next s \<Rightarrow> walk_chain cb bread sbi c' s)"
    unfolding walk_chain.simps [of cb bread sbi c s] using C(2-4)
    by (simp add: Let_def cluster_scan [OF assms(1)] cluster_entries_def split: flow.splits)
  have l: "chain_listing sbi (x # cs) = cluster_entries sbi c buf @ chain_listing sbi cs"
    using C(1) by (simp add: chain_listing_def x)
  show ?case
    unfolding sc l run_entries_append
    using Cons.IH [OF C(5)] by (auto simp: walk_result_def split: flow.splits)
qed

lemma dir_walk_run:
  assumes "dir_listing bread sbi fi es"
  shows "fat16_dir_walk True bread sbi fi cb data = Some (walk_result (run_entries cb es (0, data)))"
  using assms
proof cases
  case (root datas)
  then have "unat (of_nat (length datas) :: u32) = length datas" by (simp add: root_data_def unat_of_nat)
  moreover have "walk_root cb bread sbi [0..<length datas] (0, data) =
      Some (walk_result (run_entries cb (root_listing sbi datas) (0, data)))"
    unfolding root_listing_def using root(3) by (intro walk_root_run) (simp add: root_data_def)
  ultimately show ?thesis using root by (simp add: fat16_dir_walk_def root_data_def)
next
  case (chain cs)
  then show ?thesis by (simp add: fat16_dir_walk_def walk_chain_run)
qed

subsection \<open>A disk\<close>

text \<open>
  Sectors of 32 bytes: the boot sector, of which 512 bytes are read; the FAT in sector 1, where cluster 2 is chained to itself and cluster 3 is
  final; the root directory in sectors 2 and 3, with one file \<open>A\<close>; and the clusters from sector 4.
\<close>

definition demo_sbi :: fat16_sb_info_t where
  "demo_sbi = \<lparr>fat_start = 1, root_dir_start = 2, data_start = 4, sectors_per_cluster = 1,
     bytes_per_cluster = 32, root_dir_entries = 2, bytes_per_sector = 32, fat_count = 1\<rparr>"

definition demo_entry :: "u8 list" where
  "demo_entry = [65, 32, 32, 32, 32, 32, 32, 32, 32, 32, 32, 0, 0, 0, 0, 0,
                 0, 0, 0, 0, 0, 0, 0, 0, 0, 0, 3, 0, 20, 0, 0, 0]"

definition demo_boot :: "u8 list" where
  "demo_boot = replicate 11 0 @ [32, 0, 1, 1, 0, 1, 2, 0, 0, 0, 0, 1, 0] @ replicate 488 0"

definition demo_disk :: device where
  "demo_disk s =
     (if s = 0 then Some demo_boot
      else if s = 1 then Some ([0, 0, 0, 0, 2, 0, 255, 255] @ replicate 24 0)
      else if s = 2 \<or> s = 4 then Some demo_entry
      else if s = 3 then Some (replicate 32 0)
      else if s = 5 then Some (map of_nat [100..<132])
      else None)"

definition demo_root :: "located list" where
  "demo_root = root_listing demo_sbi [demo_entry, replicate 32 0]"

lemma demo_root_data: "root_data demo_disk demo_sbi [demo_entry, replicate 32 0]"
  by (auto simp: root_data_def fat16_root_sectors_def udiv_def demo_sbi_def demo_disk_def less_Suc_eq)

lemma demo_root_listing: "dir_listing demo_disk demo_sbi \<lparr>start_cluster = 0, file_size = 0\<rparr> demo_root"
  unfolding demo_root_def using demo_root_data by (intro dir_listing.root) simp_all

lemma demo_root_eq: "demo_root = [(read_direntry demo_entry, 2, 0), (read_direntry (replicate 32 0), 3, 0)]"
  by (simp add: demo_root_def root_listing_def sector_entries_def demo_sbi_def entry_at_def demo_entry_def)

text \<open>
  C15: the walk of a directory, of the root as well as of any other with a proper chain of
  clusters, calls the callback for exactly its entries up to the end mark, in order, with their
  true positions, until a call does not return 0.
\<close>

theorem dir_walk_reference:
  assumes "dir_listing bread sbi fi es"
  shows "fat16_dir_walk True bread sbi fi cb data = Some (walk_result (run_entries cb es (0, data)))"
  by (rule dir_walk_run [OF assms])

theorem dir_walk_reference_witness:
  "fat16_dir_walk True demo_disk demo_sbi \<lparr>start_cluster = 0, file_size = 0\<rparr> (\<lambda>_ sector _ _ n. (0, n + unat sector)) 0
     = Some (Inr 0, 2)"
  unfolding dir_walk_reference [OF demo_root_listing]
  by (simp add: demo_root_eq walk_result_def fat16_de_is_end_def read_direntry_def demo_entry_def)

end
