(* ===== verification/Fat16_Dirs.thy ===== *)
theory Fat16_Dirs
  imports Fat16_Walk
begin

section \<open>Looking up and listing\<close>

text \<open>The entries before the end mark.\<close>

definition used_entries :: "located list \<Rightarrow> located list" where
  "used_entries es = takeWhile (\<lambda>e. \<not> fat16_de_is_end (fst e)) es"

lemma used_entries_Cons [simp]:
  "used_entries (e # es) = (if fat16_de_is_end (fst e) then [] else e # used_entries es)"
  by (simp add: used_entries_def)

lemma demo_root_used: "used_entries demo_root = [(read_direntry demo_entry, 2, 0)]"
  by (simp add: demo_root_eq fat16_de_is_end_def read_direntry_def demo_entry_def)

lemma demo_name: "namebuf (read_direntry demo_entry) = [65]"
  by (simp add: namebuf_eq read_direntry_def demo_entry_def stem_of_def ext_of_def SPACE_def cstr8_def)

lemma demo_shown: "\<not> fat16_de_is_skip (read_direntry demo_entry)"
  by (simp add: fat16_de_is_skip_def read_direntry_def demo_entry_def FAT16_DELETED_MAGIC_def FAT16_ATTR_LFN_def)

subsection \<open>lookup\<close>

definition name_matches :: "(u8 \<Rightarrow> u8) \<Rightarrow> u8 list \<Rightarrow> located \<Rightarrow> bool" where
  "name_matches tolower name e \<longleftrightarrow> \<not> fat16_de_is_skip (fst e)
     \<and> length (namebuf (fst e)) = length name \<and> strncasecmp_eq tolower (namebuf (fst e)) name (length name)"

text \<open>The inode of an entry, or the error of its allocation.\<close>

definition open_entry :: "bool \<Rightarrow> bool \<Rightarrow> fat16_sb_info_t \<Rightarrow> located \<Rightarrow> errno + vfs_inode" where
  "open_entry new_inode_ok kzalloc_ok sbi e =
     fst (penguin_fat16_iget new_inode_ok kzalloc_ok (fat16_make_ino sbi (fst (snd e)) (snd (snd e))) (fst e))"

text \<open>
  What a lookup leaves: the pointer returned and the calls for the dentry, for no matching entry or the
  first one.
\<close>

definition lookup_outcome ::
  "(vfs_inode \<Rightarrow> 'd dentry_ptr) \<Rightarrow> (errno + vfs_inode) option \<Rightarrow> 'd lookup_cbdata" where
  "lookup_outcome d_splice_alias opened =
     (case opened of
        None \<Rightarrow> (Null_dentry, [D_add None])
      | Some (Inl e) \<Rightarrow> (Err_dentry e, [])
      | Some (Inr inode) \<Rightarrow>
          (d_splice_alias inode, D_splice_alias inode # (if d_splice_alias inode = Null_dentry then [D_add None] else [])))"

lemma lookup_run:
  "walk_result (run_entries (lookup_cb tolower d_splice_alias ni ki sbi name) es (ab, Null_dentry, [])) =
     (case find (name_matches tolower name) (used_entries es) of
        None \<Rightarrow> (Inr 0, Null_dentry, [])
      | Some e \<Rightarrow> (case open_entry ni ki sbi e of
           Inl err \<Rightarrow> (Inr 1, Err_dentry err, [])
         | Inr inode \<Rightarrow> (Inr 1, d_splice_alias inode, [D_splice_alias inode])))"
proof (induction es arbitrary: ab)
  case Nil
  then show ?case by (simp add: walk_result_def used_entries_def)
next
  case (Cons e es)
  obtain de sec idx where e: "e = (de, sec, idx)" by (metis prod_cases3)
  show ?case
    using Cons by (auto simp: e lookup_cb_def name_matches_def open_entry_def walk_result_def split: sum.splits)
qed

lemma lookup_finds:
  assumes "dir_listing bread sbi fi es"
  shows "penguin_fat16_lookup tolower d_splice_alias new_inode_ok kzalloc_ok True bread sbi fi name =
    Some (lookup_outcome d_splice_alias
      (map_option (open_entry new_inode_ok kzalloc_ok sbi) (find (name_matches tolower name) (used_entries es))))"
  unfolding penguin_fat16_lookup_def dir_walk_run [OF assms] lookup_run
  by (auto simp: lookup_outcome_def split: option.splits sum.splits dentry_ptr.splits)

text \<open>
  C16: a lookup in a directory with readable sectors and a proper chain of clusters opens exactly
  the first entry before the end mark that is neither deleted, nor a volume label, nor part of a
  long name, and whose name is the one looked for up to case: its inode is given to
  \<open>d_splice_alias\<close>, whose result is the result of the lookup, or an error pointer is returned when
  it could not be allocated. When no entry matches, the dentry is added as a negative one. When the
  result of \<open>d_splice_alias\<close> is \<open>NULL\<close>, as it is when the inode has been attached to the dentry, the
  code goes on as if no entry had matched: it adds the dentry once more, as a negative one.
\<close>

theorem lookup_first_match:
  assumes "dir_listing bread sbi fi es"
  shows "penguin_fat16_lookup tolower d_splice_alias new_inode_ok kzalloc_ok True bread sbi fi name =
    Some (case find (name_matches tolower name) (used_entries es) of
            None \<Rightarrow> (Null_dentry, [D_add None])
          | Some e \<Rightarrow> (case open_entry new_inode_ok kzalloc_ok sbi e of
              Inl err \<Rightarrow> (Err_dentry err, [])
            | Inr inode \<Rightarrow>
                (d_splice_alias inode, D_splice_alias inode # (if d_splice_alias inode = Null_dentry then [D_add None] else []))))"
  unfolding lookup_finds [OF assms] by (simp add: lookup_outcome_def split: option.splits sum.splits)

text \<open>An ordinary lookup, of a file that exists, and one of a file that does not.\<close>

theorem lookup_first_match_witness:
  "\<exists>inode. open_entry True True demo_sbi (read_direntry demo_entry, 2, 0) = Inr inode
     \<and> penguin_fat16_lookup (\<lambda>c. c) (\<lambda>_. Null_dentry :: nat dentry_ptr) True True True demo_disk demo_sbi
         \<lparr>start_cluster = 0, file_size = 0\<rparr> [65] = Some (Null_dentry, [D_splice_alias inode, D_add None])
     \<and> penguin_fat16_lookup (\<lambda>c. c) (\<lambda>_. Null_dentry :: nat dentry_ptr) True True True demo_disk demo_sbi
         \<lparr>start_cluster = 0, file_size = 0\<rparr> [66] = Some (Null_dentry, [D_add None])"
proof -
  obtain inode where i: "open_entry True True demo_sbi (read_direntry demo_entry, 2, 0) = Inr inode"
    by (simp add: open_entry_def penguin_fat16_iget_def Let_def)
  note L = lookup_first_match [OF demo_root_listing, of "\<lambda>c. c" "\<lambda>_. Null_dentry :: nat dentry_ptr" True True]
  show ?thesis
    using L [of "[65]"] L [of "[66]"] i
    by (simp add: demo_root_used name_matches_def demo_name demo_shown strncasecmp_eq_def cstr8_def)
qed

subsection \<open>iterate_shared\<close>

definition shown :: "located \<Rightarrow> bool" where
  "shown e \<longleftrightarrow> \<not> fat16_de_is_skip (fst e)"

definition entry_dirent :: "fat16_sb_info_t \<Rightarrow> located \<Rightarrow> dirent" where
  "entry_dirent sbi e = dirent_of sbi (fst e) (fst (snd e)) (snd (snd e))"

lemma iterate_cb_before: "int (unat ab) < start \<Longrightarrow> iterate_cb accepts sbi start de sec idx ab ctx = (0, ctx)"
  by (cases ctx) (simp add: iterate_cb_def)

lemma iterate_skip:
  assumes "int (unat ab + length xs) \<le> start" "unat ab + length xs < 4294967296"
    "\<forall>e\<in>set xs. \<not> fat16_de_is_end (fst e)"
  shows "run_entries (iterate_cb accepts sbi start) (xs @ ys) (ab, ctx) =
    run_entries (iterate_cb accepts sbi start) ys (ab + of_nat (length xs), ctx)"
  using assms
proof (induction xs arbitrary: ab)
  case (Cons e xs)
  obtain de sec idx where e: "e = (de, sec, idx)" by (metis prod_cases3)
  have u: "unat (ab + 1) = unat ab + 1"
    using Cons.prems(2) by (subst unat_add_lem [THEN iffD1]) auto
  have "run_entries (iterate_cb accepts sbi start) (xs @ ys) (ab + 1, ctx) =
      run_entries (iterate_cb accepts sbi start) ys (ab + 1 + of_nat (length xs), ctx)"
    using Cons.prems by (intro Cons.IH) (auto simp: u)
  then show ?case
    using Cons.prems by (simp add: e iterate_cb_before add.assoc)
qed simp

lemma iterate_emit:
  assumes "start \<le> int (unat ab)" "unat ab + length xs < 4294967296"
    "\<forall>e\<in>set xs. \<not> fat16_de_is_end (fst e)" "ys = [] \<or> fat16_de_is_end (fst (hd ys))"
  shows "\<exists>n \<le> length xs. \<exists>r.
      walk_result (run_entries (iterate_cb accepts sbi start) (xs @ ys) (ab, pos, em)) =
        (Inr r, pos + int n, em @ map (entry_dirent sbi) (filter shown (take n xs)))
    \<and> (n < length xs \<longrightarrow> shown (xs ! n)
         \<and> \<not> accepts (em @ map (entry_dirent sbi) (filter shown (take n xs))) (entry_dirent sbi (xs ! n)))"
  using assms
proof (induction xs arbitrary: ab pos em)
  case Nil
  then show ?case by (cases ys) (auto simp: walk_result_def)
next
  case (Cons e xs)
  obtain de sec idx where e: "e = (de, sec, idx)" by (metis prod_cases3)
  have u: "unat (ab + 1) = unat ab + 1"
    using Cons.prems(2) by (subst unat_add_lem [THEN iffD1]) auto
  let ?run = "run_entries (iterate_cb accepts sbi start)"
  have end': "\<not> fat16_de_is_end de" using Cons.prems(3) by (simp add: e)
  show ?case
  proof (cases "shown e \<and> \<not> accepts em (entry_dirent sbi e)")
    case True
    then have "walk_result (?run ((e # xs) @ ys) (ab, pos, em)) = (Inr 1, pos, em)"
      using Cons.prems(1) end' by (simp add: e iterate_cb_def shown_def entry_dirent_def walk_result_def)
    then show ?thesis using True by (intro exI [of _ 0]) auto
  next
    case False
    let ?em = "if shown e then em @ [entry_dirent sbi e] else em"
    have s: "?run ((e # xs) @ ys) (ab, pos, em) = ?run (xs @ ys) (ab + 1, pos + 1, ?em)"
      using Cons.prems(1) end' False
      by (auto simp: e iterate_cb_def shown_def entry_dirent_def Let_def)
    obtain n r where n: "n \<le> length xs"
      "walk_result (?run (xs @ ys) (ab + 1, pos + 1, ?em)) =
        (Inr r, pos + 1 + int n, ?em @ map (entry_dirent sbi) (filter shown (take n xs)))"
      "n < length xs \<longrightarrow> shown (xs ! n)
         \<and> \<not> accepts (?em @ map (entry_dirent sbi) (filter shown (take n xs))) (entry_dirent sbi (xs ! n))"
      using Cons.IH [of "ab + 1" "pos + 1" ?em] Cons.prems u by auto
    show ?thesis using n s by (intro exI [of _ "Suc n"]) auto
  qed
qed

text \<open>
  C19: listing a directory can be done in pieces. Continued at position \<open>k + 2\<close> of a directory with
  readable sectors and a proper chain of clusters, a listing emits, in order, the entries from the
  \<open>k\<close>-th on that are to be shown, up to the first one the user's buffer does not accept or to the
  end mark, and leaves the position exactly there, so that the next call goes on with it.
\<close>

theorem iterate_resumes:
  assumes "dir_listing bread sbi fi es" "length es < 4294967296"
    and "emit_dots ctx = (True, int k + 2, em)" "k \<le> length (used_entries es)"
  shows "\<exists>n. k \<le> n \<and> n \<le> length (used_entries es)
    \<and> penguin_fat16_iterate_shared emit_dots accepts True bread sbi fi ctx =
        Some (None, int n + 2,
          em @ map (entry_dirent sbi) (filter shown (take (n - k) (drop k (used_entries es)))))
    \<and> (n < length (used_entries es) \<longrightarrow> shown (used_entries es ! n)
         \<and> \<not> accepts (em @ map (entry_dirent sbi) (filter shown (take (n - k) (drop k (used_entries es)))))
             (entry_dirent sbi (used_entries es ! n)))"
proof -
  let ?u = "used_entries es" and ?cb = "iterate_cb accepts sbi (int k)"
  let ?ys = "dropWhile (\<lambda>e. \<not> fat16_de_is_end (fst e)) es"
  have es: "es = take k ?u @ drop k ?u @ ?ys"
    by (metis append.assoc append_take_drop_id takeWhile_dropWhile_id used_entries_def)
  have ne: "\<forall>e\<in>set ?u. \<not> fat16_de_is_end (fst e)" by (auto simp: used_entries_def dest: set_takeWhileD)
  have len: "length ?u < 4294967296"
    using assms(2) length_takeWhile_le [of "\<lambda>e. \<not> fat16_de_is_end (fst e)" es]
    unfolding used_entries_def by linarith
  have ys: "?ys = [] \<or> fat16_de_is_end (fst (hd ?ys))"
    using hd_dropWhile [of "\<lambda>e. \<not> fat16_de_is_end (fst e)" es] by auto
  have k: "length (take k ?u) = k" using assms(4) by simp
  have "run_entries ?cb es (0, int k + 2, em) = run_entries ?cb (drop k ?u @ ?ys) (of_nat k, int k + 2, em)"
    using iterate_skip [of 0 "take k ?u" "int k" accepts sbi "drop k ?u @ ?ys" "(int k + 2, em)"] k assms(4) len ne
    by (subst es) (auto dest: in_set_takeD)
  moreover have uk: "unat (of_nat k :: u32) = k" using assms(4) len by (simp add: unat_of_nat)
  ultimately obtain n r where n: "n \<le> length (drop k ?u)"
    "walk_result (run_entries ?cb es (0, int k + 2, em)) =
      (Inr r, int k + 2 + int n, em @ map (entry_dirent sbi) (filter shown (take n (drop k ?u))))"
    "n < length (drop k ?u) \<longrightarrow> shown (drop k ?u ! n)
       \<and> \<not> accepts (em @ map (entry_dirent sbi) (filter shown (take n (drop k ?u)))) (entry_dirent sbi (drop k ?u ! n))"
    using iterate_emit [of "int k" "of_nat k" "drop k ?u" ?ys accepts sbi "int k + 2" em] ys ne len assms(4)
    by (auto dest: in_set_dropD)
  have w: "fat16_dir_walk True bread sbi fi ?cb (int k + 2, em) =
      Some (Inr r, int k + 2 + int n, em @ map (entry_dirent sbi) (filter shown (take n (drop k ?u))))"
    using dir_walk_run [OF assms(1), of ?cb "(int k + 2, em)"] n(2) by simp
  show ?thesis
    using assms(3,4) n(1,3) w
    by (intro exI [of _ "k + n"]) (simp add: penguin_fat16_iterate_shared_def algebra_simps)
qed

theorem iterate_resumes_witness:
  "penguin_fat16_iterate_shared (\<lambda>ctx. (True, ctx)) (\<lambda>_ _. True) True demo_disk demo_sbi
     \<lparr>start_cluster = 0, file_size = 0\<rparr> (2, []) = Some (None, 3, [entry_dirent demo_sbi (read_direntry demo_entry, 2, 0)])"
proof -
  have "length demo_root < 4294967296" by (simp add: demo_root_eq)
  then show ?thesis
    using iterate_resumes [OF demo_root_listing, of "\<lambda>ctx. (True, ctx)" "(2, [])" 0 "[]" "\<lambda>_ _. True"]
    by (auto simp: demo_root_used shown_def demo_shown le_Suc_eq)
qed

end
