(* ===== verification/Fat16_Files.thy ===== *)
theory Fat16_Files
  imports Fat16_Dirs
begin

section \<open>Reading files, and chains of clusters that are cyclic\<close>

subsection \<open>What a read returns\<close>

definition chain_bytes :: "(u16 \<times> u8 list) list \<Rightarrow> u8 list" where
  "chain_bytes cs = concat (map snd cs)"

lemma chain_bytes_Cons [simp]: "chain_bytes ((c, buf) # cs) = buf @ chain_bytes cs"
  by (simp add: chain_bytes_def)

lemma unat_ucast32: "unat (ucast (b :: u32) :: u64) = unat b"
  using unsigned_less [of b, where 'a = nat] by (simp add: unsigned_ucast_eq take_bit_nat_eq_self)

lemma read_loop_chain:
  assumes "fat_chain bread sbi c cs" "\<forall>x\<in>set cs. length (snd x) = unat (bytes_per_cluster sbi)"
    and "\<And>out n. copy_ok out n" "b \<le> R"
  shows "\<exists>b'. read_loop copy_ok bread sbi R c b out = Some (Inr b', out @ take (unat R - unat b) (chain_bytes cs))
    \<and> unat b' = unat b + min (unat R - unat b) (length (chain_bytes cs))"
  using assms(1,2,4)
proof (induction cs arbitrary: c b out)
  case Nil
  then show ?case
    by (simp add: read_loop.simps [of copy_ok bread sbi R c b out] not_less [symmetric] chain_bytes_def)
next
  case (Cons x cs)
  obtain d buf where x: "x = (d, buf)" by fastforce
  obtain c' where C: "ucast c < FAT16_FINAL_CLUSTER" "fat16_read_cluster bread sbi (ucast c) = Inr buf"
    "fat16_next_cluster bread sbi c = Some (Inr c')" "fat_chain bread sbi c' cs"
    using Cons.prems(1) by (auto simp: x split: option.splits sum.splits)
  have bl: "length buf = unat (bytes_per_cluster sbi)" using Cons.prems(2) by (simp add: x)
  show ?case
  proof (cases "b < R")
    case True
    let ?n = "min (ucast (bytes_per_cluster sbi)) (R - b)"
    have d: "unat (R - b) = unat R - unat b" using Cons.prems(3) by (intro unat_sub64) (simp add: word_le_nat_alt)
    have n: "unat ?n = min (length buf) (unat R - unat b)"
      by (simp add: min_def d bl unat_ucast32 word_le_nat_alt)
    have "unat b + unat ?n \<le> unat R" unfolding n using Cons.prems(3) unfolding word_le_nat_alt by linarith
    then have bn: "unat (b + ?n) = unat b + unat ?n" using unat_lt64 [of R] by (intro unat_add64) linarith
    have le: "b + ?n \<le> R" using Cons.prems(3) bn n by (simp add: word_le_nat_alt)
    have "read_loop copy_ok bread sbi R c b out =
        read_loop copy_ok bread sbi R c' (b + ?n) (out @ take (unat ?n) buf)"
      using True C assms(3) by (simp add: read_loop.simps [of copy_ok bread sbi R c b out] Let_def)
    moreover obtain b' where
      "read_loop copy_ok bread sbi R c' (b + ?n) (out @ take (unat ?n) buf) =
        Some (Inr b', (out @ take (unat ?n) buf) @ take (unat R - unat (b + ?n)) (chain_bytes cs))"
      "unat b' = unat (b + ?n) + min (unat R - unat (b + ?n)) (length (chain_bytes cs))"
      using Cons.IH [OF C(4) _ le] Cons.prems(2) by fastforce
    ultimately show ?thesis
      unfolding bn n by (auto simp: x min_def)
  next
    case False
    then have "b = R" using Cons.prems(3) by simp
    then show ?thesis by (simp add: read_loop.simps [of copy_ok bread sbi R c R out])
  qed
qed

lemma read_iter_bytes:
  assumes "fat_chain bread sbi (ucast (start_cluster ino)) cs"
    and "\<forall>x\<in>set cs. length (snd x) = unat (bytes_per_cluster sbi)" "\<forall>out n. copy_ok out n"
    and "unat (file_size ino) \<le> length (chain_bytes cs)"
  shows "\<exists>n.
      penguin_fat16_read_iter copy_ok True bread sbi ino count pos =
        Some (Inr n, take (unat n) (chain_bytes cs), pos + n)
    \<and> (unat pos \<le> unat (file_size ino) \<longrightarrow> unat n = min (unat count) (unat (file_size ino) - unat pos))
    \<and> (unat (file_size ino) < unat pos \<longrightarrow>
         unat n = min (min (unat count) (18446744073709551616 + unat (file_size ino) - unat pos)) (length (chain_bytes cs)))"
proof -
  let ?s = "ucast (file_size ino) :: u64"
  let ?R = "if count > ?s - pos then ?s - pos else count"
  have s: "unat ?s = unat (file_size ino)" by (rule unat_ucast32)
  have R: "unat ?R = min (unat count) (unat (?s - pos))" by (simp add: min_def word_less_nat_alt)
  obtain n where n: "read_loop copy_ok bread sbi ?R (ucast (start_cluster ino)) 0 [] =
      Some (Inr n, take (unat ?R) (chain_bytes cs))" "unat n = min (unat ?R) (length (chain_bytes cs))"
    using read_loop_chain [OF assms(1,2), of copy_ok 0 ?R "[]"] assms(3) by auto
  have le: "unat (?s - pos) = unat (file_size ino) - unat pos" if "unat pos \<le> unat (file_size ino)"
    using that unat_sub64 [of pos ?s] s by simp
  have gt: "unat (?s - pos) = 18446744073709551616 + unat (file_size ino) - unat pos" if "unat (file_size ino) < unat pos"
    using that s unat_lt64 [of pos] by (simp add: unat_sub_if' word_le_nat_alt)
  have t: "take (unat ?R) (chain_bytes cs) = take (unat n) (chain_bytes cs)" unfolding n(2) by (simp add: min_def)
  have "penguin_fat16_read_iter copy_ok True bread sbi ino count pos =
      Some (Inr n, take (unat n) (chain_bytes cs), pos + n)"
    unfolding penguin_fat16_read_iter_def Let_def n(1) t by simp
  then show ?thesis using n(2) R le gt assms(4) by (intro exI [of _ n]) auto
qed

text \<open>
  C18: a read of a file with a proper chain of clusters, whose position is not beyond the end,
  returns as many bytes as are asked for, at most those from the position to the end, and advances
  the position by that; but the bytes are the first ones of the file, wherever the position is. At
  a position beyond the end the read does not return 0: the limit wraps around, and the read
  returns the bytes of all clusters.
\<close>

theorem read_iter_content:
  assumes "fat_chain bread sbi (ucast (start_cluster ino)) cs"
    and "\<forall>x\<in>set cs. length (snd x) = unat (bytes_per_cluster sbi)" "\<forall>out n. copy_ok out n"
    and "unat (file_size ino) \<le> length (chain_bytes cs)"
  shows "\<exists>n.
      penguin_fat16_read_iter copy_ok True bread sbi ino count pos =
        Some (Inr n, take (unat n) (chain_bytes cs), pos + n)
    \<and> (unat pos \<le> unat (file_size ino) \<longrightarrow> unat n = min (unat count) (unat (file_size ino) - unat pos))
    \<and> (unat (file_size ino) < unat pos \<longrightarrow>
         unat n = min (min (unat count) (18446744073709551616 + unat (file_size ino) - unat pos)) (length (chain_bytes cs)))"
  by (rule read_iter_bytes [OF assms])

lemma demo_next: "fat16_next_cluster demo_disk demo_sbi 3 = Some (Inr 65535)" "fat16_next_cluster demo_disk demo_sbi 2 = Some (Inr 2)"
  by (simp_all add: fat16_next_cluster_def demo_sbi_def udiv_def demo_disk_def le16_def Let_def)

lemma demo_clusters: "fat16_read_cluster demo_disk demo_sbi 3 = Inr (map of_nat [100..<132])"
  "fat16_read_cluster demo_disk demo_sbi 2 = Inr demo_entry"
  by (simp_all add: fat16_read_cluster_def demo_sbi_def demo_disk_def FAT16_FINAL_CLUSTER_def fat16_cluster_sector_def
      demo_entry_def)

theorem read_iter_content_witness:
  "\<exists>n. penguin_fat16_read_iter (\<lambda>_ _. True) True demo_disk demo_sbi \<lparr>start_cluster = 3, file_size = 20\<rparr> 5 10 =
      Some (Inr n, take (unat n) (map of_nat [100..<132]), 10 + n) \<and> unat n = 5"
proof -
  have "fat_chain demo_disk demo_sbi 3 [(3, map of_nat [100..<132])]"
    by (simp add: demo_next demo_clusters FAT16_FINAL_CLUSTER_def)
  then show ?thesis
    using read_iter_content [of demo_disk demo_sbi "\<lparr>start_cluster = 3, file_size = 20\<rparr>"
        "[(3, map of_nat [100..<132])]" "\<lambda>_ _. True" 5 10]
    by (auto simp: chain_bytes_def demo_sbi_def)
qed

subsection \<open>Reading ends\<close>

lemma read_loop_returns:
  assumes "bytes_per_cluster sbi \<noteq> 0" "2 \<le> bytes_per_sector sbi" "b \<le> R"
  shows "read_loop copy_ok bread sbi R c b out \<noteq> None"
  using assms(3)
proof (induction "unat R - unat b" arbitrary: b c out rule: less_induct)
  case less
  let ?n = "min (ucast (bytes_per_cluster sbi)) (R - b)"
  have next_some: "fat16_next_cluster bread sbi c \<noteq> None"
  proof -
    have "2 \<le> unat (bytes_per_sector sbi)" using assms(2) by (simp add: word_le_nat_alt)
    then have "unat (ucast (bytes_per_sector sbi) div 2 :: u32) \<noteq> 0" by (simp add: unat_div unat_ucast16)
    then have "(ucast (bytes_per_sector sbi) div 2 :: u32) \<noteq> 0" by auto
    then show ?thesis by (simp add: fat16_next_cluster_def udiv_def Let_def)
  qed
  show ?case
  proof (cases "b < R")
    case True
    have d: "unat (R - b) = unat R - unat b" using less.prems by (intro unat_sub64) (simp add: word_le_nat_alt)
    have n: "unat ?n = min (unat (bytes_per_cluster sbi)) (unat R - unat b)"
      by (simp add: min_def d unat_ucast32 word_le_nat_alt)
    have pos: "0 < unat ?n" unfolding n using assms(1) True by (simp add: word_less_nat_alt unat_gt_0)
    have "unat b + unat ?n \<le> unat R" unfolding n using less.prems unfolding word_le_nat_alt by linarith
    then have bn: "unat (b + ?n) = unat b + unat ?n" using unat_lt64 [of R] by (intro unat_add64) linarith
    have le: "b + ?n \<le> R" using less.prems bn n by (simp add: word_le_nat_alt)
    have "read_loop copy_ok bread sbi R c' (b + ?n) (out @ take (unat ?n) buf) \<noteq> None" for c' buf
      using less.hyps [OF _ le] bn pos True by (simp add: word_less_nat_alt)
    then show ?thesis
      using next_some by (auto simp: read_loop.simps [of copy_ok bread sbi R c b out] Let_def split: sum.splits)
  next
    case False
    then show ?thesis by (simp add: read_loop.simps [of copy_ok bread sbi R c b out])
  qed
qed

text \<open>A set of clusters that are readable and chained among themselves.\<close>

definition cluster_cycle :: "device \<Rightarrow> fat16_sb_info_t \<Rightarrow> u16 set \<Rightarrow> bool" where
  "cluster_cycle bread sbi C \<longleftrightarrow>
     (\<forall>c\<in>C. ucast c < FAT16_FINAL_CLUSTER \<and> (\<exists>buf. fat16_read_cluster bread sbi (ucast c) = Inr buf)
        \<and> (\<exists>c'\<in>C. fat16_next_cluster bread sbi c = Some (Inr c')))"

lemma read_loop_stuck:
  assumes "cluster_cycle bread sbi C" "bytes_per_cluster sbi = 0" "b < R" "c \<in> C"
  shows "read_loop (\<lambda>_ _. True) bread sbi R c b out = None"
proof -
  have "\<not> (ok = (\<lambda>_ _. True) \<and> bread' = bread \<and> sbi' = sbi \<and> b < R \<and> c \<in> C)"
    if "read_loop ok bread' sbi' R c b out = Some y" for ok bread' sbi' R c b out y
    using that
  proof (rule read_loop.raw_induct
      [where P = "\<lambda>ok bread' sbi' R c b out y. \<not> (ok = (\<lambda>_ _. True) \<and> bread' = bread \<and> sbi' = sbi \<and> b < R \<and> c \<in> C)", rotated],
      goal_cases)
    case (1 rec ok bread' sbi' R c b out y)
    show ?case
    proof (rule notI, elim conjE)
      assume p: "ok = (\<lambda>_ _. True)" "bread' = bread" "sbi' = sbi" "b < R" "c \<in> C"
      obtain buf c' where C: "ucast c < FAT16_FINAL_CLUSTER" "fat16_read_cluster bread sbi (ucast c) = Inr buf"
        "c' \<in> C" "fat16_next_cluster bread sbi c = Some (Inr c')"
        using assms(1) p(5) unfolding cluster_cycle_def by blast
      have "rec (\<lambda>_ _. True) bread sbi R c' b out = Some y"
        using 1(2) C p(4) by (simp add: p(1-3) Let_def assms(2) min_def)
      from 1(1) [OF this] show False using C(3) p(4) by simp
    qed
  qed
  then show ?thesis using assms(3,4) by (metis not_Some_eq)
qed

text \<open>
  C26: with sectors of at least two bytes, reading a file always returns when clusters have at least one
  byte, whatever the FAT and the disk hold, also when the chain of its clusters is cyclic: every pass of
  the loop reads at least one byte or ends it. With clusters of no bytes, which no code refuses when
  mounting, reading does not return from a cyclic chain of readable clusters, whenever bytes are asked
  for, the position is not the end of the file, and neither the buffer nor the copies fail.
\<close>

theorem read_iter_returns:
  assumes "2 \<le> bytes_per_sector sbi"
  shows "(bytes_per_cluster sbi \<noteq> 0 \<longrightarrow>
       (\<exists>r out pos'. penguin_fat16_read_iter copy_ok kmalloc_ok bread sbi ino count pos = Some (r, out, pos')))
   \<and> (bytes_per_cluster sbi = 0 \<and> cluster_cycle bread sbi C \<and> ucast (start_cluster ino) \<in> C
        \<and> count \<noteq> 0 \<and> pos \<noteq> ucast (file_size ino) \<longrightarrow>
       penguin_fat16_read_iter (\<lambda>_ _. True) True bread sbi ino count pos = None)"
proof (intro conjI impI)
  let ?R = "if count > ucast (file_size ino) - pos then ucast (file_size ino) - pos else count"
  {
    assume "bytes_per_cluster sbi \<noteq> 0"
    then obtain r out where "read_loop copy_ok bread sbi ?R (ucast (start_cluster ino)) 0 [] = Some (r, out)"
      using read_loop_returns [OF _ assms, of 0] by (metis not_None_eq old.prod.exhaust word_zero_le)
    then show "\<exists>r out pos'. penguin_fat16_read_iter copy_ok kmalloc_ok bread sbi ino count pos = Some (r, out, pos')"
      by (cases r) (auto simp: penguin_fat16_read_iter_def Let_def)
  }
  assume c: "bytes_per_cluster sbi = 0 \<and> cluster_cycle bread sbi C \<and> ucast (start_cluster ino) \<in> C
    \<and> count \<noteq> 0 \<and> pos \<noteq> ucast (file_size ino)"
  then have "0 < ?R" by (auto simp: word_gt_0)
  then show "penguin_fat16_read_iter (\<lambda>_ _. True) True bread sbi ino count pos = None"
    using read_loop_stuck [of bread sbi C 0 ?R "ucast (start_cluster ino)" "[]"] c
    by (simp add: penguin_fat16_read_iter_def Let_def)
qed

theorem read_iter_returns_witness:
  "(\<exists>r out pos'. penguin_fat16_read_iter (\<lambda>_ _. True) True demo_disk demo_sbi \<lparr>start_cluster = 2, file_size = 4000\<rparr> 4000 0
     = Some (r, out, pos'))
   \<and> penguin_fat16_read_iter (\<lambda>_ _. True) True demo_disk (demo_sbi\<lparr>sectors_per_cluster := 0, bytes_per_cluster := 0\<rparr>)
       \<lparr>start_cluster = 2, file_size = 4000\<rparr> 4000 0 = None"
proof (rule conjI)
  let ?sbi = "demo_sbi\<lparr>sectors_per_cluster := 0, bytes_per_cluster := 0\<rparr>"
  have b: "2 \<le> bytes_per_sector demo_sbi" "bytes_per_cluster demo_sbi \<noteq> 0" "2 \<le> bytes_per_sector ?sbi"
    by (simp_all add: demo_sbi_def)
  show "\<exists>r out pos'. penguin_fat16_read_iter (\<lambda>_ _. True) True demo_disk demo_sbi \<lparr>start_cluster = 2, file_size = 4000\<rparr> 4000 0
     = Some (r, out, pos')"
    using read_iter_returns [OF b(1)] b(2) by blast
  have "fat16_read_cluster demo_disk ?sbi 2 = Inr []"
    by (simp add: fat16_read_cluster_def demo_sbi_def FAT16_FINAL_CLUSTER_def)
  moreover have "fat16_next_cluster demo_disk ?sbi 2 = Some (Inr 2)"
    by (simp add: fat16_next_cluster_def demo_sbi_def udiv_def demo_disk_def le16_def Let_def)
  ultimately have "cluster_cycle demo_disk ?sbi {2}"
    by (simp add: cluster_cycle_def FAT16_FINAL_CLUSTER_def)
  then show "penguin_fat16_read_iter (\<lambda>_ _. True) True demo_disk ?sbi \<lparr>start_cluster = 2, file_size = 4000\<rparr> 4000 0 = None"
    using read_iter_returns [OF b(3), of "\<lambda>_ _. True" True demo_disk "\<lparr>start_cluster = 2, file_size = 4000\<rparr>" 4000 0 "{2}"]
    by simp
qed

subsection \<open>A lookup need not end\<close>

text \<open>
  A set of clusters that are readable, chained among themselves, and full of entries that do not
  have the name looked for.
\<close>

definition cyclic_without :: "(u8 \<Rightarrow> u8) \<Rightarrow> device \<Rightarrow> fat16_sb_info_t \<Rightarrow> u8 list \<Rightarrow> u16 set \<Rightarrow> bool" where
  "cyclic_without tolower bread sbi name C \<longleftrightarrow>
     (\<forall>c\<in>C. ucast c < FAT16_FINAL_CLUSTER
        \<and> (\<exists>buf. fat16_read_cluster bread sbi (ucast c) = Inr buf
             \<and> (\<forall>e\<in>set (cluster_entries sbi c buf). \<not> fat16_de_is_end (fst e) \<and> \<not> name_matches tolower name e))
        \<and> (\<exists>c'\<in>C. fat16_next_cluster bread sbi c = Some (Inr c')))"

lemma lookup_no_match:
  assumes "\<forall>e\<in>set es. \<not> fat16_de_is_end (fst e) \<and> \<not> name_matches tolower name e"
  shows "\<exists>a. run_entries (lookup_cb tolower d_splice_alias ni ki sbi name) es (ab, r) = Next (a, r)"
  using assms
proof (induction es arbitrary: ab)
  case (Cons e es)
  obtain de sec idx where e: "e = (de, sec, idx)" by (metis prod_cases3)
  have "lookup_cb tolower d_splice_alias ni ki sbi name de sec idx ab r = (0, r)"
    using Cons.prems by (auto simp: e lookup_cb_def name_matches_def)
  then show ?case using Cons by (simp add: e)
qed simp

lemma walk_chain_cyclic:
  assumes "cyclic_without tolower bread sbi name C" "32 \<le> bytes_per_sector sbi" "c \<in> C"
  shows "walk_chain (lookup_cb tolower d_splice_alias ni ki sbi name) bread sbi c s = None"
proof -
  let ?cb = "lookup_cb tolower d_splice_alias ni ki sbi name"
  have "\<not> (cb = ?cb \<and> bread' = bread \<and> sbi' = sbi \<and> c \<in> C)" if "walk_chain cb bread' sbi' c s = Some y" for cb bread' sbi' c s y
    using that
  proof (rule walk_chain.raw_induct [where P = "\<lambda>cb bread' sbi' c s y. \<not> (cb = ?cb \<and> bread' = bread \<and> sbi' = sbi \<and> c \<in> C)", rotated], goal_cases)
    case (1 rec cb bread' sbi' c s y)
    show ?case
    proof (rule notI, elim conjE)
      assume p: "cb = ?cb" "bread' = bread" "sbi' = sbi" "c \<in> C"
      obtain buf c' where C: "ucast c < FAT16_FINAL_CLUSTER" "fat16_read_cluster bread sbi (ucast c) = Inr buf"
        "\<forall>e\<in>set (cluster_entries sbi c buf). \<not> fat16_de_is_end (fst e) \<and> \<not> name_matches tolower name e"
        "c' \<in> C" "fat16_next_cluster bread sbi c = Some (Inr c')"
        using assms(1) p(4) unfolding cyclic_without_def by blast
      obtain a where a: "run_entries ?cb (cluster_entries sbi c buf) s = Next (a, snd s)"
        using lookup_no_match [OF C(3), of d_splice_alias ni ki sbi "fst s" "snd s"] by auto
      have "rec ?cb bread sbi c' (a, snd s) = Some y"
        using 1(2) C a
        by (simp add: p(1-3) Let_def cluster_scan [OF assms(2)] cluster_entries_def)
      from 1(1) [OF this] show False using C(4) by simp
    qed
  qed
  then show ?thesis using assms(3) by (metis not_Some_eq)
qed

text \<open>
  C27: a lookup does not return in a directory whose chain of clusters is cyclic, when the cycle has
  neither an end mark nor the name: a damaged or crafted disk hangs every process that opens a file
  in it.
\<close>

theorem lookup_cyclic_hangs:
  assumes "cyclic_without tolower bread sbi name C" "32 \<le> bytes_per_sector sbi"
    and "start_cluster fi \<noteq> 0" "ucast (start_cluster fi) \<in> C"
  shows "penguin_fat16_lookup tolower d_splice_alias new_inode_ok kzalloc_ok True bread sbi fi name = None"
  using assms(3) by (simp add: penguin_fat16_lookup_def fat16_dir_walk_def walk_chain_cyclic [OF assms(1,2,4)])

theorem lookup_cyclic_hangs_witness:
  "penguin_fat16_lookup (\<lambda>c. c) (\<lambda>_. Null_dentry :: nat dentry_ptr) True True True demo_disk demo_sbi
     \<lparr>start_cluster = 2, file_size = 0\<rparr> [66] = None"
proof (rule lookup_cyclic_hangs)
  have "cluster_entries demo_sbi 2 demo_entry = [(read_direntry demo_entry, 4, 0)]"
    by (simp add: cluster_entries_def demo_sbi_def entry_at_def demo_entry_def fat16_cluster_sector_def)
  moreover have "\<not> fat16_de_is_end (read_direntry demo_entry)"
    by (simp add: fat16_de_is_end_def read_direntry_def demo_entry_def)
  ultimately show "cyclic_without (\<lambda>c. c) demo_disk demo_sbi [66] {2}"
    by (simp add: cyclic_without_def demo_next demo_clusters FAT16_FINAL_CLUSTER_def name_matches_def demo_name
        strncasecmp_eq_def cstr8_def)
qed (simp_all add: demo_sbi_def)

end
