(* ===== verification/Fat16_Mount.thy ===== *)
theory Fat16_Mount
  imports Fat16_Files
begin

section \<open>Mounting, and inode numbers\<close>

lemma root_inode_events:
  assumes "penguin_fat16_get_root_inode a b = (root, res)"
  shows "\<exists>H. run_events {Sb_info} res = Some H \<and> Sb_info \<in> H \<and> Buffer_head \<notin> H"
  using assms
  by (cases a; cases b) (auto simp: penguin_fat16_get_root_inode_def penguin_fat16_iget_def Let_def)

text \<open>
  C31: mounting, when it returns, leaves a superblock that points to the computed geometry exactly
  when it succeeds, and gives back the geometry whenever it fails; the superblock is then read-only
  and has the magic number of the driver.
\<close>

theorem fill_super_outcome:
  assumes "penguin_fat16_fill_super k bread sb = Some (err, sb', es, called)"
  shows "case err of
      Some e \<Rightarrow> e \<in> {ENOMEM, EINVAL, EIO} \<and> (sbi_ok k \<longrightarrow> s_fs_info sb' = None)
        \<and> (\<exists>H. run_events {} es = Some H \<and> Sb_info \<notin> H \<and> Buffer_head \<notin> H)
    | None \<Rightarrow> \<exists>data sbi H. bread 0 = Some data \<and> sbi_of_bpb (read_bpb data) = Some sbi
        \<and> s_fs_info sb' = Some sbi \<and> s_rdonly sb' \<and> s_magic sb' = fat16_fs_magic \<and> s_root sb'
        \<and> run_events {} es = Some H \<and> Sb_info \<in> H \<and> Buffer_head \<notin> H
        \<and> run_events H (snd (penguin_fat16_put_super sb')) = Some (H - {Sb_info})"
proof (cases "sbi_ok k \<and> blocksize_ok k")
  case False
  then show ?thesis
    using assms by (cases "sbi_ok k") (auto simp: penguin_fat16_fill_super_def Let_def)
next
  case True
  note ok = this
  show ?thesis
  proof (cases "bread 0")
    case None
    then show ?thesis using assms ok by (auto simp: penguin_fat16_fill_super_def Let_def)
  next
    case (Some data)
    obtain root res where r: "penguin_fat16_get_root_inode (root_inode_ok k) (root_info_ok k) = (root, res)" by fastforce
    obtain H where H: "run_events {Sb_info} res = Some H" "Sb_info \<in> H" "Buffer_head \<notin> H"
      using root_inode_events [OF r] by blast
    obtain sbi where sbi: "sbi_of_bpb (read_bpb data) = Some sbi"
      using assms ok Some by (cases "sbi_of_bpb (read_bpb data)") (auto simp: penguin_fat16_fill_super_def Let_def)
    have run: "run_events {} ([Acquire Sb_info] @ [Acquire Buffer_head, Release Buffer_head] @ res @ es2) = run_events H es2" for es2
    proof -
      have "{Buffer_head, Sb_info} - {Buffer_head} = {Sb_info :: fs_resource}" by auto
      then show ?thesis by (simp add: run_events_append H(1))
    qed
    show ?thesis
    proof (cases "d_make_root k root")
      case True
      then have "err = None" "s_fs_info sb' = Some sbi" "s_rdonly sb'" "s_magic sb' = fat16_fs_magic" "s_root sb'"
        "es = [Acquire Sb_info] @ [Acquire Buffer_head, Release Buffer_head] @ res @ []"
        using assms ok Some sbi r by (auto simp: penguin_fat16_fill_super_def Let_def)
      then show ?thesis using run [of "[]"] H Some sbi by (simp add: penguin_fat16_put_super_def)
    next
      case False
      then have "err = Some ENOMEM" "s_fs_info sb' = None"
        "es = [Acquire Sb_info] @ [Acquire Buffer_head, Release Buffer_head] @ res @ [Release Sb_info]"
        using assms ok Some sbi r by (auto simp: penguin_fat16_fill_super_def Let_def)
      then show ?thesis using run [of "[Release Sb_info]"] H by simp
    qed
  qed
qed

theorem fill_super_outcome_witness:
  "\<exists>sb' es called H. penguin_fat16_fill_super \<lparr>sbi_ok = True, blocksize_ok = True, root_inode_ok = True, root_info_ok = True,
       d_make_root = (\<lambda>_. True)\<rparr> (\<lambda>_. None)
       \<lparr>s_fs_info = None, s_magic = 0, s_rdonly = False, s_blocksize = 0, s_blocksize_bits = 0, s_root = False\<rparr>
     = Some (Some EIO, sb', es, called) \<and> s_fs_info sb' = None \<and> run_events {} es = Some H \<and> Sb_info \<notin> H"
proof -
  let ?k = "\<lparr>sbi_ok = True, blocksize_ok = True, root_inode_ok = True, root_info_ok = True, d_make_root = (\<lambda>_. True)\<rparr>"
  let ?sb = "\<lparr>s_fs_info = None, s_magic = 0, s_rdonly = False, s_blocksize = 0, s_blocksize_bits = 0, s_root = False\<rparr> :: super_block"
  have "penguin_fat16_fill_super ?k (\<lambda>_. None) ?sb =
      Some (Some EIO, ?sb\<lparr>s_fs_info := None\<rparr>, [Acquire Sb_info, Release Sb_info], None)"
    by (simp add: penguin_fat16_fill_super_def Let_def)
  then show ?thesis using fill_super_outcome [of ?k "\<lambda>_. None" ?sb "Some EIO"] by auto
qed

text \<open>
  Two ways to bring the kernel down by mounting. A disk whose boot sector says that a sector
  has 0 bytes makes \<open>fill_super\<close> divide by zero. And when the root inode cannot be allocated,
  \<open>fill_super\<close> does not take its error path, which tests for \<open>NULL\<close>: it calls \<open>d_make_root\<close> with
  the error pointer.
\<close>

theorem fill_super_crashes:
  assumes "sbi_ok k" "blocksize_ok k" "bread 0 = Some data"
  shows "(le16 data 11 = 0 \<longrightarrow> penguin_fat16_fill_super k bread sb = None)
    \<and> (le16 data 11 \<noteq> 0 \<and> (\<not> root_inode_ok k \<or> \<not> root_info_ok k)
       \<longrightarrow> (\<exists>err sb' es. penguin_fat16_fill_super k bread sb = Some (err, sb', es, Some (Inl ENOMEM))))"
proof (intro conjI impI)
  have u: "(ucast (le16 data 11 :: u16) :: u32) = 0 \<longleftrightarrow> le16 data 11 = 0" for data
    by (metis unat_ucast16 unsigned_0 unsigned_word_eqI)
  have v: "(ucast (ucast (le16 data 11 :: u16) :: u32) :: u64) = 0 \<longleftrightarrow> le16 data 11 = 0" for data
    by (metis u unat_ucast32 unsigned_0 unsigned_word_eqI)
  have b: "bpb_bytes_per_sector (read_bpb data) = le16 data 11" by (simp add: read_bpb_def)
  note d = penguin_fat16_fill_super_def sbi_of_bpb_def fat16_data_sector_def fat16_root_dir_sectors_def
    fat16_root_sectors_def udiv_def b
  {
    assume "le16 data 11 = 0"
    then show "penguin_fat16_fill_super k bread sb = None" using assms v [of data] by (simp add: d Let_def)
  next
    assume a: "le16 data 11 \<noteq> 0 \<and> (\<not> root_inode_ok k \<or> \<not> root_info_ok k)"
    then obtain sbi where sbi: "sbi_of_bpb (read_bpb data) = Some sbi" using v [of data] by (simp add: d)
    show "\<exists>err sb' es. penguin_fat16_fill_super k bread sb = Some (err, sb', es, Some (Inl ENOMEM))"
      using a assms sbi
      by (auto simp: penguin_fat16_fill_super_def penguin_fat16_get_root_inode_def penguin_fat16_iget_def Let_def)
  }
qed

definition demo_kernel :: fs_kernel where
  "demo_kernel = \<lparr>sbi_ok = True, blocksize_ok = True, root_inode_ok = True, root_info_ok = True,
     d_make_root = (\<lambda>_. True)\<rparr>"

definition demo_sb :: super_block where
  "demo_sb = \<lparr>s_fs_info = None, s_magic = 0, s_rdonly = False, s_blocksize = 0, s_blocksize_bits = 0, s_root = False\<rparr>"

theorem fill_super_crashes_witness:
  "penguin_fat16_fill_super demo_kernel (\<lambda>_. Some (replicate 512 0)) demo_sb = None"
  using fill_super_crashes [of demo_kernel "\<lambda>_. Some (replicate 512 0)" "replicate 512 0" demo_sb]
  by (simp add: demo_kernel_def le16_def)

text \<open>
  The inode numbers made from positions of entries in sectors differ for different positions,
  and when the sectors have a multiple of 32 bytes, none is the number 1 of the root.
\<close>

theorem make_ino_injective:
  assumes "unat i < unat (bytes_per_sector sbi) div 32" "unat j < unat (bytes_per_sector sbi) div 32"
  shows "(fat16_make_ino sbi s i = fat16_make_ino sbi t j \<longleftrightarrow> s = t \<and> i = j)
    \<and> (unat (bytes_per_sector sbi) mod 32 = 0 \<longrightarrow> fat16_make_ino sbi s i \<noteq> 1)"
proof -
  let ?b = "unat (bytes_per_sector sbi)"
  have b: "?b < 65536" using unsigned_less [of "bytes_per_sector sbi", where 'a = nat] by simp
  have ub: "unat (ucast (bytes_per_sector sbi) :: u64) = ?b"
    using b by (simp add: unsigned_ucast_eq take_bit_nat_eq_self)
  have ino: "unat (fat16_make_ino sbi s i) = unat s * ?b + unat i * 32" if "unat i < ?b div 32" for s i
  proof -
    have "unat s < 4294967296" using unsigned_less [of s, where 'a = nat] by simp
    then have "unat s * ?b \<le> 4294967295 * 65535" using b by (intro mult_mono) auto
    moreover have "unat i * 32 < 65536" using that b by linarith
    moreover have "unat (ucast s * ucast (bytes_per_sector sbi) :: u64) = unat s * ?b"
      using calculation(1) by (subst unat_mult64) (simp_all add: unat_ucast32 ub)
    moreover have "unat (ucast i * 32 :: u64) = unat i * 32"
      using calculation(2) by (subst unat_mult64) (simp_all add: unat_ucast32)
    ultimately show ?thesis unfolding fat16_make_ino_def by (subst unat_add64) simp_all
  qed
  have "s = t \<and> i = j" if e: "fat16_make_ino sbi s i = fat16_make_ino sbi t j"
  proof -
    have "unat s * ?b + unat i * 32 = unat t * ?b + unat j * 32"
      using ino [OF assms(1), of s] ino [OF assms(2), of t] e by simp
    moreover have "unat i * 32 < ?b" "unat j * 32 < ?b" using assms by linarith+
    ultimately have "unat s = unat t \<and> unat i * 32 = unat j * 32"
      by (metis (no_types, lifting) add_right_cancel div_mult_self3 div_less less_nat_zero_code add.commute mult.commute div_mult_self1 add_0)
    then show ?thesis by (simp add: word_unat_eq_iff)
  qed
  moreover have "fat16_make_ino sbi s i \<noteq> 1" if "?b mod 32 = 0"
  proof
    assume "fat16_make_ino sbi s i = 1"
    then have "unat s * ?b + unat i * 32 = 1" using ino [OF assms(1), of s] by simp
    moreover have "32 dvd unat s * ?b + unat i * 32" using that by (simp add: dvd_eq_mod_eq_0 [symmetric])
    ultimately show False by simp
  qed
  ultimately show ?thesis by blast
qed

theorem make_ino_injective_witness:
  "fat16_make_ino demo_sbi 4 0 \<noteq> fat16_make_ino demo_sbi 5 0 \<and> fat16_make_ino demo_sbi 4 0 \<noteq> 1"
  using make_ino_injective [of 0 demo_sbi 0 4 5] by (simp add: demo_sbi_def)

end
