(* ===== verification/Fat16_System.thy ===== *)
theory Fat16_System
  imports Fat16_Mount
begin

section \<open>From loading the module to the bytes of a file\<close>

text \<open>
  The operations of the file system put together: what \<open>fill_super\<close> leaves is what lookups and
  reads use, the inode that a lookup returns is the one that is read, and what loading, mounting
  and opening acquire is given back by evicting, unmounting and unloading.
\<close>

subsection \<open>The root directory of a mounted file system\<close>

lemma root_inode_ok:
  "penguin_fat16_get_root_inode a b = (Inr root, res) \<Longrightarrow>
     i_private root = Some \<lparr>start_cluster = 0, file_size = 0\<rparr> \<and> i_ops root = Dir_ops
     \<and> a \<and> b \<and> res = [Acquire Inode, Acquire Inode_info]"
  by (auto simp: penguin_fat16_get_root_inode_def penguin_fat16_iget_def Let_def fat16_de_is_dir_def
      FAT16_ATTR_DIRECTORY_def split: if_splits)

lemma fill_super_ok:
  assumes "penguin_fat16_fill_super k bread sb = Some (None, sb', es, Some (Inr root))"
  obtains data sbi where "bread 0 = Some data" "sbi_of_bpb (read_bpb data) = Some sbi" "s_fs_info sb' = Some sbi"
    "es = [Acquire Sb_info, Acquire Buffer_head, Release Buffer_head, Acquire Inode, Acquire Inode_info]"
    "i_private root = Some \<lparr>start_cluster = 0, file_size = 0\<rparr>" "i_ops root = Dir_ops"
  using assms
  by (auto simp: penguin_fat16_fill_super_def Let_def dest!: root_inode_ok intro!: that
      split: if_splits option.splits prod.splits)

text \<open>The inode of an entry that is not a directory.\<close>

lemma open_regular:
  assumes "\<not> fat16_de_is_dir de"
  shows "open_entry True True sbi (de, sec, idx) =
    Inr \<lparr>i_ino = fat16_make_ino sbi sec idx, i_size = ucast (de_file_size de), i_nlink = 1,
         i_mode = S_IFREG OR 0x124, i_ops = File_ops,
         i_private = Some \<lparr>start_cluster = ucast (first_cluster_low de), file_size = de_file_size de\<rparr>\<rparr>"
  using assms by (simp add: open_entry_def penguin_fat16_iget_def Let_def)

lemma ucast_16_32_16 [simp]: "ucast (ucast (c :: u16) :: u32) = c"
  by (simp add: unsigned_ucast_eq word_unat_eq_iff take_bit_word_eq_self)

text \<open>
  C10: reading a file of the root directory, from the mount on. When mounting succeeds, the geometry
  is that of the boot sector; and when the root directory of that geometry has an entry of the name,
  up to case, whose clusters are chained and hold the file, the lookup of the name gives
  \<open>d_splice_alias\<close> the inode of a regular file that can only be read, of the size in the entry, for
  its dentry, and returns what that call returns; when that is \<open>NULL\<close>, the dentry is added once more
  as a negative one before \<open>NULL\<close> is returned. Reading the inode from the start
  returns exactly the first bytes of its clusters, as many as are asked for and at most the size.
\<close>

theorem mount_lookup_read:
  assumes "penguin_fat16_fill_super k bread sb = Some (None, sb', es, Some (Inr root))"
    and "s_fs_info sb' = Some sbi" "i_private root = Some fi"
    and "root_data bread sbi datas"
    and "find (name_matches tolower name) (used_entries (root_listing sbi datas)) = Some (de, sec, idx)" "\<not> fat16_de_is_dir de"
    and "fat_chain bread sbi (first_cluster_low de) cs" "\<forall>x\<in>set cs. length (snd x) = unat (bytes_per_cluster sbi)"
    and "unat (de_file_size de) \<le> length (chain_bytes cs)"
  shows "(\<exists>data. bread 0 = Some data \<and> sbi_of_bpb (read_bpb data) = Some sbi)
    \<and> (\<exists>inode ino n. penguin_fat16_lookup tolower d_splice_alias True True True bread sbi fi name =
        Some (d_splice_alias inode, D_splice_alias inode # (if d_splice_alias inode = Null_dentry then [D_add None] else []))
    \<and> i_private inode = Some ino \<and> i_ops inode = File_ops \<and> i_mode inode = 0x8124
    \<and> unat (i_size inode) = unat (de_file_size de)
    \<and> penguin_fat16_read_iter (\<lambda>_ _. True) True bread sbi ino count 0 = Some (Inr n, take (unat n) (chain_bytes cs), n)
    \<and> unat n = min (unat count) (unat (de_file_size de)))"
proof -
  obtain data where boot: "bread 0 = Some data" "sbi_of_bpb (read_bpb data) = Some sbi" and "start_cluster fi = 0"
    using fill_super_ok [OF assms(1)] assms(2,3) by (metis fat16_inode_info_t.select_convs(1) option.inject)
  then have dir: "dir_listing bread sbi fi (root_listing sbi datas)" using assms(4) by (intro dir_listing.root)
  let ?ino = "\<lparr>start_cluster = ucast (first_cluster_low de), file_size = de_file_size de\<rparr>"
  let ?inode = "\<lparr>i_ino = fat16_make_ino sbi sec idx, i_size = ucast (de_file_size de), i_nlink = 1,
    i_mode = S_IFREG OR 0x124, i_ops = File_ops, i_private = Some ?ino\<rparr>"
  have l: "penguin_fat16_lookup tolower d_splice_alias True True True bread sbi fi name =
      Some (d_splice_alias ?inode, D_splice_alias ?inode # (if d_splice_alias ?inode = Null_dentry then [D_add None] else []))"
    unfolding lookup_finds [OF dir] using assms(5) by (simp add: open_regular [OF assms(6)] lookup_outcome_def)
  obtain n where n: "penguin_fat16_read_iter (\<lambda>_ _. True) True bread sbi ?ino count 0 =
      Some (Inr n, take (unat n) (chain_bytes cs), n)"
    "unat n = min (unat count) (unat (de_file_size de))"
    using read_iter_bytes [of bread sbi ?ino cs "\<lambda>_ _. True" count 0] assms(7-9) by auto
  have "S_IFREG OR 0x124 = 0x8124" by (simp add: S_IFREG_def)
  then show ?thesis using boot l n by (intro conjI exI [of _ ?inode] exI [of _ ?ino] exI [of _ n]) (simp_all add: unat_ucast32)
qed

text \<open>The demonstration disk, mounted.\<close>

lemma demo_boot_bytes:
  "demo_boot ! 11 = 32" "demo_boot ! 12 = 0" "demo_boot ! 13 = 1" "demo_boot ! 14 = 1" "demo_boot ! 15 = 0"
  "demo_boot ! 16 = 1" "demo_boot ! 17 = 2" "demo_boot ! 18 = 0" "demo_boot ! 22 = 1" "demo_boot ! 23 = 0"
  by (simp_all add: demo_boot_def nth_append)

lemma demo_geometry: "sbi_of_bpb (read_bpb demo_boot) = Some demo_sbi"
  by (simp add: sbi_of_bpb_def read_bpb_def demo_boot_bytes demo_sbi_def le16_def fat16_data_sector_def
      fat16_root_dir_sectors_def fat16_root_sectors_def fat16_root_dir_sector_def fat16_fat_sector_def
      fat16_bytes_per_cluster_def udiv_def)

definition demo_root_inode :: vfs_inode where
  "demo_root_inode = \<lparr>i_ino = 1, i_size = 0, i_nlink = 1, i_mode = 0x416D, i_ops = Dir_ops,
     i_private = Some \<lparr>start_cluster = 0, file_size = 0\<rparr>\<rparr>"

definition demo_mounted :: super_block where
  "demo_mounted = \<lparr>s_fs_info = Some demo_sbi, s_magic = fat16_fs_magic, s_rdonly = True, s_blocksize = 32,
     s_blocksize_bits = 5, s_root = True\<rparr>"

lemma demo_mount:
  "penguin_fat16_fill_super demo_kernel demo_disk demo_sb = Some (None, demo_mounted,
     [Acquire Sb_info, Acquire Buffer_head, Release Buffer_head, Acquire Inode, Acquire Inode_info],
     Some (Inr demo_root_inode))"
proof -
  have "demo_disk 0 = Some demo_boot" by (simp add: demo_disk_def)
  moreover have "penguin_fat16_get_root_inode True True = (Inr demo_root_inode, [Acquire Inode, Acquire Inode_info])"
    by (simp add: penguin_fat16_get_root_inode_def penguin_fat16_iget_def demo_root_inode_def Let_def fat16_de_is_dir_def
        FAT16_ATTR_DIRECTORY_def S_IFDIR_def)
  ultimately show ?thesis
    by (simp add: penguin_fat16_fill_super_def demo_kernel_def Let_def demo_geometry demo_mounted_def demo_sb_def)
      (simp add: demo_sbi_def ilog2.simps)
qed

theorem mount_lookup_read_witness:
  "\<exists>inode ino n. penguin_fat16_lookup (\<lambda>c. c) (\<lambda>_. Null_dentry :: nat dentry_ptr) True True True demo_disk demo_sbi
        \<lparr>start_cluster = 0, file_size = 0\<rparr> [65]
      = Some (Null_dentry, [D_splice_alias inode, D_add None]) \<and> i_private inode = Some ino
    \<and> penguin_fat16_read_iter (\<lambda>_ _. True) True demo_disk demo_sbi ino 7 0 = Some (Inr n, take (unat n) (map of_nat [100..<132]), n)
    \<and> unat n = 7"
proof -
  have d: "\<not> fat16_de_is_dir (read_direntry demo_entry)" "first_cluster_low (read_direntry demo_entry) = 3"
    "de_file_size (read_direntry demo_entry) = 20"
    by (simp_all add: fat16_de_is_dir_def FAT16_ATTR_DIRECTORY_def read_direntry_def demo_entry_def le16_def le32_def)
  have f: "find (name_matches (\<lambda>c. c) [65]) (used_entries demo_root) = Some (read_direntry demo_entry, 2, 0)"
    by (simp add: demo_root_used name_matches_def demo_name demo_shown strncasecmp_eq_def)
  have r: "root_data demo_disk demo_sbi [demo_entry, replicate 32 0]" by (rule demo_root_data)
  have c: "fat_chain demo_disk demo_sbi 3 [(3, map of_nat [100..<132])]"
    by (simp add: demo_next demo_clusters FAT16_FINAL_CLUSTER_def)
  have s: "s_fs_info demo_mounted = Some demo_sbi" "i_private demo_root_inode = Some \<lparr>start_cluster = 0, file_size = 0\<rparr>"
    "unat (bytes_per_cluster demo_sbi) = 32"
    by (simp_all add: demo_mounted_def demo_root_inode_def demo_sbi_def)
  show ?thesis
    using mount_lookup_read [OF demo_mount s(1,2) r f [unfolded demo_root_def] d(1), of "[(3, map of_nat [100..<132])]" "\<lambda>_. Null_dentry :: nat dentry_ptr" 7] c d(2,3) s(3)
    by (auto simp: chain_bytes_def)
qed

subsection \<open>What is acquired is given back\<close>

lemma iget_events:
  assumes "penguin_fat16_iget a b ino de = (r, es)" "Inode \<notin> H" "Inode_info \<notin> H"
  shows "run_events H es = Some (case r of Inl _ \<Rightarrow> H | Inr _ \<Rightarrow> insert Inode_info (insert Inode H))"
  using assms by (cases a; cases b) (auto simp: penguin_fat16_iget_def Let_def)

text \<open>
  C30: the life of the module. Loading it leaves nothing behind when the registration fails; after
  loading, a mount that succeeds, eviction of the root inode, unmounting and unloading, in the order
  of the kernel, everything acquired has been given back but the inode itself, which the kernel
  frees, and neither the superblock nor the evicted inode points to freed memory. The same holds for
  the inode of any entry, whether or not its allocation fails.
\<close>

theorem module_lifecycle:
  assumes "penguin_fat16_fill_super k bread sb = Some (None, sb', es, Some (Inr root))"
  shows "penguin_fat16_init None = (None, [Acquire Fs_type]) \<and> (\<forall>e. penguin_fat16_init (Some e) = (Some e, []))
    \<and> run_events {} (snd (penguin_fat16_init None) @ es @ snd (penguin_fat16_evict_inode root)
          @ snd (penguin_fat16_put_super sb') @ penguin_fat16_exit) = Some {Inode}
    \<and> s_fs_info (fst (penguin_fat16_put_super sb')) = None
    \<and> (\<forall>a b ino de. case penguin_fat16_iget a b ino de of
           (Inl _, es) \<Rightarrow> run_events {Fs_type, Sb_info} es = Some {Fs_type, Sb_info}
         | (Inr inode, es) \<Rightarrow>
             run_events {Fs_type, Sb_info} (es @ snd (penguin_fat16_evict_inode inode)) = Some {Fs_type, Sb_info, Inode}
             \<and> i_private (fst (penguin_fat16_evict_inode inode)) = None)"
proof -
  obtain data sbi where es: "es = [Acquire Sb_info, Acquire Buffer_head, Release Buffer_head, Acquire Inode, Acquire Inode_info]"
    by (rule fill_super_ok [OF assms])
  have "run_events {} (snd (penguin_fat16_init None) @ es @ snd (penguin_fat16_evict_inode root)
      @ snd (penguin_fat16_put_super sb') @ penguin_fat16_exit) = Some {Inode}"
    by (auto simp: es penguin_fat16_init_def penguin_fat16_evict_inode_def penguin_fat16_put_super_def penguin_fat16_exit_def
        insert_Diff_if)
  moreover have "case penguin_fat16_iget a b ino de of
           (Inl _, es) \<Rightarrow> run_events {Fs_type, Sb_info} es = Some {Fs_type, Sb_info}
         | (Inr inode, es) \<Rightarrow>
             run_events {Fs_type, Sb_info} (es @ snd (penguin_fat16_evict_inode inode)) = Some {Fs_type, Sb_info, Inode}
             \<and> i_private (fst (penguin_fat16_evict_inode inode)) = None" for a b ino de
  proof -
    obtain r es where r: "penguin_fat16_iget a b ino de = (r, es)" by fastforce
    show ?thesis
      using iget_events [OF r, of "{Fs_type, Sb_info}"]
      by (auto simp: r run_events_append penguin_fat16_evict_inode_def split: sum.splits)
  qed
  ultimately show ?thesis by (simp add: penguin_fat16_init_def penguin_fat16_put_super_def)
qed

theorem module_lifecycle_witness:
  "s_fs_info (fst (penguin_fat16_put_super demo_mounted)) = None"
  using module_lifecycle [OF demo_mount] by blast

end
