(* ===== verification/Neuro_Swap.thy ===== *)
theory Neuro_Swap
  imports Kernel
begin

section \<open>The neural swap device (math.c, inference.c, kmain.c)\<close>

text \<open>
  A block device whose storage is the state of an LSTM network: what is written is fed to the
  network, what is read is its output. The arithmetic of \<open>float\<close> and \<open>double\<close> is a parameter, a
  record of its operations, and so are the weights, which are generated into \<open>weights.h\<close>; the
  order of all operations is that of the code. Arrays are lists.
\<close>

subsection \<open>Arithmetic (math.c)\<close>

record ('f, 'd) float_ops =
  fadd :: "'f \<Rightarrow> 'f \<Rightarrow> 'f"
  fsub :: "'f \<Rightarrow> 'f \<Rightarrow> 'f"
  fmul :: "'f \<Rightarrow> 'f \<Rightarrow> 'f"
  fdiv :: "'f \<Rightarrow> 'f \<Rightarrow> 'f"
  fneg :: "'f \<Rightarrow> 'f"
  fconst :: "int \<Rightarrow> 'f"
  dadd :: "'d \<Rightarrow> 'd \<Rightarrow> 'd"
  dmul :: "'d \<Rightarrow> 'd \<Rightarrow> 'd"
  ddiv :: "'d \<Rightarrow> 'd \<Rightarrow> 'd"
  dconst :: "int \<Rightarrow> 'd"
  to_double :: "'f \<Rightarrow> 'd"
  to_float :: "'d \<Rightarrow> 'f"
  to_u8 :: "'f \<Rightarrow> u8"

definition EXP_TAILOR_POWER :: nat where "EXP_TAILOR_POWER = 30"

text \<open>The state of the loop is \<open>(sum, term)\<close>.\<close>

definition exp_step :: "('f, 'd) float_ops \<Rightarrow> 'f \<Rightarrow> nat \<Rightarrow> 'd \<times> 'd \<Rightarrow> 'd \<times> 'd" where
  "exp_step F x i s =
     (case s of (sm, tm) \<Rightarrow>
        let tm = dmul F tm (ddiv F (to_double F x) (dconst F (int i))) in (dadd F sm tm, tm))"

definition kexpf :: "('f, 'd) float_ops \<Rightarrow> 'f \<Rightarrow> 'f" where
  "kexpf F x = to_float F (fst (fold (exp_step F x) [1..<EXP_TAILOR_POWER + 1] (dconst F 1, dconst F 1)))"

definition ktanhf :: "('f, 'd) float_ops \<Rightarrow> 'f \<Rightarrow> 'f" where
  "ktanhf F x =
     (let ex = kexpf F x;
          enx = kexpf F (fneg F x)
      in fdiv F (fsub F ex enx) (fadd F ex enx))"

definition sigmoid :: "('f, 'd) float_ops \<Rightarrow> 'f \<Rightarrow> 'f" where
  "sigmoid F x = (let expfv = kexpf F (fneg F x) in fdiv F (fconst F 1) (fadd F (fconst F 1) expfv))"

definition matvec :: "('f, 'd) float_ops \<Rightarrow> 'f list \<Rightarrow> 'f list \<Rightarrow> nat \<Rightarrow> nat \<Rightarrow> 'f list" where
  "matvec F A x m n =
     map (\<lambda>i. fold (\<lambda>j out. fadd F out (fmul F (A ! (i * n + j)) (x ! j))) [0..<n] (fconst F 0)) [0..<m]"

definition vec_add :: "('f, 'd) float_ops \<Rightarrow> 'f list \<Rightarrow> 'f list \<Rightarrow> nat \<Rightarrow> 'f list" where
  "vec_add F out v n = map (\<lambda>i. fadd F (out ! i) (v ! i)) [0..<n]"

subsection \<open>The network (inference.c)\<close>

definition INPUT_SIZE :: nat where "INPUT_SIZE = 1"
definition HIDDEN_SIZE :: nat where "HIDDEN_SIZE = 80"
definition OUTPUT_SIZE :: nat where "OUTPUT_SIZE = 1"

record 'f lstm_weights =
  lstmw_Wi :: "'f list"
  lstmw_Wf :: "'f list"
  lstmw_Wg :: "'f list"
  lstmw_Wo :: "'f list"
  lstmw_Ui :: "'f list"
  lstmw_Uf :: "'f list"
  lstmw_Ug :: "'f list"
  lstmw_Uo :: "'f list"
  lstmw_bi :: "'f list"
  lstmw_bf :: "'f list"
  lstmw_bg :: "'f list"
  lstmw_bo :: "'f list"
  lstmw_Wy :: "'f list"
  lstmw_by :: "'f list"

record 'f LSTMState =
  lstm_h :: "'f list"
  lstm_c :: "'f list"

text \<open>One gate: \<open>matvec\<close>, \<open>matvec\<close>, \<open>vec_add\<close>, \<open>vec_add\<close>, and the activation of every element.\<close>

definition lstm_gate ::
  "('f, 'd) float_ops \<Rightarrow> ('f \<Rightarrow> 'f) \<Rightarrow> 'f list \<Rightarrow> 'f list \<Rightarrow> 'f list \<Rightarrow> 'f list \<Rightarrow> 'f list \<Rightarrow> 'f list" where
  "lstm_gate F act W U b x hs =
     (let g = matvec F W x HIDDEN_SIZE INPUT_SIZE;
          tmp = matvec F U hs HIDDEN_SIZE HIDDEN_SIZE;
          g = vec_add F g tmp HIDDEN_SIZE;
          g = vec_add F g b HIDDEN_SIZE
      in map act g)"

text \<open>The new state, and the output \<open>y\<close>, which the caller may not ask for.\<close>

definition lstm_step ::
  "('f, 'd) float_ops \<Rightarrow> 'f lstm_weights \<Rightarrow> 'f LSTMState \<Rightarrow> 'f list \<Rightarrow> 'f LSTMState \<times> 'f list" where
  "lstm_step F w s x =
     (let gi = lstm_gate F (sigmoid F) (lstmw_Wi w) (lstmw_Ui w) (lstmw_bi w) x (lstm_h s);
          gf = lstm_gate F (sigmoid F) (lstmw_Wf w) (lstmw_Uf w) (lstmw_bf w) x (lstm_h s);
          gg = lstm_gate F (ktanhf F) (lstmw_Wg w) (lstmw_Ug w) (lstmw_bg w) x (lstm_h s);
          go = lstm_gate F (sigmoid F) (lstmw_Wo w) (lstmw_Uo w) (lstmw_bo w) x (lstm_h s);
          c' = map (\<lambda>i. fadd F (fmul F (gf ! i) (lstm_c s ! i)) (fmul F (gi ! i) (gg ! i))) [0..<HIDDEN_SIZE];
          h' = map (\<lambda>i. fmul F (go ! i) (ktanhf F (c' ! i))) [0..<HIDDEN_SIZE];
          y = matvec F (lstmw_Wy w) h' OUTPUT_SIZE HIDDEN_SIZE;
          y = vec_add F y (lstmw_by w) OUTPUT_SIZE
      in (\<lparr>lstm_h = h', lstm_c = c'\<rparr>, y))"

definition lstm_state_reset :: "('f, 'd) float_ops \<Rightarrow> 'f LSTMState" where
  "lstm_state_reset F = \<lparr>lstm_h = replicate HIDDEN_SIZE (fconst F 0), lstm_c = replicate HIDDEN_SIZE (fconst F 0)\<rparr>"

definition lstm_state_copy :: "'f LSTMState \<Rightarrow> 'f LSTMState \<Rightarrow> 'f LSTMState" where
  "lstm_state_copy dst src = src"

fun lstm_memorize_sse ::
  "('f, 'd) float_ops \<Rightarrow> 'f lstm_weights \<Rightarrow> 'f LSTMState \<Rightarrow> u8 list \<Rightarrow> 'f LSTMState" where
  "lstm_memorize_sse F w s [] = s"
| "lstm_memorize_sse F w s (b # bs) =
     lstm_memorize_sse F w (fst (lstm_step F w s [fdiv F (fconst F (uint b)) (fconst F 255)])) bs"

text \<open>The bytes written to \<open>seq\<close>, \<open>len\<close> of them.\<close>

fun lstm_recall_sse ::
  "('f, 'd) float_ops \<Rightarrow> 'f lstm_weights \<Rightarrow> 'f LSTMState \<Rightarrow> nat \<Rightarrow> 'f LSTMState \<times> u8 list" where
  "lstm_recall_sse F w s 0 = (s, [])"
| "lstm_recall_sse F w s (Suc len) =
     (case lstm_step F w s (replicate INPUT_SIZE (fconst F 0)) of
        (s, out) \<Rightarrow>
          case lstm_recall_sse F w s len of
            (s', rest) \<Rightarrow> (s', to_u8 F (fmul F (out ! 0) (fconst F 255)) # rest))"

text \<open>\<open>KERNEL_FPU_BEGIN\<close> and \<open>KERNEL_FPU_END\<close> around the two have no effect on the state.\<close>

definition lstm_memorize ::
  "('f, 'd) float_ops \<Rightarrow> 'f lstm_weights \<Rightarrow> 'f LSTMState \<Rightarrow> u8 list \<Rightarrow> 'f LSTMState" where
  "lstm_memorize F w s seq = lstm_memorize_sse F w s seq"

definition lstm_recall ::
  "('f, 'd) float_ops \<Rightarrow> 'f lstm_weights \<Rightarrow> 'f LSTMState \<Rightarrow> nat \<Rightarrow> 'f LSTMState \<times> u8 list" where
  "lstm_recall F w s len = lstm_recall_sse F w s len"

subsection \<open>Requests (kmain.c)\<close>

record 'f nswap_block_dev =
  nr_sectors :: u64
  lstm :: "'f LSTMState"

datatype data_dir = WRITE | READ
datatype blk_status = BLK_STS_OK | BLK_STS_IOERR

text \<open>
  A request: its first sector, its length, its direction and the contents of the segments of its
  buffer.
\<close>

record blk_request =
  rq_pos :: u64
  rq_bytes :: u32
  rq_dir :: data_dir
  rq_segments :: "u8 list list"

text \<open>The loop over the segments, and their contents after it.\<close>

fun nswap_segments ::
  "('f, 'd) float_ops \<Rightarrow> 'f lstm_weights \<Rightarrow> data_dir \<Rightarrow> 'f LSTMState \<Rightarrow> u8 list list \<Rightarrow> 'f LSTMState \<times> u8 list list" where
  "nswap_segments F w d s [] = (s, [])"
| "nswap_segments F w d s (seg # segs) =
     (case d of
        WRITE \<Rightarrow>
          (case nswap_segments F w d (lstm_memorize F w s seg) segs of (s', rest) \<Rightarrow> (s', seg # rest))
      | READ \<Rightarrow>
          (case lstm_recall F w s (length seg) of
             (s1, bytes) \<Rightarrow> case nswap_segments F w d s1 segs of (s', rest) \<Rightarrow> (s', bytes # rest)))"

text \<open>
  The result is the status returned, the status the request is ended with, the device and the
  contents of the buffer. Shifts and sums are those of 64-bit numbers.
\<close>

definition nswap_queue_rq ::
  "('f, 'd) float_ops \<Rightarrow> 'f lstm_weights \<Rightarrow> 'f nswap_block_dev \<Rightarrow> blk_request
     \<Rightarrow> blk_status \<times> blk_status \<times> 'f nswap_block_dev \<times> u8 list list" where
  "nswap_queue_rq F w dev rq =
     (let offset = push_bit 9 (rq_pos rq);
          len = ucast (rq_bytes rq)
      in if push_bit 9 (nr_sectors dev) < offset + len
         then (BLK_STS_IOERR, BLK_STS_IOERR, dev, rq_segments rq)
         else case nswap_segments F w (rq_dir rq) (lstm dev) (rq_segments rq) of
                (s, segs) \<Rightarrow> (BLK_STS_OK, BLK_STS_OK, dev\<lparr>lstm := s\<rparr>, segs))"

subsection \<open>Loading and unloading (kmain.c)\<close>

text \<open>
  \<open>blk_mq_alloc_disk\<close> returns a disk or an error pointer, never \<open>NULL\<close>, so that the branch of the
  code that tests for \<open>NULL\<close> after having read \<open>dev.gd->queue\<close> is not taken.
  \<open>dev.queue\<close> is the queue of the disk, which \<open>blk_mq_alloc_disk\<close> makes with it, so that
  \<open>blk_mq_destroy_queue\<close> is a use of the disk.
\<close>

datatype nswap_resource = Blkdev | Lstm_state | Tag_set | Disk | Live_disk

text \<open>What the calls of the kernel return: success, or an error number.\<close>

record nswap_kernel =
  register_blkdev_ok :: bool
  vmalloc_ok :: bool
  alloc_tag_set_ret :: "errno option"
  alloc_disk_ret :: "errno option"
  add_disk_ret :: "errno option"

definition err_out_unregister :: "nswap_resource event list" where
  "err_out_unregister = [Release Blkdev]"

definition err_out_free_buffer :: "nswap_resource event list" where
  "err_out_free_buffer = Release Lstm_state # err_out_unregister"

definition err_out_free_tag_set :: "nswap_resource event list" where
  "err_out_free_tag_set = Release Tag_set # err_out_free_buffer"

definition err_out_destroy_queue :: "nswap_resource event list" where
  "err_out_destroy_queue = Use Disk # err_out_free_tag_set"

definition err_out_put_disk :: "nswap_resource event list" where
  "err_out_put_disk = Release Disk # err_out_destroy_queue"

text \<open>The result is an error number or the initial device, and the trace.\<close>

definition nswap_init ::
  "('f, 'd) float_ops \<Rightarrow> nswap_kernel \<Rightarrow> u64 \<Rightarrow> (errno + 'f nswap_block_dev) \<times> nswap_resource event list" where
  "nswap_init F k nswap_size_mb =
     (if nswap_size_mb = 0 then (Inl EINVAL, [])
      else if \<not> register_blkdev_ok k then (Inl EBUSY, [])
      else
        let es = [Acquire Blkdev] in
        if \<not> vmalloc_ok k then (Inl ENOMEM, es @ err_out_unregister)
        else
          let es = es @ [Acquire Lstm_state] in
          case alloc_tag_set_ret k of
            Some e \<Rightarrow> (Inl e, es @ err_out_free_buffer)
          | None \<Rightarrow>
              let es = es @ [Acquire Tag_set] in
              case alloc_disk_ret k of
                Some e \<Rightarrow> (Inl e, es @ err_out_free_tag_set)
              | None \<Rightarrow>
                  let es = es @ [Acquire Disk] in
                  case add_disk_ret k of
                    Some e \<Rightarrow> (Inl e, es @ err_out_put_disk)
                  | None \<Rightarrow> (Inr \<lparr>nr_sectors = push_bit 11 nswap_size_mb, lstm = lstm_state_reset F\<rparr>,
                              es @ [Acquire Live_disk]))"

text \<open>\<open>dev.gd\<close> is not \<open>NULL\<close> when the module has been loaded.\<close>

definition nswap_exit :: "nswap_resource event list" where
  "nswap_exit = [Release Live_disk, Release Disk, Release Tag_set, Release Lstm_state, Release Blkdev]"

end
