(* ===== verification/Neuro_Props.thy ===== *)
theory Neuro_Props
  imports Neuro_Swap Complex_Main
begin

section \<open>What the neural swap device does\<close>

declare lstm_memorize_def [simp] lstm_recall_def [simp]

subsection \<open>Exact arithmetic\<close>

text \<open>
  The instance of the operations with real numbers: what the code computes when nothing is rounded
  and nothing overflows.
\<close>

definition real_ops :: "(real, real) float_ops" where
  "real_ops = \<lparr>fadd = (+), fsub = (-), fmul = (*), fdiv = (/), fneg = uminus, fconst = of_int,
     dadd = (+), dmul = (*), ddiv = (/), dconst = of_int, to_double = (\<lambda>x. x), to_float = (\<lambda>x. x),
     to_u8 = (\<lambda>x. word_of_int (if 0 \<le> x then \<lfloor>x\<rfloor> else \<lceil>x\<rceil>))\<rparr>"

lemma real_ops_sel [simp]:
  "fadd real_ops x y = x + y" "fsub real_ops x y = x - y" "fmul real_ops x y = x * y"
  "fdiv real_ops x y = x / y" "fneg real_ops x = - x" "fconst real_ops i = of_int i"
  "dadd real_ops x y = x + y" "dmul real_ops x y = x * y" "ddiv real_ops x y = x / y"
  "dconst real_ops i = of_int i" "to_double real_ops x = x" "to_float real_ops x = x"
  by (simp_all add: real_ops_def)

lemma exp_fold:
  "fold (exp_step real_ops x) [1..<Suc n] (1, 1) = ((\<Sum>m\<le>n. x ^ m / fact m), x ^ n / fact n)"
proof (induction n)
  case (Suc n)
  have "[1..<Suc (Suc n)] = [1..<Suc n] @ [Suc n]" by simp
  then have "fold (exp_step real_ops x) [1..<Suc (Suc n)] (1, 1) =
      exp_step real_ops x (Suc n) (fold (exp_step real_ops x) [1..<Suc n] (1, 1))"
    by (simp only: fold_append fold.simps comp_apply id_apply)
  also have "\<dots> = exp_step real_ops x (Suc n) ((\<Sum>m\<le>n. x ^ m / fact m), x ^ n / fact n)" by (simp only: Suc)
  also have "\<dots> = ((\<Sum>m\<le>Suc n. x ^ m / fact m), x ^ Suc n / fact (Suc n))"
    by (simp add: exp_step_def Let_def mult.commute)
  finally show ?case .
qed simp

lemma kexpf_real: "kexpf real_ops x = (\<Sum>m\<le>30. x ^ m / fact m)"
  using exp_fold [of x 30] by (simp add: kexpf_def EXP_TAILOR_POWER_def del: upt_Suc upt_rec_numeral)

lemma kexpf_remainder:
  "\<exists>t. \<bar>t\<bar> \<le> \<bar>x\<bar> \<and> exp x = kexpf real_ops x + exp t / fact 31 * x ^ 31"
  using Maclaurin_exp_le [of x 31] by (simp add: kexpf_real lessThan_Suc_atMost [of 30, simplified])

lemma kexpf_pos: "0 < kexpf real_ops x"
proof (cases "0 \<le> x")
  case True
  have "kexpf real_ops x = 1 + (\<Sum>m\<in>{..30} - {0}. x ^ m / fact m)"
    unfolding kexpf_real by (subst sum.remove [of _ 0]) auto
  moreover have "0 \<le> (\<Sum>m\<in>{..30 :: nat} - {0}. x ^ m / fact m)" using True by (intro sum_nonneg) simp
  ultimately show ?thesis by linarith
next
  case False
  obtain t where t: "exp x = kexpf real_ops x + exp t / fact 31 * x ^ 31" using kexpf_remainder by blast
  have "x ^ 31 < 0" using False by (simp add: odd_power_less_zero)
  then have "exp t / fact 31 * x ^ 31 < 0" by (intro mult_pos_neg) auto
  then show ?thesis using t exp_gt_zero [of x] by linarith
qed

text \<open>
  C29: without rounding, \<open>kexpf\<close> is the sum of the first 31 terms of the exponential series: it is
  positive everywhere, also for negative arguments, where it is larger than the exponential, and
  differs from it by at most \<open>exp \<bar>x\<bar> * \<bar>x\<bar> ^ 31 / 31!\<close>.
\<close>

theorem kexpf_accuracy:
  "kexpf real_ops x = (\<Sum>m\<le>30. x ^ m / fact m) \<and> 0 < kexpf real_ops x
    \<and> \<bar>kexpf real_ops x - exp x\<bar> \<le> exp \<bar>x\<bar> * \<bar>x\<bar> ^ 31 / fact 31"
proof (intro conjI)
  obtain t where t: "\<bar>t\<bar> \<le> \<bar>x\<bar>" "exp x = kexpf real_ops x + exp t / fact 31 * x ^ 31" using kexpf_remainder by blast
  have "\<bar>kexpf real_ops x - exp x\<bar> = exp t * \<bar>x\<bar> ^ 31 / fact 31"
    unfolding t(2) by (simp add: abs_mult power_abs)
  also have "\<dots> \<le> exp \<bar>x\<bar> * \<bar>x\<bar> ^ 31 / fact 31"
    using t(1) by (intro divide_right_mono mult_right_mono) auto
  finally show "\<bar>kexpf real_ops x - exp x\<bar> \<le> exp \<bar>x\<bar> * \<bar>x\<bar> ^ 31 / fact 31" .
qed (rule kexpf_real, rule kexpf_pos)

lemma sigmoid_bounds: "0 < sigmoid real_ops x \<and> sigmoid real_ops x < 1"
  using kexpf_pos [of "- x"] by (simp add: sigmoid_def Let_def)

lemma ktanhf_bounds: "\<bar>ktanhf real_ops x\<bar> < 1"
proof -
  have p: "0 < kexpf real_ops x" "0 < kexpf real_ops (- x)" by (rule kexpf_pos)+
  then show ?thesis by (simp add: ktanhf_def Let_def abs_less_iff divide_less_eq less_divide_eq)
qed

text \<open>The sizes of the state, and bounds on its values.\<close>

definition lstm_ok :: "nat \<Rightarrow> real LSTMState \<Rightarrow> bool" where
  "lstm_ok k s \<longleftrightarrow> length (lstm_h s) = HIDDEN_SIZE \<and> length (lstm_c s) = HIDDEN_SIZE
     \<and> (\<forall>x\<in>set (lstm_h s). \<bar>x\<bar> < 1) \<and> (\<forall>x\<in>set (lstm_c s). \<bar>x\<bar> \<le> real k)"

lemma lstm_ok_reset: "lstm_ok 0 (lstm_state_reset real_ops)"
  by (auto simp: lstm_ok_def lstm_state_reset_def)

lemma length_gate [simp]: "length (lstm_gate F act W U b x hs) = HIDDEN_SIZE"
  by (simp add: lstm_gate_def vec_add_def)

lemma gate_range: "i < HIDDEN_SIZE \<Longrightarrow> \<exists>z. lstm_gate F act W U b x hs ! i = act z"
  by (simp add: lstm_gate_def vec_add_def) blast

lemma lstm_step_ok:
  assumes "lstm_ok k s"
  shows "lstm_ok (Suc k) (fst (lstm_step real_ops w s x))"
proof -
  let ?gi = "lstm_gate real_ops (sigmoid real_ops) (lstmw_Wi w) (lstmw_Ui w) (lstmw_bi w) x (lstm_h s)"
  let ?gf = "lstm_gate real_ops (sigmoid real_ops) (lstmw_Wf w) (lstmw_Uf w) (lstmw_bf w) x (lstm_h s)"
  let ?gg = "lstm_gate real_ops (ktanhf real_ops) (lstmw_Wg w) (lstmw_Ug w) (lstmw_bg w) x (lstm_h s)"
  let ?go = "lstm_gate real_ops (sigmoid real_ops) (lstmw_Wo w) (lstmw_Uo w) (lstmw_bo w) x (lstm_h s)"
  have g: "0 < ?gi ! i" "?gi ! i < 1" "0 < ?gf ! i" "?gf ! i < 1" "0 < ?go ! i" "?go ! i < 1" "\<bar>?gg ! i\<bar> < 1"
    if "i < HIDDEN_SIZE" for i
    using gate_range [OF that, of real_ops "sigmoid real_ops"] gate_range [OF that, of real_ops "ktanhf real_ops"]
      sigmoid_bounds ktanhf_bounds by metis+
  have cb: "\<bar>lstm_c s ! i\<bar> \<le> real k" if "i < HIDDEN_SIZE" for i using assms that by (simp add: lstm_ok_def)
  have c: "\<bar>?gf ! i * lstm_c s ! i + ?gi ! i * ?gg ! i\<bar> \<le> real (Suc k)" if "i < HIDDEN_SIZE" for i
  proof -
    have "\<bar>?gf ! i * lstm_c s ! i\<bar> \<le> 1 * real k"
      unfolding abs_mult using g(3,4) [OF that] cb [OF that] by (intro mult_mono) auto
    moreover have "\<bar>?gi ! i * ?gg ! i\<bar> \<le> 1 * 1"
      unfolding abs_mult using g(1,2,7) [OF that] by (intro mult_mono) auto
    ultimately show ?thesis by linarith
  qed
  have hb: "\<bar>?go ! i * ktanhf real_ops z\<bar> < 1" if "i < HIDDEN_SIZE" for i z
  proof -
    have "\<bar>?go ! i * ktanhf real_ops z\<bar> \<le> 1 * \<bar>ktanhf real_ops z\<bar>"
      unfolding abs_mult using g(5,6) [OF that] by (intro mult_right_mono) auto
    then show ?thesis using ktanhf_bounds [of z] by linarith
  qed
  show ?thesis
    using c hb by (auto simp: lstm_step_def Let_def lstm_ok_def)
qed

lemma lstm_memorize_ok: "lstm_ok k s \<Longrightarrow> lstm_ok (k + length bs) (lstm_memorize real_ops w s bs)"
proof (induction bs arbitrary: k s)
  case (Cons b bs)
  from Cons.IH [OF lstm_step_ok [OF Cons.prems]] show ?case by simp
qed simp

lemma lstm_recall_ok: "lstm_ok k s \<Longrightarrow> lstm_ok (k + n) (fst (lstm_recall real_ops w s n))"
proof (induction n arbitrary: k s)
  case (Suc n)
  obtain s1 out where s1: "lstm_step real_ops w s (replicate INPUT_SIZE (fconst real_ops 0)) = (s1, out)" by fastforce
  have "lstm_ok (Suc k) s1" using lstm_step_ok [OF Suc.prems, of w "replicate INPUT_SIZE (fconst real_ops 0)"] s1 by simp
  from Suc.IH [OF this] show ?case by (simp only: lstm_recall_sse.simps lstm_recall_def s1 prod.case) (simp add: split_beta)
qed simp

subsection \<open>Segments\<close>

lemma lstm_memorize_append: "lstm_memorize_sse F w s (xs @ ys) = lstm_memorize_sse F w (lstm_memorize_sse F w s xs) ys"
  by (induction xs arbitrary: s) simp_all

lemma lstm_recall_add:
  "lstm_recall_sse F w s (m + n) =
     (case lstm_recall_sse F w s m of (s1, xs) \<Rightarrow> case lstm_recall_sse F w s1 n of (s2, ys) \<Rightarrow> (s2, xs @ ys))"
  by (induction m arbitrary: s) (auto split: prod.splits)

lemma length_recall [simp]: "length (snd (lstm_recall_sse F w s n)) = n"
  by (induction n arbitrary: s) (simp_all add: split_beta)

lemma nswap_segments_write: "nswap_segments F w WRITE s segs = (lstm_memorize F w s (concat segs), segs)"
  by (induction segs arbitrary: s) (simp_all add: lstm_memorize_append)

lemma nswap_segments_read:
  "fst (nswap_segments F w READ s segs) = fst (lstm_recall F w s (length (concat segs)))
   \<and> concat (snd (nswap_segments F w READ s segs)) = snd (lstm_recall F w s (length (concat segs)))"
proof (induction segs arbitrary: s)
  case (Cons seg segs)
  then show ?case
    by (simp add: lstm_recall_add split: prod.splits) (metis fst_conv snd_conv)
qed simp

lemma nswap_segments_ok:
  assumes "lstm_ok k s"
  shows "lstm_ok (k + length (concat segs)) (fst (nswap_segments real_ops w d s segs))"
  using lstm_memorize_ok [OF assms, of "concat segs"] lstm_recall_ok [OF assms, of "length (concat segs)"]
    nswap_segments_read [of real_ops w s segs]
  by (cases d) (simp_all add: nswap_segments_write)

text \<open>All requests one after the other.\<close>

definition nswap_run ::
  "('f, 'd) float_ops \<Rightarrow> 'f lstm_weights \<Rightarrow> 'f nswap_block_dev \<Rightarrow> blk_request list \<Rightarrow> 'f nswap_block_dev" where
  "nswap_run F w dev rqs = foldl (\<lambda>dev rq. fst (snd (snd (nswap_queue_rq F w dev rq)))) dev rqs"

definition rq_length :: "blk_request \<Rightarrow> nat" where
  "rq_length rq = length (concat (rq_segments rq))"

text \<open>
  C20: the state of the network stays bounded. Without rounding, whatever the weights are and
  whatever is read and written, the state keeps its size, every hidden value stays strictly between
  -1 and 1, and a bound on the cell values grows by one for every byte read or written.
\<close>

theorem nswap_state_bounded:
  assumes "lstm_ok k (lstm dev)"
  shows "lstm_ok (k + sum_list (map rq_length rqs)) (lstm (nswap_run real_ops w dev rqs))"
  using assms
proof (induction rqs arbitrary: dev k)
  case (Cons rq rqs)
  let ?dev = "fst (snd (snd (nswap_queue_rq real_ops w dev rq)))"
  have "lstm_ok (k + rq_length rq) (lstm ?dev)"
  proof (cases "push_bit 9 (nr_sectors dev) < push_bit 9 (rq_pos rq) + ucast (rq_bytes rq)")
    case True
    then show ?thesis using Cons.prems by (auto simp: nswap_queue_rq_def Let_def lstm_ok_def)
  next
    case False
    then show ?thesis
      using nswap_segments_ok [OF Cons.prems, of "rq_segments rq" w "rq_dir rq"]
      by (simp add: nswap_queue_rq_def Let_def rq_length_def split_beta)
  qed
  from Cons.IH [OF this] show ?case by (simp add: nswap_run_def add.assoc)
qed (simp add: nswap_run_def)

definition demo_weights :: "real lstm_weights" where
  "demo_weights = \<lparr>lstmw_Wi = replicate 80 1, lstmw_Wf = replicate 80 1, lstmw_Wg = replicate 80 1, lstmw_Wo = replicate 80 1,
     lstmw_Ui = replicate 6400 0, lstmw_Uf = replicate 6400 0, lstmw_Ug = replicate 6400 0, lstmw_Uo = replicate 6400 0,
     lstmw_bi = replicate 80 0, lstmw_bf = replicate 80 0, lstmw_bg = replicate 80 0, lstmw_bo = replicate 80 0,
     lstmw_Wy = replicate 80 0, lstmw_by = [0]\<rparr>"

definition demo_dev :: "real nswap_block_dev" where
  "demo_dev = \<lparr>nr_sectors = 8, lstm = lstm_state_reset real_ops\<rparr>"

definition demo_rq :: blk_request where
  "demo_rq = \<lparr>rq_pos = 0, rq_bytes = 3, rq_dir = WRITE, rq_segments = [[1, 2], [3]]\<rparr>"

theorem nswap_state_bounded_witness:
  "lstm_ok 6 (lstm (nswap_run real_ops demo_weights demo_dev [demo_rq, demo_rq\<lparr>rq_dir := READ\<rparr>]))"
proof -
  have "0 + sum_list (map rq_length [demo_rq, demo_rq\<lparr>rq_dir := READ\<rparr>]) = 6"
    by (simp add: rq_length_def demo_rq_def)
  then show ?thesis
    using nswap_state_bounded [where k = 0 and dev = demo_dev and w = demo_weights
        and rqs = "[demo_rq, demo_rq\<lparr>rq_dir := READ\<rparr>]"] lstm_ok_reset
    unfolding demo_dev_def by simp
qed

text \<open>
  The device has no addresses. A request is served from the state of the network alone: where
  it starts makes no difference, as long as it is accepted, and how its buffer is cut into segments
  makes none either. So what is written to one sector is what a read of any other sector gets, and
  a read changes what the next read returns. This holds for every arithmetic.
\<close>

theorem nswap_address_blind:
  assumes "fst (nswap_queue_rq F w dev (rq\<lparr>rq_pos := p\<rparr>)) = BLK_STS_OK"
    and "fst (nswap_queue_rq F w dev (rq\<lparr>rq_pos := q\<rparr>)) = BLK_STS_OK"
  shows "nswap_queue_rq F w dev (rq\<lparr>rq_pos := p\<rparr>) = nswap_queue_rq F w dev (rq\<lparr>rq_pos := q\<rparr>)
    \<and> (case nswap_queue_rq F w dev (rq\<lparr>rq_pos := p\<rparr>) of (_, _, dev', segs) \<Rightarrow>
         (rq_dir rq = WRITE \<longrightarrow> lstm dev' = lstm_memorize F w (lstm dev) (concat (rq_segments rq)))
       \<and> (rq_dir rq = READ \<longrightarrow> (lstm dev', concat segs) = lstm_recall F w (lstm dev) (length (concat (rq_segments rq)))))"
  using assms nswap_segments_write [of F w "lstm dev" "rq_segments rq"] nswap_segments_read [of F w "lstm dev" "rq_segments rq"]
  by (auto simp: nswap_queue_rq_def Let_def prod_eq_iff split: if_splits prod.splits)

theorem nswap_address_blind_witness:
  "nswap_queue_rq real_ops demo_weights demo_dev (demo_rq\<lparr>rq_pos := 1\<rparr>)
     = nswap_queue_rq real_ops demo_weights demo_dev (demo_rq\<lparr>rq_pos := 6\<rparr>)"
proof -
  have "fst (nswap_queue_rq real_ops demo_weights demo_dev (demo_rq\<lparr>rq_pos := 1\<rparr>)) = BLK_STS_OK"
    "fst (nswap_queue_rq real_ops demo_weights demo_dev (demo_rq\<lparr>rq_pos := 6\<rparr>)) = BLK_STS_OK"
    by (simp_all add: nswap_queue_rq_def Let_def demo_rq_def demo_dev_def split_beta)
  from nswap_address_blind [OF this] show ?thesis by blast
qed

text \<open>
  A request is refused exactly when it reaches beyond the end of the device, as long as its
  own end is below \<open>2 ^ 64\<close> bytes, and a refused request leaves the device and the buffer as they
  are. But the check wraps around: a request at sector \<open>2 ^ 55\<close>, far beyond the end, is accepted.
  And a refused request is both ended by the driver and reported to the caller as failed, who ends
  it again.
\<close>

theorem nswap_request_bounds:
  assumes "unat (nr_sectors dev) < 36028797018963968"
  shows "(unat (rq_pos rq) * 512 + unat (rq_bytes rq) < 18446744073709551616 \<longrightarrow>
      (fst (nswap_queue_rq F w dev rq) = BLK_STS_IOERR
       \<longleftrightarrow> unat (nr_sectors dev) * 512 < unat (rq_pos rq) * 512 + unat (rq_bytes rq)))
    \<and> (fst (nswap_queue_rq F w dev rq) = BLK_STS_IOERR
       \<longrightarrow> nswap_queue_rq F w dev rq = (BLK_STS_IOERR, BLK_STS_IOERR, dev, rq_segments rq))
    \<and> (rq_pos rq = 36028797018963968 \<and> unat (rq_bytes rq) \<le> unat (nr_sectors dev) * 512
       \<longrightarrow> fst (nswap_queue_rq F w dev rq) = BLK_STS_OK)"
proof (intro conjI impI)
  have sh: "unat (push_bit 9 x :: u64) = unat x * 512" if "unat x * 512 < 18446744073709551616" for x :: u64
    using that unat_mult64 [of x 512] by (simp add: push_bit_eq_mult)
  have nr: "unat (push_bit 9 (nr_sectors dev)) = unat (nr_sectors dev) * 512"
    using assms by (intro sh) linarith
  have len: "unat (ucast (rq_bytes rq) :: u64) = unat (rq_bytes rq)"
    using unsigned_less [of "rq_bytes rq", where 'a = nat] by (simp add: unsigned_ucast_eq take_bit_nat_eq_self)
  {
    assume l: "unat (rq_pos rq) * 512 + unat (rq_bytes rq) < 18446744073709551616"
    have "unat (push_bit 9 (rq_pos rq) + ucast (rq_bytes rq)) = unat (rq_pos rq) * 512 + unat (rq_bytes rq)"
      using l sh [of "rq_pos rq"] len by (subst unat_add64) auto
    then show "fst (nswap_queue_rq F w dev rq) = BLK_STS_IOERR
        \<longleftrightarrow> unat (nr_sectors dev) * 512 < unat (rq_pos rq) * 512 + unat (rq_bytes rq)"
      by (simp add: nswap_queue_rq_def Let_def word_less_nat_alt nr split_beta)
  next
    assume "fst (nswap_queue_rq F w dev rq) = BLK_STS_IOERR"
    then show "nswap_queue_rq F w dev rq = (BLK_STS_IOERR, BLK_STS_IOERR, dev, rq_segments rq)"
      by (simp add: nswap_queue_rq_def Let_def split_beta split: if_splits)
  next
    assume a: "rq_pos rq = 36028797018963968 \<and> unat (rq_bytes rq) \<le> unat (nr_sectors dev) * 512"
    then have "push_bit 9 (rq_pos rq) = of_nat (36028797018963968 * 512)" by (simp only: push_bit_eq_mult) simp
    also have "(of_nat (36028797018963968 * 512) :: u64) = 0" by (subst word_of_nat_eq_0_iff) simp
    finally have "push_bit 9 (rq_pos rq) = 0" .
    then show "fst (nswap_queue_rq F w dev rq) = BLK_STS_OK"
      using conjunct2 [OF a] by (simp add: nswap_queue_rq_def Let_def word_less_nat_alt nr len split_beta)
  }
qed

theorem nswap_request_bounds_witness:
  "fst (nswap_queue_rq real_ops demo_weights demo_dev (demo_rq\<lparr>rq_pos := 36028797018963968\<rparr>)) = BLK_STS_OK"
  using nswap_request_bounds [where dev = demo_dev and rq = "demo_rq\<lparr>rq_pos := 36028797018963968\<rparr>" and F = real_ops and w = demo_weights]
  by (simp add: demo_dev_def demo_rq_def)

text \<open>
  C33: every failure while the module loads gives back everything acquired, except one: when
  \<open>add_disk\<close> fails, the disk is put before its queue is destroyed, a use of the disk after it was
  released. After a load that succeeds, unloading gives everything back.
\<close>

theorem nswap_load_unload:
  "case nswap_init F k sz of (r, es) \<Rightarrow>
     (case r of
        Inl e \<Rightarrow>
          if sz \<noteq> 0 \<and> register_blkdev_ok k \<and> vmalloc_ok k \<and> alloc_tag_set_ret k = None \<and> alloc_disk_ret k = None
          then add_disk_ret k = Some e \<and> run_events {} es = None
          else run_events {} es = Some {}
      | Inr dev \<Rightarrow> \<exists>H. run_events {} es = Some H \<and> run_events H nswap_exit = Some {}
          \<and> lstm dev = lstm_state_reset F)"
  by (auto simp: nswap_init_def Let_def err_out_put_disk_def err_out_destroy_queue_def err_out_free_tag_set_def
      err_out_free_buffer_def err_out_unregister_def nswap_exit_def split: option.splits)

theorem nswap_load_unload_witness:
  "run_events {} (snd (nswap_init real_ops \<lparr>register_blkdev_ok = True, vmalloc_ok = True, alloc_tag_set_ret = None,
     alloc_disk_ret = None, add_disk_ret = Some EBUSY\<rparr> 32)) = None"
  using nswap_load_unload [where F = real_ops and k = "\<lparr>register_blkdev_ok = True, vmalloc_ok = True, alloc_tag_set_ret = None,
     alloc_disk_ret = None, add_disk_ret = Some EBUSY\<rparr>" and sz = 32]
  by (simp add: nswap_init_def Let_def)

end
