(* ===== verification/Neuro_Arrays.thy ===== *)
theory Neuro_Arrays
  imports Neuro_Props
begin

section \<open>The arrays of the network\<close>

text \<open>
  C arrays know no length, so that the model of a computation on lists has to be justified: here the
  functions of math.c and inference.c are given a second time with every access to an array checked
  (the result is \<open>None\<close> when an index is out of range). With tables of the sizes that weights.h
  declares the checked functions never fail, and compute what the unchecked ones do.
\<close>

subsection \<open>Checked accesses\<close>

definition get_at :: "'a list \<Rightarrow> nat \<Rightarrow> 'a option" where
  "get_at xs i = (if i < length xs then Some (xs ! i) else None)"

definition bind2 :: "('a \<Rightarrow> 'b \<Rightarrow> 'c) \<Rightarrow> 'a option \<Rightarrow> 'b option \<Rightarrow> 'c option" where
  "bind2 f a b = Option.bind a (\<lambda>x. map_option (f x) b)"

lemma bind2_Some [simp]: "bind2 f (Some x) (Some y) = Some (f x y)"
  by (simp add: bind2_def)

lemma get_at_Some [simp]: "i < length xs \<Longrightarrow> get_at xs i = Some (xs ! i)"
  by (simp add: get_at_def)

definition matvec_checked :: "('f, 'd) float_ops \<Rightarrow> 'f list \<Rightarrow> 'f list \<Rightarrow> nat \<Rightarrow> nat \<Rightarrow> 'f list option" where
  "matvec_checked F A x m n =
     those (map (\<lambda>i. fold (\<lambda>j out. bind2 (fadd F) out (bind2 (fmul F) (get_at A (i * n + j)) (get_at x j))) [0..<n]
                       (Some (fconst F 0))) [0..<m])"

definition vec_add_checked :: "('f, 'd) float_ops \<Rightarrow> 'f list \<Rightarrow> 'f list \<Rightarrow> nat \<Rightarrow> 'f list option" where
  "vec_add_checked F out v n = those (map (\<lambda>i. bind2 (fadd F) (get_at out i) (get_at v i)) [0..<n])"

definition lstm_gate_checked ::
  "('f, 'd) float_ops \<Rightarrow> ('f \<Rightarrow> 'f) \<Rightarrow> 'f list \<Rightarrow> 'f list \<Rightarrow> 'f list \<Rightarrow> 'f list \<Rightarrow> 'f list \<Rightarrow> 'f list option" where
  "lstm_gate_checked F act W U b x hs =
     Option.bind (matvec_checked F W x HIDDEN_SIZE INPUT_SIZE) (\<lambda>g.
     Option.bind (matvec_checked F U hs HIDDEN_SIZE HIDDEN_SIZE) (\<lambda>tmp.
     Option.bind (vec_add_checked F g tmp HIDDEN_SIZE) (\<lambda>g.
     Option.bind (vec_add_checked F g b HIDDEN_SIZE) (\<lambda>g.
     those (map (\<lambda>i. map_option act (get_at g i)) [0..<HIDDEN_SIZE])))))"

definition lstm_step_checked ::
  "('f, 'd) float_ops \<Rightarrow> 'f lstm_weights \<Rightarrow> 'f LSTMState \<Rightarrow> 'f list \<Rightarrow> ('f LSTMState \<times> 'f list) option" where
  "lstm_step_checked F w s x =
     Option.bind (lstm_gate_checked F (sigmoid F) (lstmw_Wi w) (lstmw_Ui w) (lstmw_bi w) x (lstm_h s)) (\<lambda>gi.
     Option.bind (lstm_gate_checked F (sigmoid F) (lstmw_Wf w) (lstmw_Uf w) (lstmw_bf w) x (lstm_h s)) (\<lambda>gf.
     Option.bind (lstm_gate_checked F (ktanhf F) (lstmw_Wg w) (lstmw_Ug w) (lstmw_bg w) x (lstm_h s)) (\<lambda>gg.
     Option.bind (lstm_gate_checked F (sigmoid F) (lstmw_Wo w) (lstmw_Uo w) (lstmw_bo w) x (lstm_h s)) (\<lambda>go.
     Option.bind (those (map (\<lambda>i. bind2 (fadd F) (bind2 (fmul F) (get_at gf i) (get_at (lstm_c s) i))
                                       (bind2 (fmul F) (get_at gi i) (get_at gg i))) [0..<HIDDEN_SIZE])) (\<lambda>c'.
     Option.bind (those (map (\<lambda>i. bind2 (fmul F) (get_at go i) (map_option (ktanhf F) (get_at c' i))) [0..<HIDDEN_SIZE])) (\<lambda>h'.
     Option.bind (matvec_checked F (lstmw_Wy w) h' OUTPUT_SIZE HIDDEN_SIZE) (\<lambda>y.
     map_option (\<lambda>y. (\<lparr>lstm_h = h', lstm_c = c'\<rparr>, y)) (vec_add_checked F y (lstmw_by w) OUTPUT_SIZE))))))))"

fun lstm_memorize_checked ::
  "('f, 'd) float_ops \<Rightarrow> 'f lstm_weights \<Rightarrow> 'f LSTMState \<Rightarrow> u8 list \<Rightarrow> 'f LSTMState option" where
  "lstm_memorize_checked F w s [] = Some s"
| "lstm_memorize_checked F w s (b # bs) =
     Option.bind (lstm_step_checked F w s [fdiv F (fconst F (uint b)) (fconst F 255)])
       (\<lambda>r. lstm_memorize_checked F w (fst r) bs)"

fun lstm_recall_checked ::
  "('f, 'd) float_ops \<Rightarrow> 'f lstm_weights \<Rightarrow> 'f LSTMState \<Rightarrow> nat \<Rightarrow> ('f LSTMState \<times> u8 list) option" where
  "lstm_recall_checked F w s 0 = Some (s, [])"
| "lstm_recall_checked F w s (Suc len) =
     Option.bind (lstm_step_checked F w s (replicate INPUT_SIZE (fconst F 0))) (\<lambda>r.
     Option.bind (get_at (snd r) 0) (\<lambda>o0.
     map_option (\<lambda>r'. (fst r', to_u8 F (fmul F o0 (fconst F 255)) # snd r'))
       (lstm_recall_checked F w (fst r) len)))"

subsection \<open>No access is out of range\<close>

text \<open>The sizes of the tables in weights.h and of the state in inference.h.\<close>

definition weights_wf :: "'f lstm_weights \<Rightarrow> bool" where
  "weights_wf w \<longleftrightarrow>
     (\<forall>W\<in>{lstmw_Wi w, lstmw_Wf w, lstmw_Wg w, lstmw_Wo w}. length W = HIDDEN_SIZE * INPUT_SIZE)
     \<and> (\<forall>U\<in>{lstmw_Ui w, lstmw_Uf w, lstmw_Ug w, lstmw_Uo w}. length U = HIDDEN_SIZE * HIDDEN_SIZE)
     \<and> (\<forall>b\<in>{lstmw_bi w, lstmw_bf w, lstmw_bg w, lstmw_bo w}. length b = HIDDEN_SIZE)
     \<and> length (lstmw_Wy w) = OUTPUT_SIZE * HIDDEN_SIZE \<and> length (lstmw_by w) = OUTPUT_SIZE"

definition state_wf :: "'f LSTMState \<Rightarrow> bool" where
  "state_wf s \<longleftrightarrow> length (lstm_h s) = HIDDEN_SIZE \<and> length (lstm_c s) = HIDDEN_SIZE"

lemma those_map_Some: "(\<And>x. x \<in> set xs \<Longrightarrow> f x = Some (g x)) \<Longrightarrow> those (map f xs) = Some (map g xs)"
  by (induction xs) auto

lemma fold_Some:
  "(\<And>x s. x \<in> set xs \<Longrightarrow> f x (Some s) = Some (g x s)) \<Longrightarrow> fold f xs (Some s) = Some (fold g xs s)"
  by (induction xs arbitrary: s) auto

lemma row_index: "i < m \<Longrightarrow> j < n \<Longrightarrow> i * n + j < m * (n :: nat)"
proof -
  assume "i < m" "j < n"
  then have "i * n + j < Suc i * n" "Suc i * n \<le> m * n" by (simp, intro mult_le_mono1, simp)
  then show ?thesis by simp
qed

lemma matvec_safe:
  assumes "length A = m * n" "length x = n"
  shows "matvec_checked F A x m n = Some (matvec F A x m n)"
  unfolding matvec_checked_def matvec_def
  by (intro those_map_Some fold_Some) (simp add: assms row_index)

lemma vec_add_safe: "length out = n \<Longrightarrow> length v = n \<Longrightarrow> vec_add_checked F out v n = Some (vec_add F out v n)"
  unfolding vec_add_checked_def vec_add_def by (intro those_map_Some) simp

lemma length_matvec [simp]: "length (matvec F A x m n) = m"
  by (simp add: matvec_def)

lemma length_vec_add [simp]: "length (vec_add F out v n) = n"
  by (simp add: vec_add_def)

lemma lstm_gate_safe:
  assumes "length W = HIDDEN_SIZE * INPUT_SIZE" "length U = HIDDEN_SIZE * HIDDEN_SIZE" "length b = HIDDEN_SIZE"
    "length x = INPUT_SIZE" "length hs = HIDDEN_SIZE"
  shows "lstm_gate_checked F act W U b x hs = Some (lstm_gate F act W U b x hs)"
proof -
  have "those (map (\<lambda>i. map_option act (get_at g i)) [0..<HIDDEN_SIZE]) = Some (map act g)" if "length g = HIDDEN_SIZE" for g
  proof -
    have "those (map (\<lambda>i. map_option act (get_at g i)) [0..<HIDDEN_SIZE]) = Some (map (\<lambda>i. act (g ! i)) [0..<HIDDEN_SIZE])"
      using that by (intro those_map_Some) simp
    also have "map (\<lambda>i. act (g ! i)) [0..<HIDDEN_SIZE] = map act g" using that by (intro nth_equalityI) auto
    finally show ?thesis .
  qed
  then show ?thesis using assms by (simp add: lstm_gate_checked_def lstm_gate_def matvec_safe vec_add_safe Let_def)
qed

lemma lstm_step_safe:
  assumes "weights_wf w" "state_wf s" "length x = INPUT_SIZE"
  shows "lstm_step_checked F w s x = Some (lstm_step F w s x)"
    "state_wf (fst (lstm_step F w s x))" "length (snd (lstm_step F w s x)) = OUTPUT_SIZE"
proof -
  have W: "length (lstmw_Wi w) = HIDDEN_SIZE * INPUT_SIZE" "length (lstmw_Wf w) = HIDDEN_SIZE * INPUT_SIZE"
    "length (lstmw_Wg w) = HIDDEN_SIZE * INPUT_SIZE" "length (lstmw_Wo w) = HIDDEN_SIZE * INPUT_SIZE"
    "length (lstmw_Ui w) = HIDDEN_SIZE * HIDDEN_SIZE" "length (lstmw_Uf w) = HIDDEN_SIZE * HIDDEN_SIZE"
    "length (lstmw_Ug w) = HIDDEN_SIZE * HIDDEN_SIZE" "length (lstmw_Uo w) = HIDDEN_SIZE * HIDDEN_SIZE"
    "length (lstmw_bi w) = HIDDEN_SIZE" "length (lstmw_bf w) = HIDDEN_SIZE"
    "length (lstmw_bg w) = HIDDEN_SIZE" "length (lstmw_bo w) = HIDDEN_SIZE"
    "length (lstmw_Wy w) = OUTPUT_SIZE * HIDDEN_SIZE" "length (lstmw_by w) = OUTPUT_SIZE"
    using assms(1) by (auto simp: weights_wf_def)
  have S: "length (lstm_h s) = HIDDEN_SIZE" "length (lstm_c s) = HIDDEN_SIZE" using assms(2) by (auto simp: state_wf_def)
  note gate = lstm_gate_safe [OF _ _ _ assms(3) S(1), where F = F]
  let ?gi = "lstm_gate F (sigmoid F) (lstmw_Wi w) (lstmw_Ui w) (lstmw_bi w) x (lstm_h s)"
  let ?gf = "lstm_gate F (sigmoid F) (lstmw_Wf w) (lstmw_Uf w) (lstmw_bf w) x (lstm_h s)"
  let ?gg = "lstm_gate F (ktanhf F) (lstmw_Wg w) (lstmw_Ug w) (lstmw_bg w) x (lstm_h s)"
  let ?go = "lstm_gate F (sigmoid F) (lstmw_Wo w) (lstmw_Uo w) (lstmw_bo w) x (lstm_h s)"
  let ?c = "map (\<lambda>i. fadd F (fmul F (?gf ! i) (lstm_c s ! i)) (fmul F (?gi ! i) (?gg ! i))) [0..<HIDDEN_SIZE]"
  let ?h = "map (\<lambda>i. fmul F (?go ! i) (ktanhf F (?c ! i))) [0..<HIDDEN_SIZE]"
  have c: "those (map (\<lambda>i. bind2 (fadd F) (bind2 (fmul F) (get_at ?gf i) (get_at (lstm_c s) i)) (bind2 (fmul F) (get_at ?gi i) (get_at ?gg i)))
      [0..<HIDDEN_SIZE]) = Some ?c"
    by (intro those_map_Some) (simp add: S)
  have h: "those (map (\<lambda>i. bind2 (fmul F) (get_at ?go i) (map_option (ktanhf F) (get_at ?c i))) [0..<HIDDEN_SIZE]) = Some ?h"
    by (intro those_map_Some) simp
  have y: "matvec_checked F (lstmw_Wy w) ?h OUTPUT_SIZE HIDDEN_SIZE = Some (matvec F (lstmw_Wy w) ?h OUTPUT_SIZE HIDDEN_SIZE)"
    "vec_add_checked F (matvec F (lstmw_Wy w) ?h OUTPUT_SIZE HIDDEN_SIZE) (lstmw_by w) OUTPUT_SIZE
       = Some (vec_add F (matvec F (lstmw_Wy w) ?h OUTPUT_SIZE HIDDEN_SIZE) (lstmw_by w) OUTPUT_SIZE)"
    by (simp_all add: matvec_safe vec_add_safe W)
  show "lstm_step_checked F w s x = Some (lstm_step F w s x)"
    unfolding lstm_step_checked_def lstm_step_def Let_def
    by (simp only: gate [OF W(1,5,9)] gate [OF W(2,6,10)] gate [OF W(3,7,11)] gate [OF W(4,8,12)] Option.bind.bind_lunit
        c h y option.map)
  show "state_wf (fst (lstm_step F w s x))" "length (snd (lstm_step F w s x)) = OUTPUT_SIZE"
    by (simp_all add: lstm_step_def Let_def state_wf_def)
qed

lemma lstm_memorize_safe:
  "weights_wf w \<Longrightarrow> state_wf s \<Longrightarrow>
     lstm_memorize_checked F w s bs = Some (lstm_memorize F w s bs) \<and> state_wf (lstm_memorize F w s bs)"
  by (induction bs arbitrary: s) (simp_all add: lstm_memorize_def lstm_step_safe INPUT_SIZE_def)

lemma lstm_recall_safe:
  "weights_wf w \<Longrightarrow> state_wf s \<Longrightarrow>
     lstm_recall_checked F w s n = Some (lstm_recall F w s n) \<and> state_wf (fst (lstm_recall F w s n))"
proof (induction n arbitrary: s)
  case (Suc n)
  note step = lstm_step_safe [OF Suc.prems, of "replicate INPUT_SIZE (fconst F 0)" F, simplified]
  show ?case
    using Suc.IH [OF Suc.prems(1) step(2)] step(1,3)
    by (simp add: lstm_recall_def split_beta OUTPUT_SIZE_def)
qed (simp add: lstm_recall_def)

lemma nswap_segments_safe:
  "weights_wf w \<Longrightarrow> state_wf s \<Longrightarrow>
     state_wf (fst (nswap_segments F w d s segs)) \<and> map length (snd (nswap_segments F w d s segs)) = map length segs"
proof (induction segs arbitrary: s)
  case (Cons seg segs)
  show ?case
  proof (cases d)
    case WRITE
    then show ?thesis
      using Cons.IH [of "lstm_memorize F w s seg"] lstm_memorize_safe [OF Cons.prems, of F seg] Cons.prems(1)
      by (simp add: split_beta)
  next
    case READ
    then show ?thesis
      using Cons.IH [of "fst (lstm_recall F w s (length seg))"] lstm_recall_safe [OF Cons.prems, of F "length seg"] Cons.prems(1)
      by (simp add: split_beta lstm_recall_def)
  qed
qed simp

lemma nswap_queue_rq_safe:
  "weights_wf w \<Longrightarrow> state_wf (lstm dev) \<Longrightarrow>
     state_wf (lstm (fst (snd (snd (nswap_queue_rq F w dev rq)))))
     \<and> map length (snd (snd (snd (nswap_queue_rq F w dev rq)))) = map length (rq_segments rq)"
  using nswap_segments_safe [of w "lstm dev" F "rq_dir rq" "rq_segments rq"]
  by (simp add: nswap_queue_rq_def Let_def split_beta)

lemma nswap_run_safe: "weights_wf w \<Longrightarrow> state_wf (lstm dev) \<Longrightarrow> state_wf (lstm (nswap_run F w dev rqs))"
proof (induction rqs arbitrary: dev)
  case (Cons rq rqs)
  from Cons.IH [OF Cons.prems(1)] nswap_queue_rq_safe [OF Cons.prems, of F rq] show ?case
    by (simp add: nswap_run_def)
qed (simp add: nswap_run_def)

text \<open>
  C11: no access to an array of the network is out of range. Whatever the arithmetic is, with tables
  of the sizes in weights.h: after loading the module and serving any requests, the state has its
  size, memorizing and recalling any further bytes with every access checked succeeds and computes
  what the code computes, and a request leaves every segment of its buffer at its length.
\<close>

theorem nswap_arrays_in_range:
  assumes "weights_wf w" "nswap_init F k size_mb = (Inr dev, es)" "dev' = nswap_run F w dev rqs"
  shows "state_wf (lstm dev')
    \<and> lstm_memorize_checked F w (lstm dev') bs = Some (lstm_memorize F w (lstm dev') bs)
    \<and> lstm_recall_checked F w (lstm dev') n = Some (lstm_recall F w (lstm dev') n)
    \<and> map length (snd (snd (snd (nswap_queue_rq F w dev' rq)))) = map length (rq_segments rq)"
proof -
  have "lstm dev = lstm_state_reset F"
    using assms(2) by (auto simp: nswap_init_def Let_def split: if_splits option.splits)
  then have "state_wf (lstm dev)" by (simp add: state_wf_def lstm_state_reset_def)
  then have "state_wf (lstm dev')" unfolding assms(3) by (rule nswap_run_safe [OF assms(1)])
  then show ?thesis
    using lstm_memorize_safe [OF assms(1)] lstm_recall_safe [OF assms(1)] nswap_queue_rq_safe [OF assms(1)] by blast
qed

definition flat_weights :: "real lstm_weights" where
  "flat_weights =
     \<lparr>lstmw_Wi = replicate 80 1, lstmw_Wf = replicate 80 1, lstmw_Wg = replicate 80 1, lstmw_Wo = replicate 80 1,
      lstmw_Ui = replicate 6400 1, lstmw_Uf = replicate 6400 1, lstmw_Ug = replicate 6400 1, lstmw_Uo = replicate 6400 1,
      lstmw_bi = replicate 80 1, lstmw_bf = replicate 80 1, lstmw_bg = replicate 80 1, lstmw_bo = replicate 80 1,
      lstmw_Wy = replicate 80 1, lstmw_by = [1]\<rparr>"

theorem nswap_arrays_in_range_witness:
  "lstm_recall_checked real_ops flat_weights (lstm_state_reset real_ops) 5
     = Some (lstm_recall real_ops flat_weights (lstm_state_reset real_ops) 5)"
proof -
  have w: "weights_wf flat_weights"
    by (simp add: weights_wf_def flat_weights_def HIDDEN_SIZE_def INPUT_SIZE_def OUTPUT_SIZE_def)
  let ?k = "\<lparr>register_blkdev_ok = True, vmalloc_ok = True, alloc_tag_set_ret = None, alloc_disk_ret = None, add_disk_ret = None\<rparr>"
  obtain es where i: "nswap_init real_ops ?k 1 = (Inr \<lparr>nr_sectors = push_bit 11 1, lstm = lstm_state_reset real_ops\<rparr>, es)"
    by (simp add: nswap_init_def Let_def)
  show ?thesis
    using nswap_arrays_in_range [OF w i refl, of "[]" "[]" 5] by (simp add: nswap_run_def)
qed

end
