(* ===== verification/Neuro_User.thy ===== *)
theory Neuro_User
  imports Neuro_Props
begin

section \<open>The test program of the neural swap device (umain.c)\<close>

text \<open>
  The program runs the network on five sequences in user space, each from a reset state, and then
  writes the same sequences to \<open>/dev/nswap\<close> and reads the device after each. What it prints is a
  list of values. The device as the kernel offers it to processes, with its page cache, is a parameter:
  what \<open>open\<close> returns, and what reads and writes at an offset return. The offset of
  the open file is that of the standard: it starts at 0, and \<open>read\<close> and \<open>write\<close> advance it by
  what they return.
\<close>

subsection \<open>The sequences\<close>

definition TEST_SEQ_LEN :: nat where "TEST_SEQ_LEN = 5"

definition tests :: "u8 list list" where
  "tests = [[100, 80, 60, 40, 20], [100, 20, 80, 40, 20], [100, 40, 100, 40, 100],
     [1, 2, 3, 4, 5], [5, 4, 3, 2, 1]]"

definition n_tests :: nat where "n_tests = length tests"

text \<open>The values printed: the number of the test, its input and the sequence it got.\<close>

datatype printed =
    Heading_direct
  | Heading_device
  | Direct nat "u8 list" "u8 list"
  | Open_failed
  | Write_failed nat
  | Read_failed nat
  | Via_device nat "u8 list" "u8 list"
  | Closing_words

definition run_userspace_tests :: "('f, 'd) float_ops \<Rightarrow> 'f lstm_weights \<Rightarrow> printed list" where
  "run_userspace_tests F w =
     map (\<lambda>i. let input = tests ! i;
                  state = lstm_memorize F w (lstm_state_reset F) input;
                  (state, out_seq) = lstm_recall F w state TEST_SEQ_LEN
              in Direct i input out_seq) [0..<n_tests]"

subsection \<open>The device\<close>

text \<open>
  The state \<open>'k\<close> of the kernel and the device; a negative number is an error. A read also gives the
  bytes the buffer holds after it.
\<close>

record 'k device_calls =
  dev_open :: "'k \<Rightarrow> int \<times> 'k"
  dev_write :: "'k \<Rightarrow> nat \<Rightarrow> u8 list \<Rightarrow> int \<times> 'k"
  dev_read :: "'k \<Rightarrow> nat \<Rightarrow> nat \<Rightarrow> int \<times> u8 list \<times> 'k"

text \<open>The calls made on the file: with the offset and the length, for reads and writes.\<close>

datatype file_call = Opens | Writes_at nat nat | Reads_at nat nat | Closes

text \<open>The loop, from test \<open>i\<close> on; the result is what is printed, the calls made and the state.\<close>

fun device_loop :: "'k device_calls \<Rightarrow> 'k \<Rightarrow> nat \<Rightarrow> nat \<Rightarrow> u8 list list \<Rightarrow> printed list \<times> file_call list \<times> 'k" where
  "device_loop K k pos i [] = ([], [Closes], k)"
| "device_loop K k pos i (input # rest) =
     (case dev_write K k pos (take TEST_SEQ_LEN input) of
        (ret, k1) \<Rightarrow>
          let pos1 = pos + nat ret in
          if ret \<noteq> int TEST_SEQ_LEN then ([Write_failed i], [Writes_at pos TEST_SEQ_LEN], k1)
          else case dev_read K k1 pos1 TEST_SEQ_LEN of
            (ret, out_seq, k2) \<Rightarrow>
              let pos2 = pos1 + nat ret in
              if ret \<noteq> int TEST_SEQ_LEN
              then ([Read_failed i], [Writes_at pos TEST_SEQ_LEN, Reads_at pos1 TEST_SEQ_LEN], k2)
              else case device_loop K k2 pos2 (Suc i) rest of
                (out, calls, k3) \<Rightarrow>
                  (Via_device i input out_seq # out,
                   Writes_at pos TEST_SEQ_LEN # Reads_at pos1 TEST_SEQ_LEN # calls, k3))"

definition run_device_tests :: "'k device_calls \<Rightarrow> 'k \<Rightarrow> printed list \<times> file_call list \<times> 'k" where
  "run_device_tests K k =
     (case dev_open K k of
        (fd, k1) \<Rightarrow>
          if fd < 0 then ([Open_failed], [], k1)
          else case device_loop K k1 0 0 tests of (out, calls, k2) \<Rightarrow> (out, Opens # calls, k2))"

definition test_main ::
  "('f, 'd) float_ops \<Rightarrow> 'f lstm_weights \<Rightarrow> 'k device_calls \<Rightarrow> 'k \<Rightarrow> printed list \<times> file_call list \<times> 'k" where
  "test_main F w K k =
     (case run_device_tests K k of
        (out, calls, k') \<Rightarrow>
          (Heading_direct # run_userspace_tests F w @ Heading_device # out @ [Closing_words], calls, k'))"

subsection \<open>What the device tests do\<close>

text \<open>The calls of the tests from \<open>i\<close> up to \<open>n\<close>: each writes and then reads what comes behind.\<close>

definition passed_calls :: "nat \<Rightarrow> nat \<Rightarrow> file_call list" where
  "passed_calls i n = concat (map (\<lambda>j. [Writes_at (10 * j) 5, Reads_at (10 * j + 5) 5]) [i..<n])"

lemma passed_calls_Suc: "i < n \<Longrightarrow> passed_calls i n = Writes_at (10 * i) 5 # Reads_at (10 * i + 5) 5 # passed_calls (Suc i) n"
  by (simp add: passed_calls_def upt_conv_Cons)

text \<open>How the loop ends: after \<open>n\<close> tests, with its end, a failed write or a failed read.\<close>

definition loop_end :: "nat \<Rightarrow> nat \<Rightarrow> printed list \<Rightarrow> file_call list \<Rightarrow> bool" where
  "loop_end n len out calls \<longleftrightarrow>
     (n = len \<and> out = [] \<and> calls = [Closes])
   \<or> (n < len \<and> out = [Write_failed n] \<and> calls = [Writes_at (10 * n) 5])
   \<or> (n < len \<and> out = [Read_failed n] \<and> calls = [Writes_at (10 * n) 5, Reads_at (10 * n + 5) 5])"

lemma device_loop_shape:
  "device_loop K k (10 * i) i ts = (out, calls, k') \<Longrightarrow>
     \<exists>n seqs last last_calls. i \<le> n \<and> length seqs = n - i \<and> loop_end n (i + length ts) last last_calls
       \<and> out = map (\<lambda>j. Via_device j (ts ! (j - i)) (seqs ! (j - i))) [i..<n] @ last
       \<and> calls = passed_calls i n @ last_calls"
proof (induction ts arbitrary: k i out calls k')
  case Nil
  then have "loop_end i (i + length []) out calls" "calls = passed_calls i i @ calls" by (auto simp: passed_calls_def loop_end_def)
  then show ?case by (intro exI [of _ i] exI [of _ "[]"] exI [of _ out] exI [of _ calls]) simp
next
  case (Cons input ts)
  obtain ret k1 where w: "dev_write K k (10 * i) (take TEST_SEQ_LEN input) = (ret, k1)" by fastforce
  obtain ret' seq k2 where r: "dev_read K k1 (10 * i + 5) TEST_SEQ_LEN = (ret', seq, k2)" by (metis prod_cases3)
  have stop: ?case if "loop_end i (i + length (input # ts)) out calls"
    using that by (intro exI [of _ i] exI [of _ "[]"] exI [of _ out] exI [of _ calls]) (simp add: passed_calls_def)
  consider "ret \<noteq> 5" | "ret = 5" "ret' \<noteq> 5" | "ret = 5" "ret' = 5" by blast
  then show ?case
  proof cases
    case 1
    then show ?thesis using Cons.prems w by (intro stop) (simp add: TEST_SEQ_LEN_def loop_end_def)
  next
    case 2
    then show ?thesis using Cons.prems w r by (intro stop) (simp add: TEST_SEQ_LEN_def loop_end_def)
  next
    case 3
    obtain out1 calls1 where d: "device_loop K k2 (10 * Suc i) (Suc i) ts = (out1, calls1, k')"
      and o: "out = Via_device i input seq # out1" "calls = Writes_at (10 * i) 5 # Reads_at (10 * i + 5) 5 # calls1"
      using Cons.prems w r 3 by (auto simp: TEST_SEQ_LEN_def Let_def add.commute split: prod.splits)
    obtain n seqs lst last_calls where n: "Suc i \<le> n" "length seqs = n - Suc i" "loop_end n (Suc i + length ts) lst last_calls"
      "out1 = map (\<lambda>j. Via_device j (ts ! (j - Suc i)) (seqs ! (j - Suc i))) [Suc i..<n] @ lst"
      "calls1 = passed_calls (Suc i) n @ last_calls"
      using Cons.IH [OF d] by blast
    have "[i..<n] = i # [Suc i..<n]" using n(1) by (intro upt_conv_Cons) simp
    then have "out = map (\<lambda>j. Via_device j ((input # ts) ! (j - i)) ((seq # seqs) ! (j - i))) [i..<n] @ lst"
      unfolding o(1) n(4) by (auto simp: nth_Cons' Suc_diff_Suc)
    moreover have "calls = passed_calls i n @ last_calls" unfolding o(2) n(5) using n(1) by (simp add: passed_calls_Suc)
    moreover have "length (seq # seqs) = n - i" "loop_end n (i + length (input # ts)) lst last_calls" "i \<le> n" using n(1-3) by simp_all
    ultimately show ?thesis by blast
  qed
qed

definition never_read_back :: "file_call list \<Rightarrow> bool" where
  "never_read_back calls \<longleftrightarrow>
     (\<forall>a b c d. Writes_at a b \<in> set calls \<longrightarrow> Reads_at c d \<in> set calls \<longrightarrow> a + b \<le> c \<or> c + d \<le> a)"

lemma offsets_apart:
  "\<forall>x\<in>set calls. (\<exists>j. x = Writes_at (10 * j) 5) \<or> (\<exists>j. x = Reads_at (10 * j + 5) 5) \<or> x = Opens \<or> x = Closes \<Longrightarrow>
     never_read_back calls"
  unfolding never_read_back_def
proof (intro allI impI)
  fix a b c d
  assume calls: "\<forall>x\<in>set calls. (\<exists>j. x = Writes_at (10 * j) 5) \<or> (\<exists>j. x = Reads_at (10 * j + 5) 5) \<or> x = Opens \<or> x = Closes"
    and w: "Writes_at a b \<in> set calls" and r: "Reads_at c d \<in> set calls"
  obtain i where "a = 10 * i" "b = 5" using bspec [OF calls w] by auto
  moreover obtain j where "c = 10 * j + 5" "d = 5" using bspec [OF calls r] by auto
  ultimately show "a + b \<le> c \<or> c + d \<le> a" by presburger
qed

text \<open>
  C40: whatever the kernel and the device answer, the device tests run in order up to the first call
  that fails, and print one result per test that succeeded and at most one error. No read ever
  covers a byte that the program wrote: the offset of the file stands behind the sequence just
  written, so that what is printed as recalled are other bytes. When a write or a read fails, the
  program returns without closing the file.
\<close>

theorem device_tests_outcome:
  assumes "run_device_tests K k = (out, calls, k')"
  shows "never_read_back calls
    \<and> (out = [Open_failed] \<and> calls = []
     \<or> (\<exists>n\<le>5. \<exists>seqs. length seqs = n \<and> take n out = map (\<lambda>j. Via_device j (tests ! j) (seqs ! j)) [0..<n]
          \<and> take (Suc (2 * n)) calls = Opens # passed_calls 0 n
          \<and> (if n = 5 then length out = 5 \<and> last calls = Closes
             else (drop n out = [Write_failed n] \<or> drop n out = [Read_failed n]) \<and> Closes \<notin> set calls)))"
proof (cases "fst (dev_open K k) < 0")
  case True
  then show ?thesis using assms by (auto simp: run_device_tests_def never_read_back_def split: prod.splits)
next
  case False
  obtain k1 calls1 where d: "device_loop K k1 (10 * 0) 0 tests = (out, calls1, k')" and c: "calls = Opens # calls1"
    using assms False by (auto simp: run_device_tests_def split: prod.splits)
  obtain n seqs lst last_calls where n: "length seqs = n" "loop_end n 5 lst last_calls"
    "out = map (\<lambda>j. Via_device j (tests ! j) (seqs ! j)) [0..<n] @ lst" "calls1 = passed_calls 0 n @ last_calls"
  proof -
    have "length tests = 5" by (simp add: tests_def)
    then show thesis using device_loop_shape [OF d] that by fastforce
  qed
  have P: "\<forall>x\<in>set (passed_calls 0 n). (\<exists>j. x = Writes_at (10 * j) 5) \<or> (\<exists>j. x = Reads_at (10 * j + 5) 5)" "length (passed_calls 0 n) = 2 * n"
    "Closes \<notin> set (passed_calls 0 n)"
    by (auto simp: passed_calls_def length_concat o_def sum_list_triv)
  have "never_read_back calls"
    using P(1) n(2) unfolding c n(4) by (intro offsets_apart) (auto simp: loop_end_def)
  moreover have "n \<le> 5" using n(2) by (auto simp: loop_end_def)
  ultimately show ?thesis
    using n(1,2) P(2,3) unfolding c n(3,4) by (auto simp: loop_end_def intro!: exI [of _ n] exI [of _ seqs])
qed

text \<open>A kernel that answers every write in full, and whose second read fails.\<close>

definition demo_calls :: "nat device_calls" where
  "demo_calls = \<lparr>dev_open = (\<lambda>k. (3, k)), dev_write = (\<lambda>k pos bs. (int (length bs), k)),
     dev_read = (\<lambda>k pos n. if pos = 15 then (-1, [], k) else (int n, replicate n 7, Suc k))\<rparr>"

theorem device_tests_outcome_witness:
  "\<exists>out calls. run_device_tests demo_calls 0 = (out, calls, 1) \<and> never_read_back calls \<and> Closes \<notin> set calls
     \<and> out = [Via_device 0 [100, 80, 60, 40, 20] [7, 7, 7, 7, 7], Read_failed 1]"
proof -
  have r: "run_device_tests demo_calls 0 = ([Via_device 0 [100, 80, 60, 40, 20] [7, 7, 7, 7, 7], Read_failed 1],
      [Opens, Writes_at 0 5, Reads_at 5 5, Writes_at 10 5, Reads_at 15 5], 1)"
    by (simp add: run_device_tests_def demo_calls_def tests_def TEST_SEQ_LEN_def numeral_eq_Suc)
  show ?thesis using device_tests_outcome [OF r] r by simp
qed

end
