(* ===== verification/Spec2Isabelle.thy ===== *)
theory Spec2Isabelle
  imports Util Freelist Slab_Destroy Slab_Hang Penguin_Stores Telegram_Files Fat16_System Neuro_Arrays Neuro_User
begin

text \<open>
  Verification of the modules of the repository: a memory allocator for user programs
  (penguin_malloc) and three kernel modules, character devices for Telegram chats (telegram-fs), a
  read-only FAT16 file system (penguin-fat16) and a block device whose storage is a neural network
  (neuro-swap). They share no code and no state, and neither do their models; file names below are
  relative to the directory of each module under src/.

  \<^bold>\<open>What all parts share.\<close> \<open>Prelude\<close>: C integers as words of their width (\<open>u8\<close> to \<open>u64\<close>, pointers
  as \<open>u64\<close>), their readings as natural numbers, the conversions between \<open>size_t\<close> and \<open>int\<close>, byte
  memory as a function from addresses to bytes with 64-bit loads and stores, and what loads see
  after stores elsewhere. \<open>Kernel\<close>: error numbers, character arrays with \<open>scnprintf\<close>,
  traces of resources acquired, used and released, with \<open>run_events\<close> that checks them. A result
  \<open>None\<close> is behaviour that C leaves undefined or that does not return: a shift by the width, a
  division by 0, a loop that never ends; theorems that code returns say so by \<open>Some\<close>. Loops are
  recursive functions with a measure; the ones that need not end, \<open>strlen_loop\<close>,
  \<open>walk_chain\<close>, \<open>read_loop\<close>, \<open>skip_full\<close> and \<open>destroy_loop\<close>, are \<open>partial_function (option)\<close>. No fuel is used anywhere.

  \<^bold>\<open>penguin_malloc\<close> (src/*.c, src/new.cpp). \<open>operator new\<close> (new.cpp) maps 128 MiB on first use,
  makes a buddy allocator of them (buddy.c) and sets up the heap on it (penguin_malloc.c); \<open>malloc\<close>
  serves sizes below a page from one of eight slabs (slab.c), others from the buddy allocator; a
  header in front of every object says where it came from. The models are on byte memory, every
  struct field a load or store at its offset:
   \<^item> \<open>Util\<close> (util.c): alignment, powers of two and logarithms with their undefined shifts, page
     counts, \<open>itos\<close>, with what each computes and for which arguments.
   \<^item> \<open>Freelist\<close> (freelist.c): the intrusive lists; the locale \<open>lifo\<close> is a stack, interpreted on the
     code as \<open>fl\<close>.
   \<^item> \<open>Buddy_Util\<close> (buddy_util.c): the bitmap as a heap of bits (locale \<open>block_bits\<close>, interpretation
     \<open>bb\<close>), addresses and indices of blocks, the choice of a layer.
   \<^item> \<open>Buddy\<close> (buddy.c, buddy.h, pfalloc.c): the struct, initialisation, allocation and release.
     \<open>Buddy_Inv\<close> and \<open>Buddy_Refine\<close> relate memory to an abstract machine of free lists and bits
     (\<open>Buddy_Abs\<close>, with the invariant that the free blocks and those in use partition the pool);
     \<open>Buddy_Sim\<close> is the simulation of the loops, \<open>Buddy_Correct\<close> the reachable states and the contract
     of a source of pages (locale \<open>page_source\<close>, interpretation \<open>bs\<close>), \<open>Buddy_Init\<close> the
     initial state that \<open>buddy_init\<close> makes, \<open>Buddy_Props\<close> the theorems.
   \<^item> \<open>Slab\<close> (slab.c, slab.h): the caches and their list. \<open>Slab_Correct\<close>: a slab with its root cache,
     its slots, what allocation and release do to it; \<open>Slab_Props\<close>: initialisation,
     separateness (interpretation \<open>sl\<close> of \<open>page_source\<close>); \<open>Slab_Destroy\<close> and \<open>Slab_Grow\<close>: a slab with
     two caches, destroyed or given up again. \<open>Slab_Caches\<close>: the invariant \<open>slabs_rep\<close> of a slab with any
     number of caches on its buddy allocator, whatever the links between the caches are, as long as each
     is \<open>NULL\<close> or a cache of the slab, and what allocation, release and growth do to it;
     \<open>Slab_System\<close>: the steps of the clients of such a slab (\<open>slab_step\<close>) and the objects in use;
     \<open>Slab_Hang\<close>: a list of caches without an end, in which an allocation does not return.
   \<^item> \<open>Penguin_Malloc\<close> (penguin_malloc.c, new.cpp): the two globals as a record, \<open>malloc\<close>, \<open>free\<close>,
     the operators of C++. \<open>Penguin_Props\<close>: single calls. \<open>Penguin_Heap\<close>: the objects of the
     whole heap, small and large, and the invariant \<open>heap_rep\<close> of memory and objects.
     \<open>Penguin_System\<close>: \<open>heap_reach\<close>, the states reached from initialisation by calls of \<open>malloc\<close> and
     \<open>free\<close> and writes of users, and the theorems about them. \<open>Penguin_Stores\<close>: the contract of
     private memories (locale \<open>memory_source\<close>, an extension of \<open>page_source\<close>), interpreted on the
     buddy allocator (\<open>bm\<close>) and on the heap (\<open>hm\<close>).
  Two limits of these theorems are limits of the code, with theorems of their own: a block of odd
  index must not be released (\<open>buddy_free\<close> then gives the whole pool away), and a slab whose root
  cache has been full takes a further cache for its next object, whatever has been released;
  \<open>servable\<close> and \<open>releasable\<close> leave these calls out of \<open>heap_step\<close>, and so do sizes from \<open>2 ^ 63\<close> on. The heap is followed while small requests
  find a free object in a root cache; a single slab is followed beyond that, with any number of further
  caches, in \<open>Slab_System\<close>, except for releases that give a cache back (\<open>keeps_cache\<close>), whose pages the
  slab goes on using: \<open>Slab_Grow\<close> has the theorem of that.

  \<^bold>\<open>telegram-fs\<close> (kmodule/*.c). Ten chat devices with a text buffer each (chat.c) and one bus device
  (bus.c) with a ring buffer of 32 lines for the daemon; users write to chats, which appends to the
  text and queues a line; the daemon reads lines and writes commands that append to chats.
  \<open>Telegram\<close> is the model of all file operations and of loading and unloading (main.c). \<open>Telegram_Bus\<close>:
  the ring buffer implements a bounded queue (locale \<open>bounded_fifo\<close>, interpretation \<open>bus\<close>);
  \<open>Telegram_Chat\<close>: texts, readers and commands; \<open>Telegram_Props\<close>: the invariant of the module and the
  effect of each operation, loading and unloading. \<open>Telegram_Conc\<close>: writers whose two critical
  sections interleave. \<open>Telegram_Files\<close>: the tables of operations and what \<open>open\<close> and \<open>release\<close> do, and
  processes that open, read, write, poll and close files (\<open>tg_syscalls\<close>). In \<open>Telegram\<close> and \<open>Telegram_Props\<close> an operation is one step. A
  reader that sleeps takes the state it wakes up in as an argument. \<open>kstrtoint\<close> is a parameter;
  \<open>fault\<close> says whether a copy from or to the user fails.

  \<^bold>\<open>penguin-fat16\<close> (kmodule/*.c). Mounting (super.c) reads the geometry; lookup (inode.c) and listing
  (dir.c) walk a directory with a callback; reading (file.c) follows the chain of clusters
  (fat16.c). \<open>Fat16\<close> holds the structs, the geometry, the clusters and the names; \<open>Fat16_Fs\<close> the
  operations. The disk is a parameter that gives the bytes of a sector or fails. \<open>Fat16_Names\<close>: the
  conversion of names; \<open>Fat16_Walk\<close>: a directory as the list of its entries, which the walk follows;
  \<open>Fat16_Dirs\<close>: lookup and listing; \<open>Fat16_Files\<close>: reading, and cyclic chains; \<open>Fat16_Mount\<close>: mounting;
  \<open>Fat16_System\<close>: a file from the mount to its bytes, and the life of the module. \<open>tolower\<close>,
  \<open>d_splice_alias\<close>, \<open>dir_emit_dots\<close>, the room in the buffer of the user, and the results of allocations and of
  \<open>d_make_root\<close> are parameters.

  \<^bold>\<open>neuro-swap\<close> (kmodule/*.c). Requests to the block device (kmain.c) feed bytes to an LSTM network or
  read its output (inference.c, math.c). \<open>Neuro_Swap\<close> is the model, over any arithmetic of \<open>float\<close> and
  \<open>double\<close> (a record of operations) and any weights. \<open>Neuro_Props\<close> uses exact real numbers where values
  matter; \<open>Neuro_Arrays\<close> shows for every arithmetic that no array is accessed out of range. \<open>Neuro_User\<close> is the
  test program (umain.c), with what it prints as a list of values; the device as the kernel offers it
  to processes is a parameter, and the offset of the open file is that of the standard.

  \<^bold>\<open>Not modelled.\<close> The daemon of telegram-fs and the training script (Python), and the tests of
  penguin_malloc (GoogleTest) and penguin-fat16 (bats). The numbers of weights.h, which are generated; their sizes are used.
  Log messages, \<open>penguin_fat16_getattr\<close> and
  \<open>penguin_fat16_llseek\<close> (which only call the generic function), and the tables of operations of
  penguin-fat16 and neuro-swap. The rounding of floating-point numbers. Concurrency inside an operation
  is modelled for writers of chats only; the operators of C++ are serialised by their mutex,
  and the requests of neuro-swap are served one after the other, which the code itself does not
  enforce by a lock.
\<close>

end
